(* ===== verification/Prelude.thy ===== *)
theory Prelude
  imports Main "HOL-Library.Word"
begin

text \<open>
  Shared vocabulary of the OpenMLS development: machine integers at their Rust
  width, the outcome of a fallible Rust function, the \<^verbatim>\<open>&mut self\<close> mutators that
  thread a state, and the operations of \<^verbatim>\<open>Vec\<close>/\<^verbatim>\<open>VecDeque\<close> that the
  components use.

  Arithmetic is that of a release build: \<open>+\<close>, \<open>-\<close>, \<open>*\<close> wrap, a shift amount is
  masked to the width, and \<^verbatim>\<open>debug_assert!\<close> is absent.  Where a component relies on
  the absence of overflow, its lemmas prove the exact (unbounded) result.
\<close>

section \<open>Machine integers\<close>

type_synonym u8 = "8 word"
type_synonym u16 = "16 word"
type_synonym u32 = "32 word"
type_synonym u64 = "64 word"
type_synonym bytes = "8 word list"

definition U32_MAX :: u32 where
  "U32_MAX = 0xFFFFFFFF"

named_theorems outcome_simps \<open>equations that decide how an outcome arose\<close>
named_theorems vec_simps \<open>bounds-checked vector access\<close>

text \<open>Release-mode shifts of a \<^verbatim>\<open>u32\<close>: the amount is taken modulo 32.\<close>

definition shl32 :: "u32 \<Rightarrow> nat \<Rightarrow> u32" where
  "shl32 x n = push_bit (n mod 32) x"

definition shr32 :: "u32 \<Rightarrow> nat \<Rightarrow> u32" where
  "shr32 x n = drop_bit (n mod 32) x"

text \<open>
  \<^verbatim>\<open>trailing_ones\<close> and the bit length behind \<^verbatim>\<open>leading_zeros\<close>, on the value of the
  word.
\<close>

function trailing_ones :: "nat \<Rightarrow> nat" where
  "trailing_ones n = (if odd n then Suc (trailing_ones (n div 2)) else 0)"
  by pat_completeness auto
termination
  by (relation "measure id") (auto elim: oddE)

fun bit_length :: "nat \<Rightarrow> nat" where
  "bit_length n = (if n = 0 then 0 else Suc (bit_length (n div 2)))"

declare trailing_ones.simps [simp del] bit_length.simps [simp del]

definition leading_zeros32 :: "u32 \<Rightarrow> nat" where
  "leading_zeros32 x = 32 - bit_length (unat x)"

text \<open>Reading a \<^verbatim>\<open>u32\<close> computation as one on natural numbers.\<close>

named_theorems u32_nat \<open>the value of a \<^verbatim>\<open>u32\<close> operation\<close>

lemma unat_of_nat_u32: "n < 2 ^ 32 \<Longrightarrow> unat (of_nat n :: u32) = n"
  by (simp add: unat_of_nat)

lemma u32_eqI: "unat x = unat (y :: u32) \<Longrightarrow> x = y"
  by (simp add: word_unat_eq_iff)

lemma u32_eq_of_nat: "unat (x :: u32) = n \<Longrightarrow> x = of_nat n"
  by auto

lemma unat_div2 [u32_nat]: "unat ((x :: u32) div 2) = unat x div 2"
  by (simp add: unat_div_distrib)

lemma unat_mod2 [u32_nat]: "unat ((x :: u32) mod 2) = unat x mod 2"
  by (simp add: unat_mod_distrib)

lemma unat_minus1 [u32_nat]: "(x :: u32) \<noteq> 0 \<Longrightarrow> unat (x - 1) = unat x - 1"
  by (simp add: unat_minus_one)

lemma unat_shl32 [u32_nat]:
  assumes "n < 32" and "unat x * 2 ^ n < 2 ^ 32" shows "unat (shl32 x n) = unat x * 2 ^ n"
proof -
  have "unat (shl32 x n) = take_bit 32 (push_bit n (unat x))"
    using assms(1) by (simp add: shl32_def unsigned_push_bit_eq)
  then show ?thesis
    using assms(2) by (simp add: push_bit_eq_mult take_bit_nat_eq_self)
qed

lemma unat_shl32_1 [u32_nat]: "n < 32 \<Longrightarrow> unat (shl32 1 n) = 2 ^ n"
  using unat_shl32 [of n 1] power_strict_increasing [of n 32 "2 :: nat"] by simp

lemma unat_shl32_1_minus1 [u32_nat]: "n < 32 \<Longrightarrow> unat (shl32 1 n - 1) = 2 ^ n - 1"
  using unat_minus1 [of "shl32 1 n"] unat_shl32_1 [of n] by fastforce

lemma unat_shr32 [u32_nat]: "n < 32 \<Longrightarrow> unat (shr32 x n) = drop_bit n (unat x)"
  using unsigned_less [where w = x and ?'a = nat]
  by (simp add: shr32_def unsigned_drop_bit_eq take_bit_nat_eq_self)

lemma unat_U32_MAX [u32_nat]: "unat U32_MAX = 2 ^ 32 - 1"
  by (simp add: U32_MAX_def)

lemma u32_le_MAX: "unat (x :: u32) \<le> 2 ^ 32 - 1"
  using unsigned_less [where w = x and ?'a = nat] by simp

lemma u32_eq_MAX: "x = U32_MAX \<longleftrightarrow> unat x = 2 ^ 32 - 1"
  by (metis u32_eqI unat_U32_MAX)

lemma unat_plus1_u32 [u32_nat]: "x \<noteq> U32_MAX \<Longrightarrow> unat (x + 1) = Suc (unat x)"
  using u32_le_MAX [of x] u32_eq_MAX [of x]
  by (subst unat_add_lem [THEN iffD1]) auto

section \<open>Outcomes of fallible code\<close>

text \<open>
  A Rust function can return an error, panic, or (a loop) never return.  All three are
  values of the model; \<open>Inr\<close> carries the normal result.
\<close>

datatype 'e fault = Throws 'e | Panics | Diverges

type_synonym ('a, 'e) outcome = "'e fault + 'a"

abbreviation throw :: "'e \<Rightarrow> ('a, 'e) outcome" where
  "throw e \<equiv> Inl (Throws e)"

text \<open>The \<^verbatim>\<open>?\<close> operator.\<close>

fun and_then :: "('a, 'e) outcome \<Rightarrow> ('a \<Rightarrow> ('b, 'e) outcome) \<Rightarrow> ('b, 'e) outcome" where
  "and_then (Inl f) k = Inl f"
| "and_then (Inr x) k = k x"

lemma and_then_Inr [outcome_simps]: "and_then r k = Inr y \<longleftrightarrow> (\<exists>x. r = Inr x \<and> k x = Inr y)"
  by (cases r) auto

lemma and_then_Inl [outcome_simps]:
  "and_then r k = Inl f \<longleftrightarrow> r = Inl f \<or> (\<exists>x. r = Inr x \<and> k x = Inl f)"
  by (cases r) auto

fun map_fault :: "('e \<Rightarrow> 'f) \<Rightarrow> 'e fault \<Rightarrow> 'f fault" where
  "map_fault h (Throws e) = Throws (h e)"
| "map_fault h Panics = Panics"
| "map_fault h Diverges = Diverges"

text \<open>\<^verbatim>\<open>map_err\<close>, and the implicit \<^verbatim>\<open>From\<close> conversion of \<^verbatim>\<open>?\<close>.\<close>

fun map_err :: "('e \<Rightarrow> 'f) \<Rightarrow> ('a, 'e) outcome \<Rightarrow> ('a, 'f) outcome" where
  "map_err h (Inl f) = Inl (map_fault h f)"
| "map_err h (Inr x) = Inr x"

lemma map_err_Inr [outcome_simps]: "map_err h r = Inr x \<longleftrightarrow> r = Inr x"
  by (cases r) auto

lemma map_err_Inl [outcome_simps]: "map_err h r = Inl f \<longleftrightarrow> (\<exists>f'. r = Inl f' \<and> f = map_fault h f')"
  by (cases r) auto

text \<open>\<^verbatim>\<open>ok_or\<close>, and the value of a loop that may not return.\<close>

fun ok_or :: "'a option \<Rightarrow> 'e \<Rightarrow> ('a, 'e) outcome" where
  "ok_or None e = throw e"
| "ok_or (Some x) e = Inr x"

lemma ok_or_Inr [outcome_simps]: "ok_or m e = Inr x \<longleftrightarrow> m = Some x"
  by (cases m) auto

lemma ok_or_Inl [outcome_simps]: "ok_or m e = Inl f \<longleftrightarrow> m = None \<and> f = Throws e"
  by (cases m) auto

fun terminating :: "'a option \<Rightarrow> ('a, 'e) outcome" where
  "terminating None = Inl Diverges"
| "terminating (Some x) = Inr x"

lemma terminating_Inr [outcome_simps]: "terminating m = Inr x \<longleftrightarrow> m = Some x"
  by (cases m) auto

section \<open>Methods on a mutable receiver\<close>

text \<open>
  A \<^verbatim>\<open>&mut self\<close> mutator yields its outcome and the receiver afterwards; an error may
  leave the receiver changed.
\<close>

type_synonym ('s, 'a, 'e) mutator = "'s \<Rightarrow> ('a, 'e) outcome \<times> 's"

definition m_then :: "('s, 'a, 'e) mutator \<Rightarrow> ('a \<Rightarrow> ('s, 'b, 'e) mutator) \<Rightarrow> ('s, 'b, 'e) mutator" where
  "m_then m k s = (case m s of (Inl f, s') \<Rightarrow> (Inl f, s') | (Inr x, s') \<Rightarrow> k x s')"

lemma m_then_Inr [outcome_simps]:
  "m_then m k s = (Inr y, t) \<longleftrightarrow> (\<exists>x s'. m s = (Inr x, s') \<and> k x s' = (Inr y, t))"
  by (auto simp: m_then_def split: prod.splits sum.splits)

text \<open>Run a mutator over a list, stopping at the first error: a \<^verbatim>\<open>for\<close> loop with \<^verbatim>\<open>?\<close>.\<close>

fun m_for :: "('x \<Rightarrow> ('s, unit, 'e) mutator) \<Rightarrow> 'x list \<Rightarrow> ('s, unit, 'e) mutator" where
  "m_for body [] s = (Inr (), s)"
| "m_for body (x # xs) s = m_then (body x) (\<lambda>_. m_for body xs) s"

text \<open>\<^verbatim>\<open>unwrap\<close> of an option or result.\<close>

fun unwrap :: "'a option \<Rightarrow> ('a, 'e) outcome" where
  "unwrap None = Inl Panics"
| "unwrap (Some x) = Inr x"

text \<open>A mutator that first computes a fallible value, and one that only reads its receiver.\<close>

definition m_let :: "('a, 'e) outcome \<Rightarrow> ('a \<Rightarrow> ('s, 'b, 'e) mutator) \<Rightarrow> ('s, 'b, 'e) mutator" where
  "m_let r k s = (case r of Inl f \<Rightarrow> (Inl f, s) | Inr x \<Rightarrow> k x s)"

lemma m_let_simps [simp]: "m_let (Inl f) k s = (Inl f, s)" "m_let (Inr x) k s = k x s"
  by (simp_all add: m_let_def)

definition m_get :: "('s \<Rightarrow> ('a, 'e) outcome) \<Rightarrow> ('s, 'a, 'e) mutator" where
  "m_get f s = (f s, s)"

text \<open>\<^verbatim>\<open>collect\<close> into a \<^verbatim>\<open>Result<Vec<_>, _>\<close>: the first error stops the iteration.\<close>

fun o_map :: "('a \<Rightarrow> ('b, 'e) outcome) \<Rightarrow> 'a list \<Rightarrow> ('b list, 'e) outcome" where
  "o_map f [] = Inr []"
| "o_map f (x # xs) = and_then (f x) (\<lambda>y. and_then (o_map f xs) (\<lambda>ys. Inr (y # ys)))"

lemma o_map_Inr: "(\<And>x. x \<in> set xs \<Longrightarrow> f x = Inr (g x)) \<Longrightarrow> o_map f xs = Inr (map g xs)"
  by (induction xs) simp_all

section \<open>Vectors\<close>

text \<open>The bytes of a string literal.\<close>

definition str_bytes :: "string \<Rightarrow> bytes" where
  "str_bytes s = map of_char s"

definition vec_get :: "'a list \<Rightarrow> nat \<Rightarrow> 'a option" where
  "vec_get xs i = (if i < length xs then Some (xs ! i) else None)"

lemma vec_get_Some [vec_simps]: "vec_get xs i = Some x \<longleftrightarrow> i < length xs \<and> xs ! i = x"
  by (auto simp: vec_get_def)

lemma vec_get_None [vec_simps]: "vec_get xs i = None \<longleftrightarrow> length xs \<le> i"
  by (auto simp: vec_get_def)

lemma vec_get_update [vec_simps]:
  "vec_get (xs[i := x]) j = (if j = i \<and> i < length xs then Some x else vec_get xs j)"
  by (auto simp: vec_get_def)

text \<open>\<^verbatim>\<open>resize_with\<close>.\<close>

definition vec_resize :: "nat \<Rightarrow> 'a \<Rightarrow> 'a list \<Rightarrow> 'a list" where
  "vec_resize n d xs = take n xs @ replicate (n - length xs) d"

lemma length_vec_resize [simp]: "length (vec_resize n d xs) = n"
  by (simp add: vec_resize_def)

lemma vec_get_resize [vec_simps]:
  "vec_get (vec_resize n d xs) i =
     (if i < n then Some (case vec_get xs i of None \<Rightarrow> d | Some x \<Rightarrow> x) else None)"
  by (auto simp: vec_get_def vec_resize_def nth_append)

end
