(* ===== verification/TreeMath.thy ===== *)
theory TreeMath
  imports Prelude
begin

unbundle bit_operations_syntax

text \<open>
  Index arithmetic of the left-balanced binary tree in array representation
  (\<^verbatim>\<open>binary_tree/array_representation/treemath.rs\<close>): leaves sit at even array
  positions, parents at odd ones, and level and position of a node are read off the
  bits of its array index.  The first half translates the operations on \<^verbatim>\<open>u32\<close>; the
  second relates them to the coordinates (level, position) of a full binary tree.
\<close>

section \<open>The operations\<close>

subsection \<open>Limits and index types\<close>

definition MAX_TREE_SIZE :: u32 where
  "MAX_TREE_SIZE = shl32 1 30 - 1"

definition MIN_TREE_SIZE :: u32 where
  "MIN_TREE_SIZE = 1"

definition MAX_TREE_INDEX :: u32 where
  "MAX_TREE_INDEX = MAX_TREE_SIZE - 1"

definition MAX_LEAF :: u32 where
  "MAX_LEAF = MAX_TREE_INDEX div 2"

definition MAX_PARENT :: u32 where
  "MAX_PARENT = MAX_LEAF - 1"

datatype LeafNodeIndex = LeafNodeIndex (leaf_u32: u32)

datatype ParentNodeIndex = ParentNodeIndex (parent_u32: u32)

datatype TreeNodeIndex = Leaf LeafNodeIndex | Parent ParentNodeIndex

datatype TreeSize = TreeSize (size_u32: u32)

instantiation LeafNodeIndex :: linorder
begin

definition less_eq_LeafNodeIndex :: "LeafNodeIndex \<Rightarrow> LeafNodeIndex \<Rightarrow> bool" where
  "less_eq_LeafNodeIndex a b \<longleftrightarrow> leaf_u32 a \<le> leaf_u32 b"

definition less_LeafNodeIndex :: "LeafNodeIndex \<Rightarrow> LeafNodeIndex \<Rightarrow> bool" where
  "less_LeafNodeIndex a b \<longleftrightarrow> leaf_u32 a < leaf_u32 b"

instance
  by standard
    (auto simp: less_eq_LeafNodeIndex_def less_LeafNodeIndex_def LeafNodeIndex.expand)

end

instantiation ParentNodeIndex :: linorder
begin

definition less_eq_ParentNodeIndex :: "ParentNodeIndex \<Rightarrow> ParentNodeIndex \<Rightarrow> bool" where
  "less_eq_ParentNodeIndex a b \<longleftrightarrow> parent_u32 a \<le> parent_u32 b"

definition less_ParentNodeIndex :: "ParentNodeIndex \<Rightarrow> ParentNodeIndex \<Rightarrow> bool" where
  "less_ParentNodeIndex a b \<longleftrightarrow> parent_u32 a < parent_u32 b"

instance
  by standard
    (auto simp: less_eq_ParentNodeIndex_def less_ParentNodeIndex_def ParentNodeIndex.expand)

end

definition leaf_valid :: "LeafNodeIndex \<Rightarrow> bool" where
  "leaf_valid i \<longleftrightarrow> leaf_u32 i \<le> MAX_LEAF"

definition leaf_usize :: "LeafNodeIndex \<Rightarrow> nat" where
  "leaf_usize i = unat (leaf_u32 i)"

definition leaf_to_tree_index :: "LeafNodeIndex \<Rightarrow> u32" where
  "leaf_to_tree_index i = leaf_u32 i * 2"

definition leaf_from_tree_index :: "u32 \<Rightarrow> LeafNodeIndex" where
  "leaf_from_tree_index n = LeafNodeIndex (n div 2)"

definition parent_valid :: "ParentNodeIndex \<Rightarrow> bool" where
  "parent_valid i \<longleftrightarrow> parent_u32 i \<le> MAX_PARENT"

definition parent_usize :: "ParentNodeIndex \<Rightarrow> nat" where
  "parent_usize i = unat (parent_u32 i)"

definition parent_to_tree_index :: "ParentNodeIndex \<Rightarrow> u32" where
  "parent_to_tree_index i = parent_u32 i * 2 + 1"

definition parent_from_tree_index :: "u32 \<Rightarrow> ParentNodeIndex" where
  "parent_from_tree_index n = ParentNodeIndex ((n - 1) div 2)"

definition tree_index_new :: "u32 \<Rightarrow> TreeNodeIndex" where
  "tree_index_new n =
     (if n mod 2 = 0 then Leaf (leaf_from_tree_index n) else Parent (parent_from_tree_index n))"

fun tree_index_valid :: "TreeNodeIndex \<Rightarrow> bool" where
  "tree_index_valid (Leaf i) = leaf_valid i"
| "tree_index_valid (Parent i) = parent_valid i"

fun tree_index_u32 :: "TreeNodeIndex \<Rightarrow> u32" where
  "tree_index_u32 (Leaf i) = leaf_to_tree_index i"
| "tree_index_u32 (Parent i) = parent_to_tree_index i"

subsection \<open>Tree sizes\<close>

definition log2 :: "u32 \<Rightarrow> nat" where
  "log2 x = (if x = 0 then 0 else 31 - leading_zeros32 x)"

definition tree_size_new :: "u32 \<Rightarrow> TreeSize" where
  "tree_size_new nodes = (let k = log2 nodes in TreeSize (shl32 1 (k + 1) - 1))"

definition tree_size_from_leaf_count :: "u32 \<Rightarrow> TreeSize" where
  "tree_size_from_leaf_count n = tree_size_new (n * 2)"

definition size_leaf_count :: "TreeSize \<Rightarrow> u32" where
  "size_leaf_count s = size_u32 s div 2 + 1"

definition size_parent_count :: "TreeSize \<Rightarrow> u32" where
  "size_parent_count s = size_u32 s div 2"

definition leaf_is_left :: "TreeSize \<Rightarrow> LeafNodeIndex \<Rightarrow> bool" where
  "leaf_is_left s i \<longleftrightarrow> leaf_u32 i < size_leaf_count s div 2"

definition tree_size_inc :: "TreeSize \<Rightarrow> TreeSize" where
  "tree_size_inc s = TreeSize (size_u32 s * 2 + 1)"

text \<open>\<^verbatim>\<open>div_ceil(2)\<close> does not overflow: the quotient, plus one for a remainder.\<close>

definition div_ceil2 :: "u32 \<Rightarrow> u32" where
  "div_ceil2 x = (if x mod 2 = 0 then x div 2 else x div 2 + 1)"

definition tree_size_dec :: "TreeSize \<Rightarrow> TreeSize" where
  "tree_size_dec s = (if size_u32 s \<ge> 2 then TreeSize (div_ceil2 (size_u32 s) - 1) else TreeSize 0)"

subsection \<open>Navigation\<close>

definition level :: "u32 \<Rightarrow> nat" where
  "level x = trailing_ones (unat x)"

definition root :: "TreeSize \<Rightarrow> TreeNodeIndex" where
  "root s = tree_index_new (shl32 1 (log2 (size_u32 s)) - 1)"

definition left :: "ParentNodeIndex \<Rightarrow> TreeNodeIndex" where
  "left i =
     (let x = parent_to_tree_index i; k = level x in tree_index_new (x XOR shl32 1 (k - 1)))"

definition right :: "ParentNodeIndex \<Rightarrow> TreeNodeIndex" where
  "right i =
     (let x = parent_to_tree_index i; k = level x in tree_index_new (x XOR shl32 3 (k - 1)))"

definition parent :: "TreeNodeIndex \<Rightarrow> ParentNodeIndex" where
  "parent n =
     (let x = tree_index_u32 n;
          k = level x;
          b = shr32 x (k + 1) AND 1;
          index = (x OR shl32 1 k) XOR shl32 b (k + 1)
      in parent_from_tree_index index)"

definition sibling :: "TreeNodeIndex \<Rightarrow> TreeNodeIndex" where
  "sibling n =
     (let p = parent n in
      if tree_index_u32 n < parent_to_tree_index p then right p else left p)"

text \<open>
  The loop of \<^verbatim>\<open>direct_path\<close> climbs until it meets the root.  It need not end for a leaf
  outside the tree, so its value is optional.
\<close>

partial_function (option) direct_path_loop ::
  "u32 \<Rightarrow> u32 \<Rightarrow> ParentNodeIndex list \<Rightarrow> ParentNodeIndex list option" where
  "direct_path_loop r x d =
     (if x \<noteq> r then
        (let p = parent (tree_index_new x) in direct_path_loop r (parent_to_tree_index p) (d @ [p]))
      else Some d)"

definition direct_path :: "LeafNodeIndex \<Rightarrow> TreeSize \<Rightarrow> ParentNodeIndex list option" where
  "direct_path i s = direct_path_loop (tree_index_u32 (root s)) (leaf_to_tree_index i) []"

definition copath :: "LeafNodeIndex \<Rightarrow> TreeSize \<Rightarrow> TreeNodeIndex list option" where
  "copath i s =
     (case direct_path i s of
        None \<Rightarrow> None
      | Some d \<Rightarrow> Some (map sibling (Leaf i # map Parent (butlast d))))"

function lca_loop :: "u32 \<Rightarrow> u32 \<Rightarrow> nat \<Rightarrow> u32 \<times> nat" where
  "lca_loop xn yn k =
     (if xn \<noteq> yn then lca_loop (shr32 xn 1) (shr32 yn 1) (k + 1) else (xn, k))"
  by pat_completeness auto
termination
proof (relation "measure (\<lambda>(x, y, k). unat x + unat y)")
  fix x y :: u32 and k :: nat
  assume "x \<noteq> y"
  then have "0 < unat x + unat y"
    by (metis add_gr_0 gr0I unsigned_0 word_unat_eq_iff)
  moreover have "unat (shr32 z 1) = unat z div 2" for z
    by (simp add: shr32_def drop_bit_eq_div unat_div_distrib)
  ultimately show "((shr32 x 1, shr32 y 1, k + 1), x, y, k)
      \<in> measure (\<lambda>(x, y, k). unat x + unat y)"
    by auto
qed simp

declare lca_loop.simps [simp del]

definition lowest_common_ancestor :: "LeafNodeIndex \<Rightarrow> LeafNodeIndex \<Rightarrow> ParentNodeIndex" where
  "lowest_common_ancestor a b =
     (let x = leaf_to_tree_index a; y = leaf_to_tree_index b;
          lx = level x + 1; ly = level y + 1
      in if lx \<le> ly \<and> shr32 x ly = shr32 y ly then parent_from_tree_index y
         else if ly \<le> lx \<and> shr32 x lx = shr32 y lx then parent_from_tree_index x
         else (case lca_loop x y 0 of
                 (xn, k) \<Rightarrow> parent_from_tree_index (shl32 xn k + shl32 1 (k - 1) - 1)))"

fun common_prefix :: "'a list \<Rightarrow> 'a list \<Rightarrow> 'a list" where
  "common_prefix (x # xs) (y # ys) = (if x = y then x # common_prefix xs ys else [])"
| "common_prefix _ _ = []"

definition common_direct_path ::
  "LeafNodeIndex \<Rightarrow> LeafNodeIndex \<Rightarrow> TreeSize \<Rightarrow> ParentNodeIndex list option" where
  "common_direct_path a b s =
     (case (direct_path a s, direct_path b s) of
        (Some x_path, Some y_path) \<Rightarrow> Some (rev (common_prefix (rev x_path) (rev y_path)))
      | _ \<Rightarrow> None)"

definition is_node_in_tree :: "TreeNodeIndex \<Rightarrow> TreeSize \<Rightarrow> bool" where
  "is_node_in_tree n s \<longleftrightarrow> tree_index_valid n \<and> tree_index_u32 n < size_u32 s"

section \<open>Coordinates\<close>

text \<open>
  The node at level \<open>k\<close> and position \<open>j\<close> from the left has array index
  \<open>(2 * j + 1) * 2 ^ k - 1\<close>: \<open>k\<close> trailing ones, a zero, then the bits of \<open>j\<close>.  Every
  index has exactly one such form, and the bit operations of the source move between
  coordinates.
\<close>

definition node_at :: "nat \<Rightarrow> nat \<Rightarrow> nat" where
  "node_at k j = (2 * j + 1) * 2 ^ k - 1"

lemma node_at_0: "node_at 0 j = 2 * j"
  by (simp add: node_at_def)

lemma node_at_Suc: "node_at (Suc k) j = 2 * node_at k j + 1"
proof -
  have "0 < (2 * j + 1) * 2 ^ k" by simp
  moreover have "(2 * j + 1) * 2 ^ Suc k = 2 * ((2 * j + 1) * 2 ^ k)" by (simp only: power_Suc ac_simps)
  ultimately show ?thesis unfolding node_at_def by linarith
qed

lemma Suc_node_at: "Suc (node_at k j) = (2 * j + 1) * 2 ^ k"
  by (simp add: node_at_def)

lemma trailing_ones_node_at: "trailing_ones (node_at k j) = k"
proof (induction k)
  case 0
  then show ?case by (subst trailing_ones.simps) (simp add: node_at_0)
next
  case (Suc k)
  then show ?case by (subst trailing_ones.simps) (simp add: node_at_Suc)
qed

lemma node_at_trailing_ones: "\<exists>j. n = node_at (trailing_ones n) j"
proof (induction n rule: trailing_ones.induct)
  case (1 n)
  show ?case
  proof (cases "odd n")
    case True
    then obtain j where "n div 2 = node_at (trailing_ones (n div 2)) j" using "1" by blast
    then have "n = node_at (Suc (trailing_ones (n div 2))) j"
      using True by (simp add: node_at_Suc odd_two_times_div_two_succ)
    then show ?thesis using True by (subst trailing_ones.simps) auto
  next
    case False
    then have "n = node_at 0 (n div 2)" by (simp add: node_at_0)
    then show ?thesis using False by (subst trailing_ones.simps) auto
  qed
qed

lemma xor_double_succ: "(2 * a + 1) XOR (2 * b) = 2 * (a XOR b) + (1::nat)"
  by (subst xor_rec) simp

lemma or_double_succ: "(2 * a + 1) OR (2 * b) = 2 * (a OR b) + (1::nat)"
  by (subst or_rec) simp

lemma node_at_xor_left: "node_at (Suc k) j XOR 2 ^ k = node_at k (2 * j)"
proof (induction k)
  case 0
  have "(4 * j + 1) XOR 1 = 4 * j" by (subst xor_rec) simp
  then show ?case by (simp add: node_at_0 node_at_Suc algebra_simps)
next
  case (Suc k)
  then show ?case by (metis node_at_Suc power_Suc xor_double_succ)
qed

lemma node_at_xor_right: "node_at (Suc k) j XOR (3 * 2 ^ k) = node_at k (2 * j + 1)"
proof (induction k)
  case 0
  have "(2 * j) XOR 1 = Suc (2 * j)" by (subst xor_rec) simp
  then have "(4 * j + 1) XOR 3 = 4 * j + 2" by (subst xor_rec) simp
  then show ?case by (simp add: node_at_0 node_at_Suc algebra_simps)
next
  case (Suc k)
  then show ?case by (metis mult.left_commute node_at_Suc power_Suc xor_double_succ)
qed

lemma drop_bit_node_at: "drop_bit (Suc k) (node_at k j) = j"
  by (induction k) (simp_all add: node_at_0 node_at_Suc drop_bit_Suc)

lemma node_at_parent:
  "(node_at k j OR 2 ^ k) XOR (j mod 2 * 2 ^ Suc k) = node_at (Suc k) (j div 2)"
proof (induction k)
  case 0
  have "(2 * j) OR 1 = 2 * j + 1" by (subst or_rec) simp
  moreover have "j XOR (j mod 2) = 2 * (j div 2)"
    by (subst xor_rec) (simp add: mod_2_eq_odd)
  ultimately show ?case
    using xor_double_succ [of j "j mod 2"] by (simp add: node_at_0 node_at_Suc mult.commute)
next
  case (Suc k)
  have or: "node_at (Suc k) j OR 2 ^ Suc k = 2 * (node_at k j OR 2 ^ k) + 1"
    using or_double_succ [of "node_at k j" "2 ^ k"] by (simp add: node_at_Suc)
  have b: "j mod 2 * 2 ^ Suc (Suc k) = 2 * (j mod 2 * 2 ^ Suc k)" by simp
  show ?case unfolding or b xor_double_succ Suc.IH by (simp add: node_at_Suc)
qed

lemma node_at_inj: "node_at k j = node_at k' j' \<longleftrightarrow> k = k' \<and> j = j'"
  by (metis drop_bit_node_at trailing_ones_node_at)

definition in_depth :: "nat \<Rightarrow> nat \<Rightarrow> nat \<Rightarrow> bool" where
  "in_depth d k j \<longleftrightarrow> k \<le> d \<and> j < 2 ^ (d - k)"

definition full_size :: "nat \<Rightarrow> TreeSize" where
  "full_size d = TreeSize (of_nat (2 ^ Suc d - 1))"

definition lnode :: "nat \<Rightarrow> LeafNodeIndex" where
  "lnode j = LeafNodeIndex (of_nat j)"

definition pnode :: "nat \<Rightarrow> nat \<Rightarrow> ParentNodeIndex" where
  "pnode k j = ParentNodeIndex (of_nat (node_at k j))"

fun node :: "nat \<Rightarrow> nat \<Rightarrow> TreeNodeIndex" where
  "node 0 j = Leaf (lnode j)"
| "node (Suc k) j = Parent (pnode k j)"

lemma in_depth_Suc:
  assumes "in_depth d k j" and "k < d" shows "in_depth d (Suc k) (j div 2)"
proof -
  have "d - k = Suc (d - Suc k)" using assms(2) by simp
  then have "j < 2 * 2 ^ (d - Suc k)" using assms(1) by (simp add: in_depth_def)
  then show ?thesis using assms(2) by (simp add: in_depth_def)
qed

lemma in_depth_child:
  assumes "in_depth d (Suc k) j" and "c < 2" shows "in_depth d k (2 * j + c)"
proof -
  have "Suc k \<le> d" using assms(1) by (simp add: in_depth_def)
  then have "d - k = Suc (d - Suc k)" by simp
  moreover have "j < 2 ^ (d - Suc k)" using assms(1) by (simp add: in_depth_def)
  ultimately show ?thesis using assms(2) \<open>Suc k \<le> d\<close> by (simp add: in_depth_def)
qed

lemma node_at_bound:
  assumes "in_depth d k j" shows "node_at k j < 2 ^ Suc d - 1"
proof -
  have "2 * j + 1 < 2 * 2 ^ (d - k)" using assms by (auto simp: in_depth_def)
  then have "(2 * j + 1) * 2 ^ k < (2 * 2 ^ (d - k)) * 2 ^ k" by (rule mult_strict_right_mono) simp
  also have "\<dots> = 2 ^ Suc d" using assms by (simp add: in_depth_def flip: power_add)
  finally show ?thesis using Suc_node_at [of k j] by linarith
qed

lemma node_at_u32:
  assumes "in_depth d k j" and "d \<le> 30" shows "node_at k j < 2 ^ 32"
proof -
  have "(2::nat) ^ Suc d \<le> 2 ^ 31" by (rule power_increasing) (use assms in auto)
  then show ?thesis using node_at_bound [OF assms(1)] by simp
qed

lemma unat_node_at: "node_at k j < 2 ^ 32 \<Longrightarrow> unat (of_nat (node_at k j) :: u32) = node_at k j"
  by (rule unat_of_nat_u32)

lemma parent_to_tree_index_pnode: "parent_to_tree_index (pnode k j) = of_nat (node_at (Suc k) j)"
  by (simp add: parent_to_tree_index_def pnode_def node_at_Suc)

lemma leaf_to_tree_index_lnode: "leaf_to_tree_index (lnode j) = of_nat (node_at 0 j)"
  by (simp add: leaf_to_tree_index_def lnode_def node_at_0)

lemma tree_index_u32_node: "tree_index_u32 (node k j) = of_nat (node_at k j)"
  by (cases k) (simp_all add: parent_to_tree_index_pnode leaf_to_tree_index_lnode)

lemma tree_index_new_node:
  assumes "node_at k j < 2 ^ 32" shows "tree_index_new (of_nat (node_at k j)) = node k j"
proof -
  let ?x = "of_nat (node_at k j) :: u32"
  note u = unat_node_at [OF assms]
  show ?thesis
  proof (cases k)
    case 0
    have "?x mod 2 = 0"
      by (rule u32_eqI) (simp only: unat_mod2 u, simp add: 0 node_at_0)
    moreover have "?x div 2 = of_nat j"
      by (rule u32_eq_of_nat) (simp only: unat_div2 u, simp add: 0 node_at_0)
    ultimately show ?thesis using 0
      by (simp add: tree_index_new_def leaf_from_tree_index_def lnode_def)
  next
    case (Suc k')
    have "?x mod 2 = 1"
      by (rule u32_eqI) (simp only: unat_mod2 u, simp add: Suc node_at_Suc)
    moreover have "(?x - 1) div 2 = of_nat (node_at k' j)"
    proof (rule u32_eq_of_nat)
      have "?x \<noteq> 0" using u Suc by (auto simp: node_at_Suc)
      from unat_minus1 [OF this] have "unat (?x - 1) = 2 * node_at k' j"
        by (simp only: u) (simp add: Suc node_at_Suc)
      then show "unat ((?x - 1) div 2) = node_at k' j" by (simp only: unat_div2)
    qed
    ultimately show ?thesis using Suc
      by (auto simp: tree_index_new_def parent_from_tree_index_def pnode_def)
  qed
qed

lemma level_node_at: "node_at k j < 2 ^ 32 \<Longrightarrow> level (of_nat (node_at k j)) = k"
  by (simp add: level_def unat_node_at trailing_ones_node_at)

lemma left_pnode:
  assumes "in_depth d (Suc k) j" "d \<le> 30" shows "left (pnode k j) = node k (2 * j)"
proof -
  note b = node_at_u32 [OF assms]
  have "k < 32" using assms by (simp add: in_depth_def)
  have "of_nat (node_at (Suc k) j) XOR shl32 1 k = of_nat (node_at k (2 * j))"
    by (rule u32_eq_of_nat)
      (simp add: unsigned_xor_eq unat_node_at [OF b] unat_shl32_1 \<open>k < 32\<close> node_at_xor_left)
  moreover have "node_at k (2 * j) < 2 ^ 32"
    using node_at_u32 [OF in_depth_child [OF assms(1), of 0] assms(2)] by simp
  ultimately show ?thesis
    by (simp add: left_def Let_def parent_to_tree_index_pnode level_node_at [OF b] tree_index_new_node)
qed

lemma right_pnode:
  assumes "in_depth d (Suc k) j" "d \<le> 30" shows "right (pnode k j) = node k (2 * j + 1)"
proof -
  note b = node_at_u32 [OF assms]
  have "k < 30" using assms by (simp add: in_depth_def)
  then have "(2::nat) ^ k \<le> 2 ^ 30" by (intro power_increasing) auto
  then have "unat (shl32 3 k) = 3 * 2 ^ k"
    using unat_shl32 [of k 3] \<open>k < 30\<close> by simp
  then have "of_nat (node_at (Suc k) j) XOR shl32 3 k = of_nat (node_at k (2 * j + 1))"
    by (intro u32_eq_of_nat)
      (simp only: unsigned_xor_eq unat_node_at [OF b] node_at_xor_right)
  moreover have "node_at k (2 * j + 1) < 2 ^ 32"
    using node_at_u32 [OF in_depth_child [OF assms(1), of 1] assms(2)] by simp
  ultimately show ?thesis
    by (simp add: right_def Let_def parent_to_tree_index_pnode level_node_at [OF b] tree_index_new_node)
qed

lemma parent_node:
  assumes "in_depth d k j" "k < d" "d \<le> 30" shows "parent (node k j) = pnode k (j div 2)"
proof -
  note b = node_at_u32 [OF assms(1,3)]
  let ?x = "of_nat (node_at k j) :: u32"
  have k: "k < 30" using assms by simp
  have "unat (shr32 ?x (Suc k) AND 1) = j mod 2"
    using k by (simp add: unat_mod2 unat_shr32 unat_node_at [OF b] drop_bit_node_at and_one_eq)
  moreover have "j mod 2 * 2 ^ Suc k < 2 ^ 32"
  proof -
    have "(2::nat) ^ Suc k \<le> 2 ^ 30" by (rule power_increasing) (use k in auto)
    then show ?thesis by (cases "j mod 2 = 0") (auto simp: mod_2_eq_odd)
  qed
  ultimately have "unat (shl32 (shr32 ?x (Suc k) AND 1) (Suc k)) = j mod 2 * 2 ^ Suc k"
    using unat_shl32 [of "Suc k" "shr32 ?x (Suc k) AND 1"] k by simp
  then have "(?x OR shl32 1 k) XOR shl32 (shr32 ?x (Suc k) AND 1) (Suc k)
      = of_nat (node_at (Suc k) (j div 2))"
    using k by (intro u32_eq_of_nat)
      (simp only: unsigned_xor_eq unsigned_or_eq unat_node_at [OF b] unat_shl32_1 node_at_parent)
  moreover have "node_at (Suc k) (j div 2) < 2 ^ 32"
    by (rule node_at_u32 [OF in_depth_Suc]) (use assms in auto)
  then have "tree_index_new (of_nat (node_at (Suc k) (j div 2))) = Parent (pnode k (j div 2))"
    by (simp add: tree_index_new_node)
  ultimately show ?thesis
    by (simp add: parent_def Let_def tree_index_u32_node level_node_at [OF b] tree_index_new_def split: if_splits)
qed

lemma bit_length_eq: "2 ^ d \<le> n \<Longrightarrow> n < 2 ^ Suc d \<Longrightarrow> bit_length n = Suc d"
proof (induction d arbitrary: n)
  case 0
  then have "n = 1" by simp
  then show ?case by (simp add: bit_length.simps)
next
  case (Suc d)
  then have "bit_length (n div 2) = Suc d" by (intro Suc.IH) auto
  then show ?case using Suc.prems by (subst bit_length.simps) auto
qed

lemma log2_eq:
  assumes "2 ^ d \<le> unat x" and "unat x < 2 ^ Suc d" shows "log2 x = d"
proof -
  have "x \<noteq> 0" using assms(1) by auto
  have "(2::nat) ^ d < 2 ^ 32" using assms(1) unsigned_less [where w = x and ?'a = nat] by simp
  then have "d < 32" by (rule power_less_imp_less_exp [rotated]) simp
  then show ?thesis
    using \<open>x \<noteq> 0\<close> bit_length_eq [OF assms] by (simp add: log2_def leading_zeros32_def)
qed

lemma log2_exists: "(n::nat) > 0 \<Longrightarrow> \<exists>d. 2 ^ d \<le> n \<and> n < 2 ^ Suc d"
  using ex_power_ivl1 [of 2 n] by auto

lemma pow2_u32: "d \<le> 31 \<Longrightarrow> (2::nat) ^ d < 2 ^ 32"
  by (rule power_strict_increasing) auto

lemma unat_full_size: "d \<le> 30 \<Longrightarrow> unat (size_u32 (full_size d)) = 2 ^ Suc d - 1"
  unfolding full_size_def TreeSize.sel
  by (rule unat_of_nat_u32) (use pow2_u32 [of "Suc d"] in simp)

lemma tree_size_new_eq:
  assumes "2 ^ d \<le> unat n" and "unat n < 2 ^ Suc d" and "d \<le> 30"
  shows "tree_size_new n = full_size d"
proof -
  have "unat (shl32 1 (Suc d) - 1) = 2 ^ Suc d - 1"
    by (rule unat_shl32_1_minus1) (use assms(3) in simp)
  then have "shl32 1 (Suc d) - 1 = of_nat (2 ^ Suc d - 1)" by (rule u32_eq_of_nat)
  then show ?thesis
    unfolding tree_size_new_def Let_def full_size_def log2_eq [OF assms(1,2)]
    by (simp only: Suc_eq_plus1)
qed

lemma log2_full_size: "d \<le> 30 \<Longrightarrow> log2 (size_u32 (full_size d)) = d"
  by (rule log2_eq) (simp_all add: unat_full_size)

lemma root_full_size: "d \<le> 30 \<Longrightarrow> root (full_size d) = node d 0"
proof -
  assume d: "d \<le> 30"
  then have "unat (shl32 1 d - 1) = node_at d 0" by (simp add: unat_shl32_1_minus1 node_at_def)
  then have "shl32 1 d - 1 = of_nat (node_at d 0)" by (rule u32_eq_of_nat)
  moreover have "node_at d 0 < 2 ^ 32"
    using d by (intro node_at_u32 [where d = d]) (auto simp: in_depth_def)
  ultimately show ?thesis
    using d by (simp add: root_def log2_full_size tree_index_new_node)
qed

lemma unat_leaf_count: "d \<le> 30 \<Longrightarrow> unat (size_leaf_count (full_size d)) = 2 ^ d"
proof -
  assume d: "d \<le> 30"
  then have b: "(2::nat) ^ d < 2 ^ 32" by (simp only: pow2_u32)
  have "unat (size_u32 (full_size d) div 2) = 2 ^ d - 1"
    using d by (simp add: unat_div2 unat_full_size)
  then have "size_u32 (full_size d) div 2 = of_nat (2 ^ d - 1)" by (rule u32_eq_of_nat)
  then have "size_leaf_count (full_size d) = of_nat (2 ^ d - 1 + 1)"
    by (simp add: size_leaf_count_def)
  then have "size_leaf_count (full_size d) = of_nat (2 ^ d)" by simp
  then show ?thesis using b by (simp only: unat_of_nat_u32)
qed

lemma unat_parent_count: "d \<le> 30 \<Longrightarrow> unat (size_parent_count (full_size d)) = 2 ^ d - 1"
  by (simp add: size_parent_count_def unat_div2 unat_full_size)

lemma direct_path_loop_eq:
  assumes "k \<le> d" and "d \<le> 30" and "i < 2 ^ d"
  shows "direct_path_loop (of_nat (node_at d 0)) (of_nat (node_at k (i div 2 ^ k))) acc =
     Some (acc @ map (\<lambda>k. pnode k (i div 2 ^ Suc k)) [k..<d])"
  using assms(1)
proof (induction "d - k" arbitrary: k acc)
  case 0
  then have "k = d" by simp
  then show ?case using assms(3) by (subst direct_path_loop.simps) simp
next
  case (Suc m)
  then have "k < d" by simp
  have k: "in_depth d k (i div 2 ^ k)"
    using assms(3) Suc.prems
    by (simp add: in_depth_def less_mult_imp_div_less flip: power_add)
  have "in_depth d d 0" by (simp add: in_depth_def)
  then have "of_nat (node_at k (i div 2 ^ k)) \<noteq> (of_nat (node_at d 0) :: u32)"
    using unat_node_at [OF node_at_u32 [OF k assms(2)]] unat_node_at [OF node_at_u32 [OF _ assms(2)]]
      \<open>k < d\<close> by (metis less_irrefl node_at_inj)
  moreover have "tree_index_new (of_nat (node_at k (i div 2 ^ k))) = node k (i div 2 ^ k)"
    by (rule tree_index_new_node [OF node_at_u32 [OF k assms(2)]])
  moreover have "parent (node k (i div 2 ^ k)) = pnode k (i div 2 ^ Suc k)"
    using parent_node [OF k \<open>k < d\<close> assms(2)] by (simp only: power_Suc2 div_mult2_eq)
  moreover have "[k..<d] = k # [Suc k..<d]" using \<open>k < d\<close> by (rule upt_conv_Cons)
  ultimately show ?case
    using Suc.hyps \<open>k < d\<close>
    by (subst direct_path_loop.simps) (simp add: parent_to_tree_index_pnode Let_def del: power_Suc)
qed

lemma direct_path_eq:
  assumes "d \<le> 30" and "i < 2 ^ d"
  shows "direct_path (lnode i) (full_size d) = Some (map (\<lambda>k. pnode k (i div 2 ^ Suc k)) [0..<d])"
  using direct_path_loop_eq [of 0 d i "[]"] assms
  by (simp add: direct_path_def root_full_size tree_index_u32_node leaf_to_tree_index_lnode)

section \<open>Siblings, copaths and common ancestors\<close>

definition sib :: "nat \<Rightarrow> nat" where
  "sib j = (if even j then j + 1 else j - 1)"

lemma node_at_less_parent: "node_at k j < node_at (Suc k) (j div 2) \<longleftrightarrow> even j"
proof -
  have "node_at k j < node_at (Suc k) (j div 2) \<longleftrightarrow>
      (2 * j + 1) * 2 ^ k < (2 * (2 * (j div 2) + 1)) * 2 ^ k"
    using Suc_node_at [of k j] Suc_node_at [of "Suc k" "j div 2"]
    by (simp only: power_Suc mult.assoc mult.left_commute) linarith
  also have "\<dots> \<longleftrightarrow> 2 * j + 1 < 2 * (2 * (j div 2) + 1)" by (simp only: mult_less_cancel2) simp
  also have "\<dots> \<longleftrightarrow> even j" by presburger
  finally show ?thesis .
qed

lemma sibling_node:
  assumes "in_depth d k j" and "k < d" and "d \<le> 30"
  shows "sibling (node k j) = node k (sib j)"
proof -
  have up: "in_depth d (Suc k) (j div 2)" using assms(1,2) by (rule in_depth_Suc)
  have "tree_index_u32 (node k j) < parent_to_tree_index (pnode k (j div 2)) \<longleftrightarrow> even j"
    using node_at_u32 [OF assms(1,3)] node_at_u32 [OF up assms(3)]
    by (simp add: tree_index_u32_node parent_to_tree_index_pnode word_less_nat_alt
        unat_node_at node_at_less_parent)
  moreover have "sib j = (if even j then 2 * (j div 2) + 1 else 2 * (j div 2))"
    unfolding sib_def by presburger
  ultimately show ?thesis
    unfolding sibling_def Let_def parent_node [OF assms] left_pnode [OF up assms(3)]
      right_pnode [OF up assms(3)] by simp
qed

lemma in_depth_leaf:
  assumes "k \<le> d" and "i < 2 ^ d" shows "in_depth d k (i div 2 ^ k)"
  using assms by (simp add: in_depth_def less_mult_imp_div_less flip: power_add)

lemma copath_eq:
  assumes "0 < d" and "d \<le> 30" and "i < 2 ^ d"
  shows "copath (lnode i) (full_size d) = Some (map (\<lambda>k. node k (sib (i div 2 ^ k))) [0..<d])"
proof -
  let ?f = "\<lambda>k. node k (i div 2 ^ k)"
  obtain d' where d': "d = Suc d'" using assms(1) by (cases d) auto
  have "Leaf (lnode i) # map Parent (butlast (map (\<lambda>k. pnode k (i div 2 ^ Suc k)) [0..<d])) =
      ?f 0 # map (?f \<circ> Suc) [0..<d']"
    using d' by (simp add: map_butlast [symmetric])
  also have "\<dots> = map ?f [0..<d]" using d' by (simp add: upt_conv_Cons map_Suc_upt [symmetric] del: upt_Suc)
  finally have "copath (lnode i) (full_size d) = Some (map (sibling \<circ> ?f) [0..<d])"
    using assms by (simp add: copath_def direct_path_eq)
  moreover have "sibling (?f k) = node k (sib (i div 2 ^ k))" if "k < d" for k
    using that assms by (intro sibling_node [where d = d] in_depth_leaf) auto
  ultimately show ?thesis by simp
qed

text \<open>The level at which two leaf positions first have a common ancestor.\<close>

definition meet_level :: "nat \<Rightarrow> nat \<Rightarrow> nat \<Rightarrow> bool" where
  "meet_level a b m \<longleftrightarrow> a div 2 ^ m = b div 2 ^ m \<and> (\<forall>m' < m. a div 2 ^ m' \<noteq> b div 2 ^ m')"

lemma div_pow2_mono: "a div 2 ^ m = b div 2 ^ m \<Longrightarrow> m \<le> n \<Longrightarrow> a div 2 ^ n = b div (2::nat) ^ n"
  by (metis div_mult2_eq le_add_diff_inverse power_add)

lemma meet_level_iff: "meet_level a b m \<Longrightarrow> a div 2 ^ k = b div 2 ^ k \<longleftrightarrow> m \<le> k"
  unfolding meet_level_def using div_pow2_mono by (meson not_less)

lemma meet_level_exists:
  assumes "a < 2 ^ d" "b < 2 ^ d" "a \<noteq> b"
  shows "\<exists>m. meet_level a b m \<and> 0 < m \<and> m \<le> d"
proof -
  let ?P = "\<lambda>m. a div 2 ^ m = b div 2 ^ m"
  have d: "?P d" using assms by simp
  have "meet_level a b (LEAST m. ?P m)"
    unfolding meet_level_def using LeastI [of ?P, OF d] not_less_Least [of _ ?P] by blast
  moreover have "(LEAST m. ?P m) \<le> d" using d by (rule Least_le)
  moreover have "(LEAST m. ?P m) \<noteq> 0"
    using LeastI [of ?P, OF d] assms(3) by (metis div_by_1 power_0)
  ultimately show ?thesis by blast
qed

lemma sib_eq_iff: "x = sib y \<longleftrightarrow> x \<noteq> y \<and> x div 2 = y div (2::nat)"
proof (cases "even y")
  case True
  then obtain c where "y = 2 * c" by (rule evenE)
  then show ?thesis by (simp add: sib_def) arith
next
  case False
  then obtain c where "y = 2 * c + 1" by (rule oddE)
  then show ?thesis by (simp add: sib_def) arith
qed

lemma copath_covers_unique:
  assumes "a < 2 ^ d" "b < 2 ^ d" "a \<noteq> b"
  shows "\<exists>!k. k < d \<and> b div 2 ^ k = sib (a div 2 ^ k)"
proof -
  obtain m where m: "meet_level b a m" "0 < m" "m \<le> d" using meet_level_exists assms by metis
  have "b div 2 ^ k = sib (a div 2 ^ k) \<longleftrightarrow> Suc k = m" for k
  proof -
    have "b div 2 ^ k = sib (a div 2 ^ k) \<longleftrightarrow>
        b div 2 ^ k \<noteq> a div 2 ^ k \<and> b div 2 ^ Suc k = a div 2 ^ Suc k"
      by (simp only: sib_eq_iff power_Suc2 div_mult2_eq)
    also have "\<dots> \<longleftrightarrow> \<not> m \<le> k \<and> m \<le> Suc k" by (simp only: meet_level_iff [OF m(1)])
    finally show ?thesis by linarith
  qed
  then show ?thesis using m by (intro ex1I [of _ "m - 1"]) auto
qed

lemma lca_loop_eq:
  "drop_bit m x = drop_bit m y \<Longrightarrow> \<forall>m' < m. drop_bit m' x \<noteq> drop_bit m' y \<Longrightarrow>
     lca_loop x y k = (drop_bit m x, k + m)"
proof (induction m arbitrary: x y k)
  case 0
  then show ?case by (subst lca_loop.simps) simp
next
  case (Suc m)
  have "x \<noteq> y" using Suc.prems(2) by fastforce
  moreover have "lca_loop (shr32 x 1) (shr32 y 1) (Suc k) = (drop_bit m (shr32 x 1), Suc k + m)"
    by (rule Suc.IH) (use Suc.prems in \<open>auto simp: shr32_def drop_bit_drop_bit\<close>)
  ultimately show ?case
    by (subst lca_loop.simps) (simp add: shr32_def drop_bit_drop_bit)
qed

lemma unat_drop_bit_u32: "unat (drop_bit m (x :: u32)) = unat x div 2 ^ m"
  using unsigned_less [where w = x and ?'a = nat]
  by (simp only: unsigned_drop_bit_eq) (simp add: take_bit_nat_eq_self drop_bit_eq_div)

lemma common_prefix_append:
  "common_prefix (zs @ us) (zs @ vs) = zs @ common_prefix us vs"
  by (induction zs) auto

lemma parent_from_tree_index_node:
  "node_at (Suc k) j < 2 ^ 32 \<Longrightarrow> parent_from_tree_index (of_nat (node_at (Suc k) j)) = pnode k j"
  using tree_index_new_node [of "Suc k" j] by (simp add: tree_index_new_def split: if_splits)

lemma pnode_inj:
  assumes "in_depth d (Suc k) i" "in_depth d (Suc k') j" "d \<le> 30"
  shows "pnode k i = pnode k' j \<longleftrightarrow> k = k' \<and> i = j"
proof -
  have "parent_to_tree_index (pnode k i) = parent_to_tree_index (pnode k' j) \<Longrightarrow> Suc k = Suc k' \<and> i = j"
    unfolding parent_to_tree_index_pnode
    using unat_node_at [OF node_at_u32 [OF assms(1,3)]] unat_node_at [OF node_at_u32 [OF assms(2,3)]]
      node_at_inj by metis
  then show ?thesis by auto
qed

lemma meet_level_le:
  assumes "a < 2 ^ d" "b < 2 ^ d" "meet_level a b m" shows "m \<le> d"
  using meet_level_iff [OF assms(3), of d] assms(1,2) by simp

lemma meet_level_double:
  assumes "meet_level a b (Suc m)" shows "meet_level (2 * a) (2 * b) (Suc (Suc m))"
proof -
  have half: "2 * x div 2 ^ Suc n = x div 2 ^ n" for x n :: nat
    by simp
  have "2 * a div 2 ^ k \<noteq> 2 * b div 2 ^ k" if "k < Suc (Suc m)" for k
  proof (cases k)
    case 0
    then show ?thesis using assms unfolding meet_level_def by fastforce
  next
    case (Suc k')
    then have "a div 2 ^ k' \<noteq> b div 2 ^ k'" using assms that by (simp add: meet_level_def)
    then show ?thesis unfolding Suc half .
  qed
  moreover have "2 * a div 2 ^ Suc (Suc m) = 2 * b div 2 ^ Suc (Suc m)"
    unfolding half using assms by (simp only: meet_level_def)
  ultimately show ?thesis unfolding meet_level_def by blast
qed

lemma lca_index:
  assumes "Suc (Suc m) < 32"
  shows "shl32 (of_nat j) (Suc (Suc m)) + shl32 1 (Suc m) - 1 = of_nat (node_at (Suc m) j)"
proof -
  have "shl32 (of_nat j) (Suc (Suc m)) = of_nat (j * 2 ^ Suc (Suc m))"
    using assms by (simp add: shl32_def push_bit_eq_mult)
  moreover have "shl32 1 (Suc m) = of_nat (2 ^ Suc m)"
    using assms by (simp add: shl32_def push_bit_eq_mult)
  moreover have "j * 2 ^ Suc (Suc m) + 2 ^ Suc m = node_at (Suc m) j + 1"
    using Suc_node_at [of "Suc m" j] by (simp add: algebra_simps)
  ultimately have "shl32 (of_nat j) (Suc (Suc m)) + shl32 1 (Suc m) = of_nat (node_at (Suc m) j + 1)"
    by (simp only: flip: of_nat_add)
  then show ?thesis by (simp only: of_nat_add of_nat_1 add_diff_cancel_right')
qed

lemma lowest_common_ancestor_eq:
  assumes "a < 2 ^ d" "b < 2 ^ d" "d \<le> 30" "meet_level a b (Suc m)"
  shows "lowest_common_ancestor (lnode a) (lnode b) = pnode m (a div 2 ^ Suc m)"
proof -
  let ?x = "of_nat (2 * a) :: u32" and ?y = "of_nat (2 * b) :: u32"
  have "m < d" using meet_level_le [OF assms(1,2,4)] by simp
  then have K: "Suc (Suc m) < 32" using assms(3) by simp
  have bd: "2 * a < 2 ^ 32" "2 * b < 2 ^ 32" using assms(1,2) pow2_u32 [of "Suc d"] assms(3) by auto
  have drop: "drop_bit k ?x = drop_bit k ?y \<longleftrightarrow> Suc (Suc m) \<le> k" for k
    unfolding word_unat_eq_iff unat_drop_bit_u32 unat_of_nat_u32 [OF bd(1)] unat_of_nat_u32 [OF bd(2)]
    by (rule meet_level_iff [OF meet_level_double [OF assms(4)]])
  have l: "level ?x = 0" "level ?y = 0"
    using level_node_at [of 0 a] level_node_at [of 0 b] bd unfolding node_at_0 by blast+
  have "shr32 ?x 1 \<noteq> shr32 ?y 1" using drop [of 1] by (simp add: shr32_def)
  moreover have "lca_loop ?x ?y 0 = (drop_bit (Suc (Suc m)) ?x, Suc (Suc m))"
    by (rule lca_loop_eq [of "Suc (Suc m)" ?x ?y 0, unfolded drop add_0]) (simp_all add: not_le)
  moreover have "drop_bit (Suc (Suc m)) ?x = of_nat (a div 2 ^ Suc m)"
    by (rule u32_eq_of_nat) (simp only: unat_drop_bit_u32 unat_of_nat_u32 [OF bd(1)], simp)
  moreover have "parent_from_tree_index (of_nat (node_at (Suc m) (a div 2 ^ Suc m))) = pnode m (a div 2 ^ Suc m)"
    using \<open>m < d\<close> assms(1,3)
    by (intro parent_from_tree_index_node node_at_u32 [where d = d] in_depth_leaf) auto
  ultimately show ?thesis
    unfolding lowest_common_ancestor_def Let_def leaf_to_tree_index_lnode node_at_0 l
    using lca_index [OF K, of "a div 2 ^ Suc m"] by (simp del: power_Suc of_nat_mult)
qed

lemma common_prefix_hd:
  "(xs = [] \<longleftrightarrow> ys = []) \<Longrightarrow> (xs \<noteq> [] \<Longrightarrow> hd xs \<noteq> hd ys) \<Longrightarrow> common_prefix xs ys = []"
  by (cases xs; cases ys) auto

lemma common_direct_path_eq:
  assumes "a < 2 ^ d" "b < 2 ^ d" "d \<le> 30" "meet_level a b (Suc m)"
  shows "common_direct_path (lnode a) (lnode b) (full_size d) =
     Some (map (\<lambda>k. pnode k (a div 2 ^ Suc k)) [m..<d])"
proof -
  let ?p = "\<lambda>i k. pnode k (i div 2 ^ Suc k)"
  have "m < d" using meet_level_le [OF assms(1,2,4)] by simp
  then have split: "[0..<d] = [0..<m] @ [m..<d]" using upt_add_eq_append [of 0 m "d - m"] by simp
  have same: "map (?p b) [m..<d] = map (?p a) [m..<d]"
  proof (rule map_cong [OF refl])
    fix k assume "k \<in> set [m..<d]"
    then have "a div 2 ^ Suc k = b div 2 ^ Suc k" by (subst meet_level_iff [OF assms(4)]) simp
    then show "?p b k = ?p a k" by (simp only:)
  qed
  have "common_prefix (rev (map (?p a) [0..<m])) (rev (map (?p b) [0..<m])) = []"
  proof (rule common_prefix_hd)
    assume "rev (map (?p a) [0..<m]) \<noteq> []"
    then obtain m' where m': "m = Suc m'" by (cases m) auto
    then have "a div 2 ^ Suc m' \<noteq> b div 2 ^ Suc m'" using meet_level_iff [OF assms(4), of m] by simp
    then have "?p a m' \<noteq> ?p b m'"
      using pnode_inj [OF in_depth_leaf in_depth_leaf assms(3)] assms(1,2) m' \<open>m < d\<close> by simp
    then show "hd (rev (map (?p a) [0..<m])) \<noteq> hd (rev (map (?p b) [0..<m]))"
      by (simp add: m')
  qed auto
  then show ?thesis
    using assms(1-3) unfolding common_direct_path_def
    by (simp only: direct_path_eq split map_append rev_append same)
      (simp add: common_prefix_append)
qed

section \<open>Trees within the size limit\<close>

lemma limits [simp]:
  "MAX_TREE_SIZE = 1073741823" "MAX_LEAF = 536870911" "MAX_PARENT = 536870910"
  by (simp_all add: MAX_TREE_SIZE_def MAX_TREE_INDEX_def MAX_LEAF_def MAX_PARENT_def shl32_def push_bit_eq_mult)

lemma in_depth_of_bound:
  assumes "node_at k j < 2 ^ Suc d - 1" shows "in_depth d k j"
proof -
  have b: "(2 * j + 1) * 2 ^ k < 2 ^ Suc d" using assms Suc_node_at [of k j] by linarith
  have "(2::nat) ^ k \<le> (2 * j + 1) * 2 ^ k" by simp
  then have "(2::nat) ^ k < 2 ^ Suc d" using b by linarith
  then have k: "k \<le> d" using power_less_imp_less_exp [of "2::nat" k "Suc d"] by simp
  then have "(2::nat) ^ Suc d = 2 * 2 ^ (d - k) * 2 ^ k" by (simp flip: power_add)
  then have "2 * j + 1 < 2 * 2 ^ (d - k)" using b by (metis mult_less_cancel2)
  then show ?thesis using k by (simp add: in_depth_def)
qed

lemma full_size_of_nodes:
  assumes "0 < n" and "n \<le> MAX_TREE_SIZE"
  obtains d where "d \<le> 29" "tree_size_new n = full_size d" "2 ^ d \<le> unat n" "unat n < 2 ^ Suc d"
proof -
  have "0 < unat n" using assms(1) by (simp add: word_less_nat_alt)
  then obtain d where d: "2 ^ d \<le> unat n" "unat n < 2 ^ Suc d" using log2_exists by blast
  have "unat n < 2 ^ 30" using assms(2) by (simp add: word_le_nat_alt)
  then have "(2::nat) ^ d < 2 ^ 30" using d(1) by linarith
  then have "d < 30" using power_less_imp_less_exp [of "2::nat" d 30] by simp
  then show ?thesis using that [of d] d tree_size_new_eq [OF d] by simp
qed

lemma leaf_lnode: "i = lnode (leaf_usize i)"
  by (cases i) (simp add: lnode_def leaf_usize_def)

lemma leaf_in_full_size:
  "d \<le> 30 \<Longrightarrow> leaf_u32 i < size_leaf_count (full_size d) \<longleftrightarrow> leaf_usize i < 2 ^ d"
  by (simp add: word_less_nat_alt unat_leaf_count leaf_usize_def)

lemma parent_in_full_size:
  assumes "d \<le> 29" and "is_node_in_tree (Parent p) (full_size d)"
  obtains k j where "p = pnode k j" "in_depth d (Suc k) j"
proof -
  let ?n = "2 * parent_usize p + 1"
  have v: "unat (parent_u32 p) \<le> 536870910"
    using assms(2) by (simp add: is_node_in_tree_def parent_valid_def word_le_nat_alt)
  have "parent_u32 p * 2 + 1 = of_nat ?n" by (simp add: parent_usize_def mult.commute)
  then have "unat (parent_to_tree_index p) = ?n"
    using v unat_of_nat_u32 [of ?n] by (simp only: parent_to_tree_index_def) (simp add: parent_usize_def)
  then have "?n < 2 ^ Suc d - 1"
    using assms by (simp add: is_node_in_tree_def word_less_nat_alt unat_full_size del: power_Suc)
  obtain j where j: "?n = node_at (trailing_ones ?n) j" using node_at_trailing_ones by blast
  obtain k where k: "trailing_ones ?n = Suc k"
    by (cases "trailing_ones ?n") (use j in \<open>simp_all add: node_at_0, presburger\<close>)
  have "in_depth d (Suc k) j" using j k \<open>?n < 2 ^ Suc d - 1\<close> by (intro in_depth_of_bound) simp
  moreover have "parent_usize p = node_at k j" using j k by (simp add: node_at_Suc)
  then have "p = pnode k j" by (cases p) (simp add: pnode_def parent_usize_def u32_eq_of_nat)
  ultimately show ?thesis using that by blast
qed

lemma full_size_step: "(2::nat) ^ Suc (Suc d) - 1 = (2 ^ Suc d - 1) * 2 + 1"
  using zero_less_power [of "2::nat" "Suc d"] unfolding power_Suc [of 2 "Suc d"] by linarith

lemma tree_size_inc_full: "tree_size_inc (full_size d) = full_size (Suc d)"
proof -
  show ?thesis
    by (simp only: full_size_step tree_size_inc_def full_size_def TreeSize.sel of_nat_add of_nat_mult of_nat_numeral of_nat_1)
qed

lemma tree_size_dec_full:
  assumes "d \<le> 29" shows "tree_size_dec (full_size (Suc d)) = full_size d"
proof -
  let ?s = "size_u32 (full_size (Suc d))"
  have u: "unat ?s = (2 ^ Suc d - 1) * 2 + 1"
    unfolding full_size_step [symmetric] by (rule unat_full_size) (use assms in simp)
  have odd: "(x * 2 + 1) mod 2 = (1::nat)" "(x * 2 + 1) div 2 = x" for x by presburger+
  then have "?s mod 2 = 1" by (intro u32_eqI) (simp only: unat_mod2 u unsigned_1)
  moreover have "?s div 2 = of_nat (2 ^ Suc d - 1)"
    by (rule u32_eq_of_nat) (simp only: unat_div2 u odd)
  moreover have "2 \<le> ?s"
  proof -
    have "unat (2::u32) = 2" and "(2::nat) \<le> 2 ^ Suc d" by simp_all
    then show ?thesis unfolding word_le_nat_alt u by linarith
  qed
  ultimately show ?thesis
    by (simp only: tree_size_dec_def div_ceil2_def full_size_def [of d]) simp
qed

lemma sib_in_depth:
  assumes "in_depth d k j" and "k < d" shows "in_depth d k (sib j)"
proof -
  have "even ((2::nat) ^ (d - k))" using assms(2) by simp
  moreover have "j < 2 ^ (d - k)" using assms(1) by (simp add: in_depth_def)
  ultimately have "sib j < 2 ^ (d - k)" unfolding sib_def by presburger
  then show ?thesis using assms(2) by (simp add: in_depth_def)
qed

lemma node_inj:
  assumes "in_depth d k i" "in_depth d k j" "d \<le> 30"
  shows "node k i = node k j \<longleftrightarrow> i = j"
proof -
  have "tree_index_u32 (node k i) = tree_index_u32 (node k j) \<Longrightarrow> i = j"
    unfolding tree_index_u32_node
    using unat_node_at [OF node_at_u32 [OF assms(1,3)]] unat_node_at [OF node_at_u32 [OF assms(2,3)]]
      node_at_inj by metis
  then show ?thesis by metis
qed

lemma leaf_usize_inj: "leaf_usize i = leaf_usize j \<longleftrightarrow> i = j"
  by (metis leaf_lnode)

lemma path_intersection:
  assumes "a < 2 ^ d" "b < 2 ^ d" "d \<le> 30" "meet_level a b (Suc m)"
  shows "(\<lambda>k. pnode k (a div 2 ^ Suc k)) ` {m..<d} =
    (\<lambda>k. pnode k (a div 2 ^ Suc k)) ` {0..<d} \<inter> (\<lambda>k. pnode k (b div 2 ^ Suc k)) ` {0..<d}"
proof -
  have "pnode k (a div 2 ^ Suc k) = pnode k' (b div 2 ^ Suc k') \<longleftrightarrow> k = k' \<and> m \<le> k"
    if "k < d" "k' < d" for k k'
  proof -
    have "pnode k (a div 2 ^ Suc k) = pnode k' (b div 2 ^ Suc k')
        \<longleftrightarrow> k = k' \<and> a div 2 ^ Suc k = b div 2 ^ Suc k"
      using pnode_inj [OF in_depth_leaf [OF _ assms(1)] in_depth_leaf [OF _ assms(2)] assms(3), of k k'] that
      by auto
    then show ?thesis unfolding meet_level_iff [OF assms(4)] by simp
  qed
  note eq = this
  show ?thesis (is "?M = ?A \<inter> ?B")
  proof (intro equalityI subsetI IntI)
    fix p assume "p \<in> ?M"
    then obtain k where k: "m \<le> k" "k < d" "p = pnode k (a div 2 ^ Suc k)" by auto
    then show "p \<in> ?A" by simp
    show "p \<in> ?B" using eq [of k k] k by (intro image_eqI [of _ _ k]) auto
  next
    fix p assume "p \<in> ?A \<inter> ?B"
    then obtain k k' where "k < d" "k' < d" "p = pnode k (a div 2 ^ Suc k)" "p = pnode k' (b div 2 ^ Suc k')"
      by auto
    then show "p \<in> ?M" using eq [of k k'] by auto
  qed
qed

section \<open>Correctness of the index arithmetic\<close>

text \<open>
  C1: for a leaf of a tree of legal size, the loop of \<^verbatim>\<open>direct_path\<close> ends, and the path it
  returns starts at the leaf's parent, climbs from each node to its parent, ends at the
  root, and its entry at height \<open>k\<close> is the ancestor of the leaf at level \<open>k + 1\<close>.
\<close>

theorem direct_path_correct:
  assumes "0 < n" and "n \<le> MAX_TREE_SIZE" and "leaf_u32 i < size_leaf_count (tree_size_new n)"
  shows "\<exists>d path. tree_size_new n = full_size d \<and>
     direct_path i (tree_size_new n) = Some path \<and> length path = d \<and>
     (\<forall>k < d. path ! k = pnode k (leaf_usize i div 2 ^ Suc k)) \<and>
     (path \<noteq> [] \<longrightarrow> path ! 0 = parent (Leaf i) \<and> Parent (last path) = root (tree_size_new n)) \<and>
     (\<forall>k. Suc k < d \<longrightarrow> path ! Suc k = parent (Parent (path ! k)))"
proof -
  obtain d where d: "d \<le> 29" "tree_size_new n = full_size d"
    using full_size_of_nodes assms(1,2) by metis
  let ?i = "leaf_usize i"
  let ?path = "map (\<lambda>k. pnode k (?i div 2 ^ Suc k)) [0..<d]"
  have i: "?i < 2 ^ d" using assms(3) d leaf_in_full_size [of d i] by simp
  have up: "parent (node k (?i div 2 ^ k)) = pnode k (?i div 2 ^ Suc k)" if "k < d" for k
    using parent_node [OF in_depth_leaf [OF less_imp_le [OF that] i] that] d(1)
    by (simp only: power_Suc2 div_mult2_eq)
  have "direct_path i (full_size d) = Some ?path"
    using direct_path_eq [of d ?i] i d(1) leaf_lnode [of i] by simp
  moreover have "?path ! 0 = parent (Leaf i)" if "?path \<noteq> []"
    using up [of 0] that leaf_lnode [of i] by (cases d) (simp_all del: upt_Suc)
  moreover have "Parent (last ?path) = root (full_size d)" if "?path \<noteq> []"
    using that d(1) i root_full_size [of d] by (cases d) auto
  moreover have "?path ! Suc k = parent (Parent (?path ! k))" if "Suc k < d" for k
    using up [OF that] that by (simp del: power_Suc)
  ultimately show ?thesis using d(2) by (intro exI [of _ d] exI [of _ ?path]) auto
qed

theorem direct_path_correct_witness:
  "\<exists>d path. tree_size_new 5 = full_size d \<and>
     direct_path (LeafNodeIndex 2) (tree_size_new 5) = Some path \<and> length path = d \<and>
     (\<forall>k < d. path ! k = pnode k (leaf_usize (LeafNodeIndex 2) div 2 ^ Suc k))"
proof -
  have "leaf_u32 (LeafNodeIndex 2) < size_leaf_count (tree_size_new 5)" by code_simp
  from direct_path_correct [OF _ _ this] show ?thesis by auto
qed

text \<open>
  C2: the copath of a leaf covers every other leaf of the tree exactly once: for each other
  leaf there is one and only one copath node that is its ancestor or itself.
\<close>

theorem copath_partitions_leaves:
  assumes "1 < n" and "n \<le> MAX_TREE_SIZE" and "i \<noteq> j"
    and "leaf_u32 i < size_leaf_count (tree_size_new n)"
    and "leaf_u32 j < size_leaf_count (tree_size_new n)"
  shows "\<exists>cp. copath i (tree_size_new n) = Some cp \<and>
     (\<exists>!k. k < length cp \<and> cp ! k = node k (leaf_usize j div 2 ^ k))"
proof -
  have "0 < n" using assms(1) by (simp add: word_less_nat_alt)
  then obtain d where d: "d \<le> 29" "tree_size_new n = full_size d" "unat n < 2 ^ Suc d"
    using full_size_of_nodes assms(2) by metis
  have "0 < d" using assms(1) d(3) by (cases d) (simp_all add: word_less_nat_alt)
  let ?i = "leaf_usize i" and ?j = "leaf_usize j"
  have b: "?i < 2 ^ d" "?j < 2 ^ d" using assms(4,5) d leaf_in_full_size by auto
  let ?cp = "map (\<lambda>k. node k (sib (?i div 2 ^ k))) [0..<d]"
  have "copath i (full_size d) = Some ?cp"
    using copath_eq [OF \<open>0 < d\<close> _ b(1)] d(1) leaf_lnode [of i] by simp
  moreover have "(k < length ?cp \<and> ?cp ! k = node k (?j div 2 ^ k))
      \<longleftrightarrow> (k < d \<and> ?j div 2 ^ k = sib (?i div 2 ^ k))" for k
    using node_inj [OF sib_in_depth [OF in_depth_leaf [OF _ b(1)]] in_depth_leaf [OF _ b(2)], of k] d(1)
    by (cases "k < d") auto
  moreover have "\<exists>!k. k < d \<and> ?j div 2 ^ k = sib (?i div 2 ^ k)"
    using assms(3) by (intro copath_covers_unique b) (simp add: leaf_usize_inj)
  ultimately show ?thesis unfolding d(2) by (intro exI [of _ ?cp] conjI) (assumption, simp only:)
qed

theorem copath_partitions_leaves_witness:
  "\<exists>cp. copath (LeafNodeIndex 1) (tree_size_new 7) = Some cp \<and>
     (\<exists>!k. k < length cp \<and> cp ! k = node k (leaf_usize (LeafNodeIndex 3) div 2 ^ k))"
proof -
  have "leaf_u32 (LeafNodeIndex 1) < size_leaf_count (tree_size_new 7)"
    and "leaf_u32 (LeafNodeIndex 3) < size_leaf_count (tree_size_new 7)" by code_simp+
  then show ?thesis by (intro copath_partitions_leaves) simp_all
qed

text \<open>
  C3: for two distinct leaves, \<^verbatim>\<open>common_direct_path\<close> is exactly the intersection of their
  direct paths, and its first node, the deepest one, is the node that the bit arithmetic of
  \<^verbatim>\<open>lowest_common_ancestor\<close> computes.
\<close>

theorem lca_is_common_path_head:
  assumes "0 < n" and "n \<le> MAX_TREE_SIZE" and "i \<noteq> j"
    and "leaf_u32 i < size_leaf_count (tree_size_new n)"
    and "leaf_u32 j < size_leaf_count (tree_size_new n)"
  shows "\<exists>pi pj pc. direct_path i (tree_size_new n) = Some pi \<and>
     direct_path j (tree_size_new n) = Some pj \<and>
     common_direct_path i j (tree_size_new n) = Some pc \<and>
     set pc = set pi \<inter> set pj \<and> pc \<noteq> [] \<and> hd pc = lowest_common_ancestor i j"
proof -
  obtain d where d: "d \<le> 29" "tree_size_new n = full_size d"
    using full_size_of_nodes assms(1,2) by metis
  then have d30: "d \<le> 30" by simp
  let ?i = "leaf_usize i" and ?j = "leaf_usize j"
  have b: "?i < 2 ^ d" "?j < 2 ^ d" using assms(4,5) d leaf_in_full_size by auto
  obtain m where m: "meet_level ?i ?j (Suc m)" "m < d"
    using meet_level_exists [OF b] assms(3) leaf_usize_inj by (metis Suc_le_eq gr0_implies_Suc)
  let ?p = "\<lambda>i k. pnode k (i div 2 ^ Suc k)"
  have "set (map (?p ?i) [m..<d]) = set (map (?p ?i) [0..<d]) \<inter> set (map (?p ?j) [0..<d])"
    using path_intersection [OF b d30 m(1)] by (simp only: set_map set_upt)
  moreover have "hd (map (?p ?i) [m..<d]) = lowest_common_ancestor i j"
    using lowest_common_ancestor_eq [OF b d30 m(1)] m(2) leaf_lnode [of i] leaf_lnode [of j]
    by (simp add: hd_map)
  moreover have "direct_path i (full_size d) = Some (map (?p ?i) [0..<d])"
    "direct_path j (full_size d) = Some (map (?p ?j) [0..<d])"
    using direct_path_eq [OF d30 b(1)] direct_path_eq [OF d30 b(2)] leaf_lnode [of i] leaf_lnode [of j]
    by simp_all
  moreover have "common_direct_path i j (full_size d) = Some (map (?p ?i) [m..<d])"
    using common_direct_path_eq [OF b d30 m(1)] leaf_lnode [of i] leaf_lnode [of j] by simp
  moreover have "map (?p ?i) [m..<d] \<noteq> []" using m(2) by simp
  ultimately show ?thesis unfolding d(2) by blast
qed

theorem lca_is_common_path_head_witness:
  "\<exists>pi pj pc. direct_path (LeafNodeIndex 1) (tree_size_new 7) = Some pi \<and>
     direct_path (LeafNodeIndex 2) (tree_size_new 7) = Some pj \<and>
     common_direct_path (LeafNodeIndex 1) (LeafNodeIndex 2) (tree_size_new 7) = Some pc \<and>
     set pc = set pi \<inter> set pj \<and> pc \<noteq> [] \<and>
     hd pc = lowest_common_ancestor (LeafNodeIndex 1) (LeafNodeIndex 2)"
proof -
  have "leaf_u32 (LeafNodeIndex 1) < size_leaf_count (tree_size_new 7)"
    and "leaf_u32 (LeafNodeIndex 2) < size_leaf_count (tree_size_new 7)" by code_simp+
  then show ?thesis by (intro lca_is_common_path_head) simp_all
qed

text \<open>
  C4: below the size limit, both children of a parent node of the tree have that node as
  their parent and are each other's sibling.
\<close>

theorem children_of_parent:
  assumes "0 < n" and "n \<le> MAX_TREE_SIZE" and "is_node_in_tree (Parent p) (tree_size_new n)"
  shows "parent (left p) = p \<and> parent (right p) = p \<and>
     sibling (left p) = right p \<and> sibling (right p) = left p"
proof -
  obtain d where d: "d \<le> 29" "tree_size_new n = full_size d"
    using full_size_of_nodes assms(1,2) by metis
  then have d30: "d \<le> 30" by simp
  obtain k j where p: "p = pnode k j" "in_depth d (Suc k) j"
    using parent_in_full_size assms(3) d by metis
  have k: "k < d" using p(2) by (simp add: in_depth_def)
  have c: "in_depth d k (2 * j)" "in_depth d k (2 * j + 1)"
    using in_depth_child [OF p(2), of 0] in_depth_child [OF p(2), of 1] by simp_all
  show ?thesis
    unfolding p(1) left_pnode [OF p(2) d30] right_pnode [OF p(2) d30]
      parent_node [OF c(1) k d30] parent_node [OF c(2) k d30]
      sibling_node [OF c(1) k d30] sibling_node [OF c(2) k d30]
    by (simp add: sib_def)
qed

theorem children_of_parent_witness:
  "parent (left (ParentNodeIndex 1)) = ParentNodeIndex 1 \<and>
   parent (right (ParentNodeIndex 1)) = ParentNodeIndex 1 \<and>
   sibling (left (ParentNodeIndex 1)) = right (ParentNodeIndex 1) \<and>
   sibling (right (ParentNodeIndex 1)) = left (ParentNodeIndex 1)"
proof -
  have "is_node_in_tree (Parent (ParentNodeIndex 1)) (tree_size_new 7)" by code_simp
  then show ?thesis by (rule children_of_parent [rotated 2]) simp_all
qed

text \<open>
  C5: \<^verbatim>\<open>TreeSize::new\<close> rounds a node count up to the smallest full tree that holds it, and
  growing and shrinking a full tree are inverse to each other.
\<close>

theorem tree_size_smallest_full:
  assumes "0 < n" and "n \<le> MAX_TREE_SIZE"
  shows "\<exists>d. tree_size_new n = full_size d \<and> n \<le> size_u32 (full_size d) \<and>
     (\<forall>d' < d. size_u32 (full_size d') < n) \<and>
     tree_size_inc (full_size d) = full_size (Suc d) \<and>
     tree_size_dec (tree_size_inc (full_size d)) = full_size d"
proof -
  obtain d where d: "d \<le> 29" "tree_size_new n = full_size d" "2 ^ d \<le> unat n" "unat n < 2 ^ Suc d"
    using full_size_of_nodes assms by metis
  have "n \<le> size_u32 (full_size d)"
    using d(1,4) by (simp add: word_le_nat_alt unat_full_size)
  moreover have "size_u32 (full_size d') < n" if "d' < d" for d'
  proof -
    have "(2::nat) ^ Suc d' \<le> 2 ^ d" using that by (intro power_increasing) auto
    moreover have "unat (size_u32 (full_size d')) = 2 ^ Suc d' - 1"
      using that d(1) by (intro unat_full_size) simp
    moreover have "(0::nat) < 2 ^ Suc d'" by simp
    ultimately show ?thesis using d(3) unfolding word_less_nat_alt by linarith
  qed
  ultimately show ?thesis
    using d(1,2) tree_size_inc_full [of d] tree_size_dec_full [of d] by auto
qed

theorem tree_size_smallest_full_witness:
  "\<exists>d. tree_size_new 5 = full_size d \<and> 5 \<le> size_u32 (full_size d) \<and>
     (\<forall>d' < d. size_u32 (full_size d') < 5)"
proof -
  have "0 < (5::u32)" and "5 \<le> MAX_TREE_SIZE" by simp_all
  from tree_size_smallest_full [OF this] show ?thesis by blast
qed

end
