(* ===== verification/MapStore.thy ===== *)
theory MapStore
  imports Prelude
begin

text \<open>
  The interface of the finite maps of the standard library: what a lookup returns after an
  insertion, a removal and a \<^verbatim>\<open>retain\<close>, and that every operation keeps the representation
  valid.  The sorted map (\<^verbatim>\<open>BTreeMap\<close>) and the hash map (\<^verbatim>\<open>HashMap\<close>) provide it; the lemmas here
  are the loops their clients run over it.
\<close>

locale map_store =
  fixes get :: "'m \<Rightarrow> 'k \<Rightarrow> 'v option"
    and ins :: "'k \<Rightarrow> 'v \<Rightarrow> 'm \<Rightarrow> 'm"
    and del :: "'k \<Rightarrow> 'm \<Rightarrow> 'm"
    and keep :: "('k \<Rightarrow> 'v \<Rightarrow> bool) \<Rightarrow> 'm \<Rightarrow> 'm"
    and ok :: "'m \<Rightarrow> bool"
  assumes get_ins: "ok m \<Longrightarrow> get (ins k v m) k' = (if k' = k then Some v else get m k')"
    and get_del: "ok m \<Longrightarrow> get (del k m) k' = (if k' = k then None else get m k')"
    and get_keep: "ok m \<Longrightarrow>
      get (keep P m) k = (case get m k of Some v \<Rightarrow> if P k v then Some v else None | None \<Rightarrow> None)"
    and ok_ins: "ok m \<Longrightarrow> ok (ins k v m)"
    and ok_del: "ok m \<Longrightarrow> ok (del k m)"
    and ok_keep: "ok m \<Longrightarrow> ok (keep P m)"
begin

text \<open>Storing one value under every key of a list, as a \<^verbatim>\<open>for\<close> loop does.\<close>

lemma ok_ins_all: "ok m \<Longrightarrow> ok (fold (\<lambda>k. ins k v) ks m)"
  by (induction ks arbitrary: m) (simp_all add: ok_ins)

lemma get_ins_all:
  "ok m \<Longrightarrow> get (fold (\<lambda>k. ins k v) ks m) k' = (if k' \<in> set ks then Some v else get m k')"
proof (induction ks arbitrary: m)
  case Nil
  then show ?case by simp
next
  case (Cons k ks)
  then show ?case by (auto simp: ok_ins get_ins)
qed

text \<open>Removing every key of a list.\<close>

lemma ok_del_all: "ok m \<Longrightarrow> ok (fold del ks m)"
  by (induction ks arbitrary: m) (simp_all add: ok_del)

lemma get_del_all:
  "ok m \<Longrightarrow> get (fold del ks m) k' = (if k' \<in> set ks then None else get m k')"
proof (induction ks arbitrary: m)
  case Nil
  then show ?case by simp
next
  case (Cons k ks)
  then show ?case by (auto simp: ok_del get_del)
qed

end

end
