(* ===== verification/OrderedMap.thy ===== *)
theory OrderedMap
  imports MapStore
begin

text \<open>
  \<^verbatim>\<open>BTreeMap\<close> of the standard library, as the components use it: a finite map whose
  iteration visits the keys in ascending order.  The model is an association list kept
  strictly sorted by key; the interface its clients rely on is the locale
  \<open>map_store\<close> of the theory of map interfaces.
\<close>

type_synonym ('k, 'v) btree_map = "('k \<times> 'v) list"

definition btm_new :: "('k, 'v) btree_map" where
  "btm_new = []"

fun btm_get :: "('k, 'v) btree_map \<Rightarrow> 'k \<Rightarrow> 'v option" where
  "btm_get [] k = None"
| "btm_get ((k', v) # m) k = (if k = k' then Some v else btm_get m k)"

fun btm_insert :: "'k::linorder \<Rightarrow> 'v \<Rightarrow> ('k, 'v) btree_map \<Rightarrow> ('k, 'v) btree_map" where
  "btm_insert k v [] = [(k, v)]"
| "btm_insert k v ((k', v') # m) =
     (if k < k' then (k, v) # (k', v') # m
      else if k = k' then (k, v) # m
      else (k', v') # btm_insert k v m)"

fun btm_remove :: "'k \<Rightarrow> ('k, 'v) btree_map \<Rightarrow> ('k, 'v) btree_map" where
  "btm_remove k [] = []"
| "btm_remove k ((k', v) # m) = (if k = k' then m else (k', v) # btm_remove k m)"

definition btm_retain :: "('k \<Rightarrow> 'v \<Rightarrow> bool) \<Rightarrow> ('k, 'v) btree_map \<Rightarrow> ('k, 'v) btree_map" where
  "btm_retain P m = filter (\<lambda>(k, v). P k v) m"

definition btm_keys :: "('k, 'v) btree_map \<Rightarrow> 'k list" where
  "btm_keys m = map fst m"

definition btm_ok :: "('k::linorder, 'v) btree_map \<Rightarrow> bool" where
  "btm_ok m \<longleftrightarrow> sorted_wrt (<) (btm_keys m)"

section \<open>The sorted association list provides it\<close>

lemma btm_get_in: "btm_get m k = Some v \<Longrightarrow> (k, v) \<in> set m"
  by (induction m k rule: btm_get.induct) (auto split: if_splits)

lemma btm_get_None: "btm_get m k = None \<longleftrightarrow> k \<notin> set (btm_keys m)"
  by (induction m k rule: btm_get.induct) (auto simp: btm_keys_def)

lemma btm_get_dom: "k \<in> set (btm_keys m) \<longleftrightarrow> (\<exists>v. btm_get m k = Some v)"
  using btm_get_None [of m k] by (cases "btm_get m k") auto

lemma btm_ok_Nil [simp]: "btm_ok []"
  by (simp add: btm_ok_def btm_keys_def)

lemma btm_ok_new [simp]: "btm_ok btm_new"
  by (simp add: btm_new_def)

lemma btm_ok_Cons [simp]: "btm_ok ((k, v) # m) \<longleftrightarrow> btm_ok m \<and> (\<forall>k' \<in> set (btm_keys m). k < k')"
  by (auto simp: btm_ok_def btm_keys_def)

lemma btm_keys_Cons [simp]: "btm_keys ((k, v) # m) = k # btm_keys m"
  by (simp add: btm_keys_def)

lemma btm_keys_Nil [simp]: "btm_keys [] = []"
  by (simp add: btm_keys_def)

lemma btm_get_new [simp]: "btm_get btm_new k = None"
  by (simp add: btm_new_def)

lemma btm_in_keys: "(k, v) \<in> set m \<Longrightarrow> k \<in> set (btm_keys m)"
  by (force simp: btm_keys_def)

lemma btm_in_get: "btm_ok m \<Longrightarrow> (k, v) \<in> set m \<longleftrightarrow> btm_get m k = Some v"
  by (induction m k rule: btm_get.induct) (auto dest: btm_in_keys btm_get_in)

lemma keys_btm_insert: "set (btm_keys (btm_insert k v m)) = insert k (set (btm_keys m))"
  by (induction k v m rule: btm_insert.induct) (auto simp: btm_keys_def)

lemma keys_btm_remove: "set (btm_keys (btm_remove k m)) \<subseteq> set (btm_keys m)"
  by (induction k m rule: btm_remove.induct) (auto simp: btm_keys_def)

lemma keys_btm_retain: "set (btm_keys (btm_retain P m)) \<subseteq> set (btm_keys m)"
  by (auto simp: btm_retain_def btm_keys_def)

lemma btm_get_insert:
  "btm_ok m \<Longrightarrow> btm_get (btm_insert k v m) k' = (if k' = k then Some v else btm_get m k')"
  by (induction k v m rule: btm_insert.induct) auto

lemma btm_get_absent: "\<forall>k' \<in> set (btm_keys m). k < k' \<Longrightarrow> btm_get m (k::'k::linorder) = None"
  using btm_get_None by fastforce

lemma btm_get_remove:
  "btm_ok m \<Longrightarrow> btm_get (btm_remove k m) k' = (if k' = k then None else btm_get m k')"
  by (induction k m rule: btm_remove.induct) (auto simp: btm_get_absent)

lemma btm_retain_Nil [simp]: "btm_retain P [] = []"
  by (simp add: btm_retain_def)

lemma btm_retain_Cons [simp]:
  "btm_retain P ((k, v) # m) = (if P k v then (k, v) # btm_retain P m else btm_retain P m)"
  by (simp add: btm_retain_def)

lemma btm_ok_retain: "btm_ok m \<Longrightarrow> btm_ok (btm_retain P m)"
  by (induction m) (auto, metis keys_btm_retain subsetD)

lemma btm_get_retain:
  "btm_ok m \<Longrightarrow> btm_get (btm_retain P m) k =
     (case btm_get m k of Some v \<Rightarrow> if P k v then Some v else None | None \<Rightarrow> None)"
proof (induction m k rule: btm_get.induct)
  case (2 k' v m k)
  have "btm_get (btm_retain P m) k' = None"
    using 2 keys_btm_retain [of P m] by (intro btm_get_absent) auto
  then show ?case using 2 by auto
qed simp

lemma btm_ok_insert: "btm_ok m \<Longrightarrow> btm_ok (btm_insert k v m)"
  by (induction k v m rule: btm_insert.induct) (auto simp: keys_btm_insert)

lemma btm_ok_remove: "btm_ok m \<Longrightarrow> btm_ok (btm_remove k m)"
  by (induction k m rule: btm_remove.induct) (auto dest: keys_btm_remove [THEN subsetD])

interpretation btm: map_store btm_get btm_insert btm_remove btm_retain btm_ok
  by unfold_locales
    (simp_all add: btm_get_insert btm_get_remove btm_get_retain btm_ok_insert btm_ok_remove
      btm_ok_retain)

text \<open>Two sorted association lists with the same lookups are the same list.\<close>

lemma btm_keys_sorted: "btm_ok m \<Longrightarrow> sorted_list_of_set (set (btm_keys m)) = btm_keys m"
  by (simp add: btm_ok_def strict_sorted_iff sorted_list_of_set.idem_if_sorted_distinct)

lemma btm_list_eq:
  "btm_ok m \<Longrightarrow> m = map (\<lambda>k. (k, the (btm_get m k))) (btm_keys m)"
proof (induction m)
  case (Cons x m)
  obtain k v where x: "x = (k, v)" by fastforce
  have "map (\<lambda>k'. (k', the (btm_get (x # m) k'))) (btm_keys m)
      = map (\<lambda>k. (k, the (btm_get m k))) (btm_keys m)"
    using Cons.prems x by (intro map_cong) auto
  also have "\<dots> = m" using Cons x by simp
  finally show ?case using x by simp
qed simp

end
