(* ===== verification/SortedIter.thy ===== *)
theory SortedIter
  imports OrderedMap
begin

text \<open>
  The merging iterator of \<^verbatim>\<open>binary_tree/array_representation/sorted_iter.rs\<close>: it draws from
  two sorted iterators, prefers the first where both have the key, and stops after \<open>size\<close>
  items.  The model keeps the iterator's own state and its \<^verbatim>\<open>next\<close>; draining it is shown
  to be a bounded sorted merge.
\<close>

record ('i, 'e) SortedIter =
  it_a :: "'i list"
  it_b :: "'i list"
  it_cmp :: "'i \<Rightarrow> 'e"
  it_size :: nat
  it_counter :: nat

definition sorted_iter :: "'i list \<Rightarrow> 'i list \<Rightarrow> ('i \<Rightarrow> 'e) \<Rightarrow> nat \<Rightarrow> ('i, 'e) SortedIter" where
  "sorted_iter a b cmp n =
     \<lparr>it_a = a, it_b = b, it_cmp = cmp, it_size = n, it_counter = 0\<rparr>"

definition sorted_iter_next ::
  "('i, 'e::linorder) SortedIter \<Rightarrow> 'i option \<times> ('i, 'e) SortedIter" where
  "sorted_iter_next it =
     (if it_counter it = it_size it then (None, it)
      else
        (let it = it\<lparr>it_counter := it_counter it + 1\<rparr> in
         case (it_a it, it_b it) of
           (a # as, b # bs) \<Rightarrow>
             (if it_cmp it a < it_cmp it b then (Some a, it\<lparr>it_a := as\<rparr>)
              else if it_cmp it a = it_cmp it b then (Some a, it\<lparr>it_a := as, it_b := bs\<rparr>)
              else (Some b, it\<lparr>it_b := bs\<rparr>))
         | (a # as, []) \<Rightarrow> (Some a, it\<lparr>it_a := as\<rparr>)
         | ([], b # bs) \<Rightarrow> (Some b, it\<lparr>it_b := bs\<rparr>)
         | ([], []) \<Rightarrow> (None, it)))"

text \<open>Draining the iterator (\<^verbatim>\<open>collect\<close>): every item drawn shortens an input.\<close>

definition it_remaining :: "('i, 'e) SortedIter \<Rightarrow> nat" where
  "it_remaining it = length (it_a it) + length (it_b it)"

lemma sorted_iter_next_decreases:
  "sorted_iter_next it = (Some x, it') \<Longrightarrow> it_remaining it' < it_remaining it"
  by (auto simp: sorted_iter_next_def it_remaining_def Let_def split: if_splits list.splits)

function sorted_iter_collect :: "('i, 'e::linorder) SortedIter \<Rightarrow> 'i list" where
  "sorted_iter_collect it =
     (case sorted_iter_next it of
        (None, _) \<Rightarrow> []
      | (Some x, it') \<Rightarrow> x # sorted_iter_collect it')"
  by pat_completeness auto
termination
  by (relation "measure it_remaining") (auto, metis sorted_iter_next_decreases)

declare sorted_iter_collect.simps [simp del]

section \<open>The merge it computes\<close>

fun merge_by :: "('i \<Rightarrow> 'e::linorder) \<Rightarrow> 'i list \<Rightarrow> 'i list \<Rightarrow> 'i list" where
  "merge_by f [] bs = bs"
| "merge_by f as [] = as"
| "merge_by f (a # as) (b # bs) =
     (if f a < f b then a # merge_by f as (b # bs)
      else if f a = f b then a # merge_by f as bs
      else b # merge_by f (a # as) bs)"

lemma merge_by_Nil2 [simp]: "merge_by f as [] = as"
  by (cases as) auto

lemma next_is_merge_head:
  assumes "it_counter it < it_size it"
  shows "case sorted_iter_next it of
     (None, _) \<Rightarrow> merge_by (it_cmp it) (it_a it) (it_b it) = []
   | (Some x, it') \<Rightarrow> it_cmp it' = it_cmp it \<and> it_size it' = it_size it \<and>
       it_counter it' = Suc (it_counter it) \<and>
       merge_by (it_cmp it) (it_a it) (it_b it) = x # merge_by (it_cmp it) (it_a it') (it_b it')"
  using assms by (auto simp: sorted_iter_next_def Let_def split: list.splits)

lemma collect_eq_merge:
  "it_counter it \<le> it_size it \<Longrightarrow>
     sorted_iter_collect it =
       take (it_size it - it_counter it) (merge_by (it_cmp it) (it_a it) (it_b it))"
proof (induction "it_remaining it" arbitrary: it rule: less_induct)
  case less
  show ?case
  proof (cases "it_counter it = it_size it")
    case True
    then show ?thesis by (subst sorted_iter_collect.simps) (simp add: sorted_iter_next_def)
  next
    case False
    then have lt: "it_counter it < it_size it" using less.prems by simp
    obtain r it' where r: "sorted_iter_next it = (r, it')" by fastforce
    show ?thesis
    proof (cases r)
      case None
      then show ?thesis using next_is_merge_head [OF lt] r
        by (subst sorted_iter_collect.simps) simp
    next
      case (Some x)
      then have h: "it_cmp it' = it_cmp it" "it_size it' = it_size it" "it_counter it' = Suc (it_counter it)"
        "merge_by (it_cmp it) (it_a it) (it_b it) = x # merge_by (it_cmp it) (it_a it') (it_b it')"
        using next_is_merge_head [OF lt] r by auto
      have "it_remaining it' < it_remaining it" using sorted_iter_next_decreases [of it x it'] r Some by simp
      from less.hyps [OF this] h lt show ?thesis
        using r Some by (subst sorted_iter_collect.simps) (simp add: take_Cons')
    qed
  qed
qed

text \<open>
  On key/value sequences the merge is the union of two ordered maps in which the first
  wins.
\<close>

lemma keys_merge_by:
  fixes as bs :: "('k::linorder, 'v) btree_map"
  shows "set (btm_keys (merge_by fst as bs)) = set (btm_keys as) \<union> set (btm_keys bs)"
  by (induction "fst :: 'k \<times> 'v \<Rightarrow> 'k" as bs rule: merge_by.induct)
    (auto simp: btm_keys_def)

lemma btm_ok_merge_by:
  fixes as bs :: "('k::linorder, 'v) btree_map"
  shows "btm_ok as \<Longrightarrow> btm_ok bs \<Longrightarrow> btm_ok (merge_by fst as bs)"
  by (induction "fst :: 'k \<times> 'v \<Rightarrow> 'k" as bs rule: merge_by.induct)
    (fastforce simp: keys_merge_by intro: less_trans)+

lemma btm_get_merge_by:
  fixes as bs :: "('k::linorder, 'v) btree_map"
  shows "btm_ok as \<Longrightarrow> btm_ok bs \<Longrightarrow>
   btm_get (merge_by fst as bs) k = (case btm_get as k of Some v \<Rightarrow> Some v | None \<Rightarrow> btm_get bs k)"
proof (induction "fst :: 'k \<times> 'v \<Rightarrow> 'k" as bs rule: merge_by.induct)
  case (3 a as b bs)
  obtain k1 v1 k2 v2 where ab: "a = (k1, v1)" "b = (k2, v2)" by fastforce
  have "btm_get as k2 = None" if "\<not> k1 < k2"
    using that "3.prems" ab by (intro btm_get_absent) fastforce
  with 3 ab show ?case by (auto split: option.splits)
qed (auto split: option.splits)

lemma take_filter_upt:
  assumes "\<And>i. i < l \<Longrightarrow> P i"
  shows "take n (filter P [0..<max n l]) = filter P [0..<n]"
proof (cases "l \<le> n")
  case True
  then show ?thesis using length_filter_le [of P "[0..<n]"] by (simp add: max_def)
next
  case False
  then have "filter P [0..<l] = [0..<l]" "filter P [0..<n] = [0..<n]" using assms by auto
  then show ?thesis using False by (simp add: max_def)
qed

text \<open>
  Overlaying a vector with a map of changes, cut off after \<open>n\<close> entries: \<open>idx\<close> turns a
  position into a key.
\<close>

lemma collect_overlay:
  fixes m :: "('k::linorder, 'v) btree_map"
  assumes ok: "btm_ok m" and mono: "\<And>i j. i < j \<Longrightarrow> j < N \<Longrightarrow> idx i < idx j"
    and le: "length vs \<le> N" "n \<le> N" and keys: "set (btm_keys m) \<subseteq> idx ` {..<n}"
  shows "sorted_iter_collect (sorted_iter m (map (\<lambda>(i, v). (idx i, v)) (enumerate 0 vs)) fst n) =
    map (\<lambda>i. (idx i, case btm_get m (idx i) of Some v \<Rightarrow> v | None \<Rightarrow> vs ! i))
      (filter (\<lambda>i. i < length vs \<or> idx i \<in> set (btm_keys m)) [0..<n])"
proof -
  let ?b = "map (\<lambda>(i, v). (idx i, v)) (enumerate 0 vs)"
  let ?P = "\<lambda>i. i < length vs \<or> idx i \<in> set (btm_keys m)"
  let ?is = "filter ?P [0..<max n (length vs)]"
  let ?M = "merge_by fst m ?b"
  have b: "btm_keys ?b = map idx [0..<length vs]"
    by (auto simp: btm_keys_def enumerate_eq_zip intro!: nth_equalityI)
  have sorted: "sorted_wrt (<) (map idx (filter Q [0..<k]))" if "k \<le> N" for Q k
    unfolding sorted_wrt_map
    by (rule sorted_wrt_mono_rel [of _ "(<)"]) (use mono that in \<open>auto intro: sorted_wrt_filter\<close>)
  have bok: "btm_ok ?b"
    using sorted [of "length vs" "\<lambda>_. True"] le by (simp add: btm_ok_def b)
  have Mok: "btm_ok ?M" using ok bok by (rule btm_ok_merge_by)
  have "set (btm_keys ?M) = set (map idx ?is)"
    using keys unfolding keys_merge_by b by auto
  then have Mk: "btm_keys ?M = map idx ?is"
    using Mok sorted [of "max n (length vs)"] le unfolding btm_ok_def
    by (intro strict_sorted_equal) auto
  have inj: "idx i = idx j \<longleftrightarrow> i = j" if "i < N" "j < N" for i j
    using that mono by (metis less_irrefl nat_neq_iff)
  have bget: "btm_get ?b (idx i) = (if i < length vs then Some (vs ! i) else None)" if "i < n" for i
  proof (cases "i < length vs")
    case True
    then have "(idx i, vs ! i) \<in> set ?b" by (force simp: enumerate_eq_zip set_zip)
    then show ?thesis using True btm_in_get [OF bok] by auto
  next
    case False
    then have "idx i \<notin> set (btm_keys ?b)" using inj that le by (auto simp: b)
    then show ?thesis using False by (simp add: btm_get_None)
  qed
  have "sorted_iter_collect (sorted_iter m ?b fst n) = take n ?M"
    by (simp add: collect_eq_merge sorted_iter_def)
  also have "\<dots> = map (\<lambda>k. (k, the (btm_get ?M k))) (take n (map idx ?is))"
    by (subst btm_list_eq [OF Mok]) (simp only: Mk take_map)
  also have "\<dots> = map (\<lambda>i. (idx i, the (btm_get ?M (idx i)))) (filter ?P [0..<n])"
    by (simp add: take_map take_filter_upt)
  also have "\<dots> = map (\<lambda>i. (idx i, case btm_get m (idx i) of Some v \<Rightarrow> v | None \<Rightarrow> vs ! i)) (filter ?P [0..<n])"
    by (rule map_cong) (auto simp: btm_get_merge_by [OF ok bok] bget btm_get_dom split: option.split)
  finally show ?thesis .
qed
end
