(* ===== verification/BinaryTree.thy ===== *)
theory BinaryTree
  imports TreeMath OrderedMap SortedIter
begin

text \<open>
  The array-based binary tree and its diff
  (\<^verbatim>\<open>binary_tree/array_representation/tree.rs\<close> and \<^verbatim>\<open>diff.rs\<close>).  A tree is immutable but
  for merging a staged diff; a diff overlays the tree with changed leaves and parents and
  carries its own size.  The values \<open>dl\<close> and \<open>dp\<close> are \<^verbatim>\<open>L::default()\<close> and
  \<^verbatim>\<open>P::default()\<close>.  The abstract specification is a plain full tree, a depth with one
  leaf function and one parent function, and every operation of the diff is shown to act
  on it as expected.
\<close>

section \<open>The tree\<close>

datatype ABinaryTreeError = OutOfRange | InvalidNumberOfNodes | WrongNodeType

datatype ('l, 'p) TreeNode = LeafNode 'l | ParentNode 'p

record ('l, 'p) ABinaryTree =
  leaf_nodes :: "'l list"
  parent_nodes :: "'p list"
  default_leaf :: 'l
  default_parent :: 'p

fun split_nodes ::
  "nat \<Rightarrow> ('l, 'p) TreeNode list \<Rightarrow> 'l list \<Rightarrow> 'p list \<Rightarrow> ('l list \<times> 'p list, ABinaryTreeError) outcome"
where
  "split_nodes i [] ls ps = Inr (ls, ps)"
| "split_nodes i (LeafNode l # ns) ls ps =
     (if i mod 2 = 0 then split_nodes (i + 1) ns (ls @ [l]) ps else throw WrongNodeType)"
| "split_nodes i (ParentNode p # ns) ls ps =
     (if i mod 2 = 1 then split_nodes (i + 1) ns ls (ps @ [p]) else throw WrongNodeType)"

definition tree_new ::
  "'l \<Rightarrow> 'p \<Rightarrow> ('l, 'p) TreeNode list \<Rightarrow> (('l, 'p) ABinaryTree, ABinaryTreeError) outcome" where
  "tree_new dl dp nodes =
     (if length nodes > unat MAX_TREE_SIZE then throw OutOfRange
      else if length nodes mod 2 \<noteq> 1 then throw InvalidNumberOfNodes
      else and_then (split_nodes 0 nodes [] []) (\<lambda>(ls, ps).
        Inr \<lparr>leaf_nodes = ls, parent_nodes = ps, default_leaf = dl, default_parent = dp\<rparr>))"

definition tree_from_components ::
  "'l \<Rightarrow> 'p \<Rightarrow> 'l list \<Rightarrow> 'p list \<Rightarrow> (('l, 'p) ABinaryTree, ABinaryTreeError) outcome" where
  "tree_from_components dl dp ls ps =
     (if length ls + length ps > unat MAX_TREE_SIZE then throw OutOfRange
      else if length ls \<noteq> length ps + 1 then throw InvalidNumberOfNodes
      else Inr \<lparr>leaf_nodes = ls, parent_nodes = ps, default_leaf = dl, default_parent = dp\<rparr>)"

definition leaf_by_index :: "('l, 'p) ABinaryTree \<Rightarrow> LeafNodeIndex \<Rightarrow> 'l" where
  "leaf_by_index t i =
     (case vec_get (leaf_nodes t) (leaf_usize i) of None \<Rightarrow> default_leaf t | Some l \<Rightarrow> l)"

definition parent_by_index :: "('l, 'p) ABinaryTree \<Rightarrow> ParentNodeIndex \<Rightarrow> 'p" where
  "parent_by_index t i =
     (case vec_get (parent_nodes t) (parent_usize i) of None \<Rightarrow> default_parent t | Some p \<Rightarrow> p)"

definition tree_size :: "('l, 'p) ABinaryTree \<Rightarrow> TreeSize" where
  "tree_size t = tree_size_new (of_nat (length (leaf_nodes t) + length (parent_nodes t)))"

definition tree_leaf_count :: "('l, 'p) ABinaryTree \<Rightarrow> u32" where
  "tree_leaf_count t = of_nat (length (leaf_nodes t))"

definition tree_parent_count :: "('l, 'p) ABinaryTree \<Rightarrow> u32" where
  "tree_parent_count t = of_nat (length (parent_nodes t))"

definition tree_leaves :: "('l, 'p) ABinaryTree \<Rightarrow> (LeafNodeIndex \<times> 'l) list" where
  "tree_leaves t = map (\<lambda>(i, l). (LeafNodeIndex (of_nat i), l)) (enumerate 0 (leaf_nodes t))"

definition tree_parents :: "('l, 'p) ABinaryTree \<Rightarrow> (ParentNodeIndex \<times> 'p) list" where
  "tree_parents t = map (\<lambda>(i, p). (ParentNodeIndex (of_nat i), p)) (enumerate 0 (parent_nodes t))"

definition tree_subtree_path ::
  "('l, 'p) ABinaryTree \<Rightarrow> LeafNodeIndex \<Rightarrow> LeafNodeIndex \<Rightarrow> ParentNodeIndex list option" where
  "tree_subtree_path t i j = common_direct_path i j (tree_size t)"

section \<open>The diff\<close>

datatype ABinaryTreeDiffError = TreeTooLarge | TreeTooSmall

record ('l, 'p) AbDiff =
  original_tree :: "('l, 'p) ABinaryTree"
  leaf_diff :: "(LeafNodeIndex, 'l) btree_map"
  parent_diff :: "(ParentNodeIndex, 'p) btree_map"
  diff_size :: TreeSize
  diff_default_leaf :: 'l
  diff_default_parent :: 'p

record ('l, 'p) StagedAbDiff =
  staged_leaf_diff :: "(LeafNodeIndex, 'l) btree_map"
  staged_parent_diff :: "(ParentNodeIndex, 'p) btree_map"
  staged_size :: TreeSize

definition staged_from :: "('l, 'p) AbDiff \<Rightarrow> ('l, 'p) StagedAbDiff" where
  "staged_from d = \<lparr>staged_leaf_diff = leaf_diff d, staged_parent_diff = parent_diff d,
     staged_size = diff_size d\<rparr>"

definition empty_diff :: "'l \<Rightarrow> 'p \<Rightarrow> ('l, 'p) ABinaryTree \<Rightarrow> ('l, 'p) AbDiff" where
  "empty_diff dl dp t = \<lparr>original_tree = t, leaf_diff = btm_new, parent_diff = btm_new,
     diff_size = tree_size t, diff_default_leaf = dl, diff_default_parent = dp\<rparr>"

definition diff_leaf_count :: "('l, 'p) AbDiff \<Rightarrow> u32" where
  "diff_leaf_count d = size_leaf_count (diff_size d)"

definition diff_parent_count :: "('l, 'p) AbDiff \<Rightarrow> u32" where
  "diff_parent_count d = size_parent_count (diff_size d)"

definition grow_tree ::
  "'l \<Rightarrow> 'p \<Rightarrow> (('l, 'p) AbDiff, unit, ABinaryTreeDiffError) mutator" where
  "grow_tree dl dp d =
     (if size_u32 (diff_size d) > MAX_TREE_SIZE div 2 then (throw TreeTooLarge, d)
      else
        (let old_size = diff_size d;
             d = d\<lparr>diff_size := tree_size_inc old_size\<rparr>;
             leaf_end = min (diff_leaf_count d) (tree_leaf_count (original_tree d));
             leaf_range = map (\<lambda>i. LeafNodeIndex (of_nat i)) [unat (size_leaf_count old_size)..<unat leaf_end];
             d = d\<lparr>leaf_diff := fold (\<lambda>i. btm_insert i dl) leaf_range (leaf_diff d)\<rparr>;
             parent_end = min (diff_parent_count d) (tree_parent_count (original_tree d));
             parent_range = map (\<lambda>i. ParentNodeIndex (of_nat i)) [unat (size_parent_count old_size)..<unat parent_end];
             d = d\<lparr>parent_diff := fold (\<lambda>i. btm_insert i dp) parent_range (parent_diff d)\<rparr>
         in (Inr (), d)))"

definition shrink_tree :: "(('l, 'p) AbDiff, unit, ABinaryTreeDiffError) mutator" where
  "shrink_tree d =
     (if size_u32 (diff_size d) \<le> MIN_TREE_SIZE then (throw TreeTooSmall, d)
      else
        (let d = d\<lparr>diff_size := tree_size_dec (diff_size d)\<rparr>;
             d = d\<lparr>leaf_diff := btm_retain (\<lambda>i _. leaf_u32 i < diff_leaf_count d) (leaf_diff d)\<rparr>;
             d = d\<lparr>parent_diff := btm_retain (\<lambda>i _. parent_u32 i < diff_parent_count d) (parent_diff d)\<rparr>
         in (Inr (), d)))"

definition replace_leaf :: "LeafNodeIndex \<Rightarrow> 'l \<Rightarrow> ('l, 'p) AbDiff \<Rightarrow> ('l, 'p) AbDiff" where
  "replace_leaf i l d = d\<lparr>leaf_diff := btm_insert i l (leaf_diff d)\<rparr>"

definition replace_parent :: "ParentNodeIndex \<Rightarrow> 'p \<Rightarrow> ('l, 'p) AbDiff \<Rightarrow> ('l, 'p) AbDiff" where
  "replace_parent i p d = d\<lparr>parent_diff := btm_insert i p (parent_diff d)\<rparr>"

definition raw_parents ::
  "('l, 'p) ABinaryTree \<Rightarrow> (ParentNodeIndex, 'p) btree_map \<Rightarrow> nat \<Rightarrow> (ParentNodeIndex \<times> 'p) list" where
  "raw_parents t m n = sorted_iter_collect (sorted_iter m (tree_parents t) fst n)"

definition raw_leaves ::
  "('l, 'p) ABinaryTree \<Rightarrow> (LeafNodeIndex, 'l) btree_map \<Rightarrow> nat \<Rightarrow> (LeafNodeIndex \<times> 'l) list" where
  "raw_leaves t m n = sorted_iter_collect (sorted_iter m (tree_leaves t) fst n)"

definition diff_leaves :: "('l, 'p) AbDiff \<Rightarrow> (LeafNodeIndex \<times> 'l) list" where
  "diff_leaves d = raw_leaves (original_tree d) (leaf_diff d) (unat (diff_leaf_count d))"

definition diff_parents :: "('l, 'p) AbDiff \<Rightarrow> (ParentNodeIndex \<times> 'p) list" where
  "diff_parents d = raw_parents (original_tree d) (parent_diff d) (unat (diff_parent_count d))"

definition staged_leaves ::
  "('l, 'p) StagedAbDiff \<Rightarrow> ('l, 'p) ABinaryTree \<Rightarrow> (LeafNodeIndex \<times> 'l) list" where
  "staged_leaves s t = raw_leaves t (staged_leaf_diff s) (unat (size_leaf_count (staged_size s)))"

definition staged_parents ::
  "('l, 'p) StagedAbDiff \<Rightarrow> ('l, 'p) ABinaryTree \<Rightarrow> (ParentNodeIndex \<times> 'p) list" where
  "staged_parents s t = raw_parents t (staged_parent_diff s) (unat (size_parent_count (staged_size s)))"

definition diff_direct_path :: "('l, 'p) AbDiff \<Rightarrow> LeafNodeIndex \<Rightarrow> ParentNodeIndex list option" where
  "diff_direct_path d i = direct_path i (diff_size d)"

definition set_direct_path_to_node ::
  "LeafNodeIndex \<Rightarrow> 'p \<Rightarrow> ('l, 'p) AbDiff \<Rightarrow> ('l, 'p) AbDiff option" where
  "set_direct_path_to_node i p d =
     map_option (\<lambda>path. fold (\<lambda>j. replace_parent j p) path d) (diff_direct_path d i)"

definition diff_copath :: "('l, 'p) AbDiff \<Rightarrow> LeafNodeIndex \<Rightarrow> TreeNodeIndex list option" where
  "diff_copath d i = copath i (diff_size d)"

definition subtree_root_copath_node :: "LeafNodeIndex \<Rightarrow> LeafNodeIndex \<Rightarrow> TreeNodeIndex" where
  "subtree_root_copath_node i j =
     (let r = lowest_common_ancestor i j in if j < i then left r else right r)"

definition diff_leaf :: "('l, 'p) AbDiff \<Rightarrow> LeafNodeIndex \<Rightarrow> 'l" where
  "diff_leaf d i =
     (case btm_get (leaf_diff d) i of
        Some l \<Rightarrow> l
      | None \<Rightarrow>
          if leaf_u32 i \<ge> diff_leaf_count d then diff_default_leaf d
          else leaf_by_index (original_tree d) i)"

definition diff_parent :: "('l, 'p) AbDiff \<Rightarrow> ParentNodeIndex \<Rightarrow> 'p" where
  "diff_parent d i =
     (case btm_get (parent_diff d) i of
        Some p \<Rightarrow> p
      | None \<Rightarrow> parent_by_index (original_tree d) i)"

text \<open>
  \<^verbatim>\<open>parent_mut\<close> copies the node into the diff and hands out a reference to it; the write
  the caller makes through the reference is the function \<open>f\<close>.
\<close>

definition parent_mut :: "ParentNodeIndex \<Rightarrow> ('p \<Rightarrow> 'p) \<Rightarrow> ('l, 'p) AbDiff \<Rightarrow> ('l, 'p) AbDiff" where
  "parent_mut i f d =
     (case btm_get (parent_diff d) i of
        Some p \<Rightarrow> d\<lparr>parent_diff := btm_insert i (f p) (parent_diff d)\<rparr>
      | None \<Rightarrow>
          (let p = parent_by_index (original_tree d) i;
               d = replace_parent i p d
           in d\<lparr>parent_diff := btm_insert i (f p) (parent_diff d)\<rparr>))"

section \<open>Merging\<close>

text \<open>Writing a map into a vector; an index outside the vector is dropped.\<close>

definition write_leaves :: "(LeafNodeIndex, 'l) btree_map \<Rightarrow> 'l list \<Rightarrow> 'l list" where
  "write_leaves m ls = fold (\<lambda>(i, l) ls. if leaf_usize i < length ls then ls[leaf_usize i := l] else ls) m ls"

definition write_parents :: "(ParentNodeIndex, 'p) btree_map \<Rightarrow> 'p list \<Rightarrow> 'p list" where
  "write_parents m ps =
     fold (\<lambda>(i, p) ps. if parent_usize i < length ps then ps[parent_usize i := p] else ps) m ps"

definition merge_diff ::
  "'l \<Rightarrow> 'p \<Rightarrow> ('l, 'p) StagedAbDiff \<Rightarrow> ('l, 'p) ABinaryTree \<Rightarrow> ('l, 'p) ABinaryTree" where
  "merge_diff dl dp s t =
     (let ls = vec_resize (unat (size_leaf_count (staged_size s))) dl (leaf_nodes t);
          ps = vec_resize (unat (size_parent_count (staged_size s))) dp (parent_nodes t)
      in t\<lparr>leaf_nodes := write_leaves (staged_leaf_diff s) ls,
           parent_nodes := write_parents (staged_parent_diff s) ps\<rparr>)"


section \<open>Invariants and the abstract tree\<close>

definition tree_ok :: "'l \<Rightarrow> 'p \<Rightarrow> ('l, 'p) ABinaryTree \<Rightarrow> bool" where
  "tree_ok dl dp t \<longleftrightarrow>
     length (leaf_nodes t) = length (parent_nodes t) + 1 \<and>
     length (leaf_nodes t) + length (parent_nodes t) \<le> unat MAX_TREE_SIZE \<and>
     default_leaf t = dl \<and> default_parent t = dp"

definition size_depth :: "TreeSize \<Rightarrow> nat" where
  "size_depth s = log2 (size_u32 s)"

definition diff_ok :: "'l \<Rightarrow> 'p \<Rightarrow> ('l, 'p) AbDiff \<Rightarrow> bool" where
  "diff_ok dl dp d \<longleftrightarrow>
     tree_ok dl dp (original_tree d) \<and> size_depth (diff_size d) \<le> 29 \<and>
     diff_size d = full_size (size_depth (diff_size d)) \<and>
     btm_ok (leaf_diff d) \<and> btm_ok (parent_diff d) \<and>
     (\<forall>i \<in> set (btm_keys (leaf_diff d)). leaf_usize i < 2 ^ size_depth (diff_size d)) \<and>
     (\<forall>i \<in> set (btm_keys (parent_diff d)). parent_usize i < 2 ^ size_depth (diff_size d) - 1) \<and>
     diff_default_leaf d = dl \<and> diff_default_parent d = dp"

text \<open>
  The specification: a full binary tree of some depth, with a total content for the leaves
  (numbered from the left) and the parents; a position outside the tree holds the default.
\<close>

record ('l, 'p) full_tree =
  depth_of :: nat
  leaf_at :: "nat \<Rightarrow> 'l"
  parent_at :: "nat \<Rightarrow> 'p"

definition tree_view :: "'l \<Rightarrow> 'p \<Rightarrow> ('l, 'p) ABinaryTree \<Rightarrow> ('l, 'p) full_tree" where
  "tree_view dl dp t = \<lparr>depth_of = size_depth (tree_size t),
     leaf_at = (\<lambda>i. if i < length (leaf_nodes t) then leaf_nodes t ! i else dl),
     parent_at = (\<lambda>i. if i < length (parent_nodes t) then parent_nodes t ! i else dp)\<rparr>"

definition diff_view :: "'l \<Rightarrow> 'p \<Rightarrow> ('l, 'p) AbDiff \<Rightarrow> ('l, 'p) full_tree" where
  "diff_view dl dp d = \<lparr>depth_of = size_depth (diff_size d),
     leaf_at = (\<lambda>i. if i < 2 ^ size_depth (diff_size d) then diff_leaf d (LeafNodeIndex (of_nat i)) else dl),
     parent_at = (\<lambda>i. if i < 2 ^ size_depth (diff_size d) - 1
        then diff_parent d (ParentNodeIndex (of_nat i)) else dp)\<rparr>"

definition spec_grow :: "('l, 'p) full_tree \<Rightarrow> ('l, 'p) full_tree" where
  "spec_grow t = t\<lparr>depth_of := depth_of t + 1\<rparr>"

definition spec_shrink :: "'l \<Rightarrow> 'p \<Rightarrow> ('l, 'p) full_tree \<Rightarrow> ('l, 'p) full_tree" where
  "spec_shrink dl dp t =
     \<lparr>depth_of = depth_of t - 1,
      leaf_at = (\<lambda>i. if i < 2 ^ (depth_of t - 1) then leaf_at t i else dl),
      parent_at = (\<lambda>i. if i < 2 ^ (depth_of t - 1) - 1 then parent_at t i else dp)\<rparr>"

definition spec_set_leaf :: "nat \<Rightarrow> 'l \<Rightarrow> ('l, 'p) full_tree \<Rightarrow> ('l, 'p) full_tree" where
  "spec_set_leaf i l t = t\<lparr>leaf_at := (leaf_at t)(i := l)\<rparr>"

definition spec_set_parent :: "nat \<Rightarrow> 'p \<Rightarrow> ('l, 'p) full_tree \<Rightarrow> ('l, 'p) full_tree" where
  "spec_set_parent i p t = t\<lparr>parent_at := (parent_at t)(i := p)\<rparr>"

lemma size_depth_full [simp]: "d \<le> 30 \<Longrightarrow> size_depth (full_size d) = d"
  by (simp add: size_depth_def log2_full_size)

lemma pow2_small: "d \<le> 30 \<Longrightarrow> (2::nat) ^ d \<le> 2 ^ 30"
  by (rule power_increasing) auto

lemma leaf_usize_of_nat: "d \<le> 30 \<Longrightarrow> i < 2 ^ d \<Longrightarrow> leaf_usize (LeafNodeIndex (of_nat i)) = i"
  using pow2_small [of d] by (simp add: leaf_usize_def unat_of_nat_u32)

lemma parent_usize_of_nat: "d \<le> 30 \<Longrightarrow> i < 2 ^ d \<Longrightarrow> parent_usize (ParentNodeIndex (of_nat i)) = i"
  using pow2_small [of d] by (simp add: parent_usize_def unat_of_nat_u32)

lemma leaf_index_eq: "LeafNodeIndex (of_nat (leaf_usize i)) = i"
  by (cases i) (simp add: leaf_usize_def)

lemma parent_index_eq: "ParentNodeIndex (of_nat (parent_usize i)) = i"
  by (cases i) (simp add: parent_usize_def)

lemma tree_size_full:
  assumes "tree_ok dl dp t"
  obtains d where "d \<le> 29" "tree_size t = full_size d" "length (leaf_nodes t) \<le> 2 ^ d"
    "length (parent_nodes t) \<le> 2 ^ d - 1"
proof -
  let ?n = "length (leaf_nodes t) + length (parent_nodes t)"
  have b: "?n \<le> 1073741823" "0 < ?n" using assms by (simp_all add: tree_ok_def)
  have u: "unat (of_nat ?n :: u32) = ?n" using b by (intro unat_of_nat_u32) simp
  then have "0 < (of_nat ?n :: u32)" "(of_nat ?n :: u32) \<le> MAX_TREE_SIZE"
    using b unfolding word_less_nat_alt word_le_nat_alt by simp_all
  then obtain d where d: "d \<le> 29" "tree_size_new (of_nat ?n) = full_size d"
      "2 ^ d \<le> unat (of_nat ?n :: u32)" "unat (of_nat ?n :: u32) < 2 ^ Suc d"
    by (rule full_size_of_nodes)
  have "2 * length (parent_nodes t) + 1 < 2 * 2 ^ d"
    using d(4) u assms by (simp add: tree_ok_def)
  then have "length (leaf_nodes t) \<le> 2 ^ d" "length (parent_nodes t) \<le> 2 ^ d - 1"
    using assms by (auto simp: tree_ok_def)
  then show ?thesis using d that by (simp add: tree_size_def)
qed

lemma diff_okE:
  assumes "diff_ok dl dp d"
  obtains k where "k \<le> 29" "diff_size d = full_size k" "size_depth (diff_size d) = k"
    "unat (diff_leaf_count d) = 2 ^ k" "unat (diff_parent_count d) = 2 ^ k - 1"
proof -
  let ?k = "size_depth (diff_size d)"
  have k: "?k \<le> 29" "diff_size d = full_size ?k" using assms unfolding diff_ok_def by blast+
  then have "unat (diff_leaf_count d) = 2 ^ ?k" "unat (diff_parent_count d) = 2 ^ ?k - 1"
    unfolding diff_leaf_count_def diff_parent_count_def
    using unat_leaf_count [of ?k] unat_parent_count [of ?k] by simp_all
  with k show ?thesis using that by blast
qed

lemma leaf_below_iff:
  "leaf_u32 i < c \<longleftrightarrow> leaf_usize i < unat c" "parent_u32 p < c \<longleftrightarrow> parent_usize p < unat c"
  by (simp_all add: leaf_usize_def parent_usize_def word_less_nat_alt)

text \<open>A node read from the diff, on the value of its index.\<close>

lemma leaf_by_index_eq:
  "leaf_by_index t i = (if leaf_usize i < length (leaf_nodes t) then leaf_nodes t ! leaf_usize i else default_leaf t)"
  by (simp add: leaf_by_index_def vec_get_def)

lemma parent_by_index_eq:
  "parent_by_index t i = (if parent_usize i < length (parent_nodes t)
     then parent_nodes t ! parent_usize i else default_parent t)"
  by (simp add: parent_by_index_def vec_get_def)

lemma diff_leaf_below:
  "leaf_usize i < unat (diff_leaf_count d) \<Longrightarrow>
     diff_leaf d i = (case btm_get (leaf_diff d) i of Some l \<Rightarrow> l | None \<Rightarrow> leaf_by_index (original_tree d) i)"
  by (auto simp: diff_leaf_def leaf_usize_def word_less_nat_alt word_le_nat_alt split: option.split)

lemma diff_view_leaf:
  assumes "diff_ok dl dp d"
  shows "leaf_at (diff_view dl dp d) i =
    (if i < 2 ^ size_depth (diff_size d)
     then (case btm_get (leaf_diff d) (LeafNodeIndex (of_nat i)) of
             Some l \<Rightarrow> l | None \<Rightarrow> leaf_at (tree_view dl dp (original_tree d)) i)
     else dl)"
proof -
  obtain k where k: "k \<le> 29" "size_depth (diff_size d) = k" "unat (diff_leaf_count d) = 2 ^ k"
    using assms by (rule diff_okE)
  have "leaf_usize (LeafNodeIndex (of_nat i)) = i" if "i < 2 ^ k"
    using that k(1) by (intro leaf_usize_of_nat [of k]) auto
  then show ?thesis
    using assms k by (auto simp: diff_view_def diff_leaf_below leaf_by_index_eq tree_view_def diff_ok_def
        tree_ok_def split: option.split)
qed

lemma diff_view_parent:
  assumes "diff_ok dl dp d"
  shows "parent_at (diff_view dl dp d) i =
    (if i < 2 ^ size_depth (diff_size d) - 1
     then (case btm_get (parent_diff d) (ParentNodeIndex (of_nat i)) of
             Some l \<Rightarrow> l | None \<Rightarrow> parent_at (tree_view dl dp (original_tree d)) i)
     else dp)"
proof -
  obtain k where k: "k \<le> 29" "size_depth (diff_size d) = k"
    using assms by (rule diff_okE)
  have "parent_usize (ParentNodeIndex (of_nat i)) = i" if "i < 2 ^ k - 1"
    using that k(1) by (intro parent_usize_of_nat [of k]) auto
  then show ?thesis
    using assms k by (auto simp: diff_view_def diff_parent_def parent_by_index_eq tree_view_def
        diff_ok_def tree_ok_def split: option.split)
qed

lemma diff_view_depth [simp]: "depth_of (diff_view dl dp d) = size_depth (diff_size d)"
  by (simp add: diff_view_def)

lemma full_tree_eqI:
  "depth_of s = depth_of t \<Longrightarrow> (\<And>i. leaf_at s i = leaf_at t i) \<Longrightarrow>
     (\<And>i. parent_at s i = parent_at t i) \<Longrightarrow> (s :: ('l, 'p) full_tree) = t"
  by (cases s; cases t) auto

lemmas spec_simps = spec_grow_def spec_shrink_def spec_set_leaf_def spec_set_parent_def

lemma leaf_index_iff: "d \<le> 30 \<Longrightarrow> j < 2 ^ d \<Longrightarrow> LeafNodeIndex (of_nat j) = i \<longleftrightarrow> j = leaf_usize i"
  using leaf_usize_of_nat leaf_index_eq by metis

lemma parent_index_iff: "d \<le> 30 \<Longrightarrow> j < 2 ^ d \<Longrightarrow> ParentNodeIndex (of_nat j) = i \<longleftrightarrow> j = parent_usize i"
  using parent_usize_of_nat parent_index_eq by metis

subsection \<open>Replacing a node\<close>

lemma replace_leaf_ok:
  assumes "diff_ok dl dp d" and "leaf_usize i < 2 ^ size_depth (diff_size d)"
  shows "diff_ok dl dp (replace_leaf i l d)"
  using assms by (auto simp: diff_ok_def replace_leaf_def keys_btm_insert btm_ok_insert)

lemma replace_parent_ok:
  assumes "diff_ok dl dp d" and "parent_usize i < 2 ^ size_depth (diff_size d) - 1"
  shows "diff_ok dl dp (replace_parent i p d)"
  using assms by (auto simp: diff_ok_def replace_parent_def keys_btm_insert btm_ok_insert)

lemma replace_leaf_view:
  assumes "diff_ok dl dp d" and "leaf_usize i < 2 ^ size_depth (diff_size d)"
  shows "diff_view dl dp (replace_leaf i l d) = spec_set_leaf (leaf_usize i) l (diff_view dl dp d)"
proof -
  note ok = replace_leaf_ok [OF assms, of l]
  have bok: "btm_ok (leaf_diff d)" and k: "size_depth (diff_size d) \<le> 30" using assms(1) by (auto simp: diff_ok_def)
  show ?thesis
  proof (rule full_tree_eqI)
    fix j show "leaf_at (diff_view dl dp (replace_leaf i l d)) j =
        leaf_at (spec_set_leaf (leaf_usize i) l (diff_view dl dp d)) j"
      using assms(2) leaf_index_iff [OF k, of j i] bok
      by (simp add: diff_view_leaf [OF ok] diff_view_leaf [OF assms(1)] spec_simps)
        (auto simp: replace_leaf_def btm_get_insert leaf_index_eq split: option.split)
  qed (simp_all add: diff_view_parent [OF ok] diff_view_parent [OF assms(1)] spec_simps,
       simp_all add: replace_leaf_def split: option.split)
qed

lemma replace_parent_view:
  assumes "diff_ok dl dp d" and "parent_usize i < 2 ^ size_depth (diff_size d) - 1"
  shows "diff_view dl dp (replace_parent i p d) = spec_set_parent (parent_usize i) p (diff_view dl dp d)"
proof -
  note ok = replace_parent_ok [OF assms, of p]
  have bok: "btm_ok (parent_diff d)" and k: "size_depth (diff_size d) \<le> 30" using assms(1) by (auto simp: diff_ok_def)
  show ?thesis
  proof (rule full_tree_eqI)
    fix j show "parent_at (diff_view dl dp (replace_parent i p d)) j =
        parent_at (spec_set_parent (parent_usize i) p (diff_view dl dp d)) j"
      using assms(2) parent_index_iff [OF k, of j i] bok
      by (simp add: diff_view_parent [OF ok] diff_view_parent [OF assms(1)] spec_simps)
        (auto simp: replace_parent_def btm_get_insert parent_index_eq split: option.split)
  qed (simp_all add: diff_view_leaf [OF ok] diff_view_leaf [OF assms(1)] spec_simps,
       simp_all add: replace_parent_def split: option.split)
qed

lemma parent_mut_eq:
  assumes "diff_ok dl dp d"
  shows "parent_mut i f d = replace_parent i (f (diff_parent d i)) d"
proof -
  have same: "btm_ok m \<Longrightarrow> btm_insert k w (btm_insert k v m) = btm_insert k w m" for k :: ParentNodeIndex and v w :: 'b and m
    by (induction k v m rule: btm_insert.induct) auto
  show ?thesis
    using assms same by (auto simp: parent_mut_def diff_parent_def replace_parent_def diff_ok_def split: option.split)
qed

subsection \<open>Growing and shrinking\<close>

lemma keys_ins_all:
  "set (btm_keys (fold (\<lambda>k. btm_insert k v) ks m)) = set ks \<union> set (btm_keys m)"
  by (induction ks arbitrary: m) (auto simp: keys_btm_insert)

lemma keys_retain: "i \<in> set (btm_keys (btm_retain (\<lambda>i _. P i) m)) \<longleftrightarrow> i \<in> set (btm_keys m) \<and> P i"
  by (auto simp: btm_retain_def btm_keys_def)

lemma of_nat_u32_mem:
  assumes "b \<le> 2 ^ 30" and "i < 2 ^ 30"
  shows "of_nat i \<in> (of_nat :: nat \<Rightarrow> u32) ` {a..<b} \<longleftrightarrow> a \<le> i \<and> i < b"
proof -
  have "i = j" if "j < b" "(of_nat i :: u32) = of_nat j" for j
  proof -
    have "i < 2 ^ 32" "j < 2 ^ 32" using assms that(1) by simp_all
    then show ?thesis using that(2) unat_of_nat_u32 by metis
  qed
  then show ?thesis by (auto simp: image_iff)
qed

lemma index_range_mem:
  assumes "b \<le> 2 ^ 30" and "i < 2 ^ 30"
  shows "LeafNodeIndex (of_nat i) \<in> set (map (\<lambda>i. LeafNodeIndex (of_nat i)) [a..<b]) \<longleftrightarrow> a \<le> i \<and> i < b"
    "ParentNodeIndex (of_nat i) \<in> set (map (\<lambda>i. ParentNodeIndex (of_nat i)) [a..<b]) \<longleftrightarrow> a \<le> i \<and> i < b"
  using of_nat_u32_mem [OF assms, of a] by (auto simp: image_iff)

lemma shrink_tree_ok:
  assumes "diff_ok dl dp d" and "0 < size_depth (diff_size d)"
  shows "fst (shrink_tree d) = Inr ()" "diff_ok dl dp (snd (shrink_tree d))"
    "diff_view dl dp (snd (shrink_tree d)) = spec_shrink dl dp (diff_view dl dp d)"
proof -
  obtain k where k: "Suc k \<le> 29" "size_depth (diff_size d) = Suc k" "diff_size d = full_size (Suc k)"
    using assms by (metis diff_okE gr0_implies_Suc)
  have "(2::nat) ^ 2 \<le> 2 ^ Suc (Suc k)" by (rule power_increasing) auto
  then have big: "\<not> size_u32 (diff_size d) \<le> MIN_TREE_SIZE"
    using k(1,3) unat_full_size [of "Suc k"]
    by (simp add: word_le_nat_alt MIN_TREE_SIZE_def del: power_Suc)
  let ?d = "snd (shrink_tree d)"
  let ?s = "full_size k"
  have c: "unat (size_leaf_count ?s) = 2 ^ k" "unat (size_parent_count ?s) = 2 ^ k - 1"
    using k by (simp_all add: unat_leaf_count unat_parent_count)
  have d': "?d = d\<lparr>diff_size := ?s,
      leaf_diff := btm_retain (\<lambda>i _. leaf_usize i < 2 ^ k) (leaf_diff d),
      parent_diff := btm_retain (\<lambda>i _. parent_usize i < 2 ^ k - 1) (parent_diff d)\<rparr>"
    using big k by (simp add: shrink_tree_def Let_def diff_leaf_count_def diff_parent_count_def
        tree_size_dec_full leaf_below_iff c)
  show "fst (shrink_tree d) = Inr ()" using big by (simp add: shrink_tree_def Let_def)
  show ok: "diff_ok dl dp ?d"
    using assms(1) k keys_retain unfolding d' by (simp add: diff_ok_def btm_ok_retain keys_retain)
  show "diff_view dl dp ?d = spec_shrink dl dp (diff_view dl dp d)"
  proof (rule full_tree_eqI)
    show "depth_of (diff_view dl dp ?d) = depth_of (spec_shrink dl dp (diff_view dl dp d))"
      using k by (simp add: d' spec_simps)
  next
    fix i
    have "leaf_usize (LeafNodeIndex (of_nat i)) = i" if "i < 2 ^ k"
      using that k by (intro leaf_usize_of_nat [of k]) auto
    moreover have "btm_ok (leaf_diff d)" using assms(1) by (simp add: diff_ok_def)
    ultimately show "leaf_at (diff_view dl dp ?d) i = leaf_at (spec_shrink dl dp (diff_view dl dp d)) i"
      using k by (auto simp: diff_view_leaf [OF ok] diff_view_leaf [OF assms(1)] spec_simps)
       (auto simp: d' btm_get_retain split: option.split)
  next
    fix i
    have "parent_usize (ParentNodeIndex (of_nat i)) = i" if "i < 2 ^ k - 1"
      using that k by (intro parent_usize_of_nat [of k]) auto
    moreover have "btm_ok (parent_diff d)" using assms(1) by (simp add: diff_ok_def)
    ultimately show "parent_at (diff_view dl dp ?d) i = parent_at (spec_shrink dl dp (diff_view dl dp d)) i"
      using k by (auto simp: diff_view_parent [OF ok] diff_view_parent [OF assms(1)] spec_simps)
       (auto simp: d' btm_get_retain split: option.split)
  qed
qed


lemma diff_ok_fields:
  assumes "diff_ok dl dp d" and "size_depth (diff_size d) = k"
  shows "k \<le> 29" "diff_size d = full_size k" "tree_ok dl dp (original_tree d)"
    "btm_ok (leaf_diff d)" "btm_ok (parent_diff d)"
    "i \<in> set (btm_keys (leaf_diff d)) \<Longrightarrow> leaf_usize i < 2 ^ k"
    "p \<in> set (btm_keys (parent_diff d)) \<Longrightarrow> parent_usize p < 2 ^ k - 1"
    "diff_default_leaf d = dl" "diff_default_parent d = dp"
  using assms unfolding diff_ok_def by blast+

lemma diff_okI:
  assumes "k \<le> 29" "diff_size d = full_size k" "tree_ok dl dp (original_tree d)"
    "btm_ok (leaf_diff d)" "btm_ok (parent_diff d)"
    "\<And>i. i \<in> set (btm_keys (leaf_diff d)) \<Longrightarrow> leaf_usize i < 2 ^ k"
    "\<And>p. p \<in> set (btm_keys (parent_diff d)) \<Longrightarrow> parent_usize p < 2 ^ k - 1"
    "diff_default_leaf d = dl" "diff_default_parent d = dp"
  shows "diff_ok dl dp d"
proof -
  have "size_depth (diff_size d) = k" using assms(1,2) by simp
  then show ?thesis using assms unfolding diff_ok_def by blast
qed

definition leaf_range :: "nat \<Rightarrow> nat \<Rightarrow> LeafNodeIndex list" where
  "leaf_range a b = map (\<lambda>i. LeafNodeIndex (of_nat i)) [a..<b]"

definition parent_range :: "nat \<Rightarrow> nat \<Rightarrow> ParentNodeIndex list" where
  "parent_range a b = map (\<lambda>i. ParentNodeIndex (of_nat i)) [a..<b]"

lemma tree_counts:
  assumes "tree_ok dl dp t"
  shows "unat (tree_leaf_count t) = length (leaf_nodes t)" "unat (tree_parent_count t) = length (parent_nodes t)"
  unfolding tree_leaf_count_def tree_parent_count_def
  by (rule unat_of_nat_u32, use assms in \<open>simp add: tree_ok_def\<close>)+

lemma grow_tree_eq:
  assumes "diff_ok dl dp d" and "size_depth (diff_size d) = k" and "k < 29"
  shows "grow_tree dl dp d = (Inr (), d\<lparr>diff_size := full_size (Suc k),
      leaf_diff := fold (\<lambda>i. btm_insert i dl)
        (leaf_range (2 ^ k) (min (2 ^ Suc k) (length (leaf_nodes (original_tree d))))) (leaf_diff d),
      parent_diff := fold (\<lambda>i. btm_insert i dp)
        (parent_range (2 ^ k - 1) (min (2 ^ Suc k - 1) (length (parent_nodes (original_tree d))))) (parent_diff d)\<rparr>)"
proof -
  note f = diff_ok_fields [OF assms(1,2)]
  have "(2::nat) ^ Suc k \<le> 2 ^ 29" by (rule power_increasing) (use assms(3) in auto)
  then have small: "\<not> size_u32 (full_size k) > MAX_TREE_SIZE div 2"
    using assms(3) unat_full_size [of k] by (simp add: word_less_nat_alt del: power_Suc)
  have umin: "unat (min x y) = min (unat x) (unat y)" for x y :: u32
    by (simp add: min_def word_le_nat_alt)
  have c: "unat (size_leaf_count (full_size k)) = 2 ^ k" "unat (size_parent_count (full_size k)) = 2 ^ k - 1"
      "unat (size_leaf_count (full_size (Suc k))) = 2 ^ Suc k"
      "unat (size_parent_count (full_size (Suc k))) = 2 ^ Suc k - 1"
    using assms(3) unat_leaf_count unat_parent_count by simp_all
  show ?thesis
    using small unfolding grow_tree_def Let_def diff_leaf_count_def diff_parent_count_def f(2) tree_size_inc_full
    by (simp add: umin c tree_counts [OF f(3)] leaf_range_def parent_range_def del: power_Suc)
qed

lemma grow_tree_ok:
  assumes "diff_ok dl dp d" and "size_depth (diff_size d) = k" and "k < 29"
  shows "diff_ok dl dp (snd (grow_tree dl dp d))"
proof (rule diff_okI [of "Suc k"])
  note f = diff_ok_fields [OF assms(1,2)]
  note eq = grow_tree_eq [OF assms]
  have b: "(2::nat) ^ Suc k \<le> 2 ^ 30" using assms(3) by (intro pow2_small) simp
  have lt: "(2::nat) ^ k < 2 ^ Suc k" by simp
  show "leaf_usize i < 2 ^ Suc k" if "i \<in> set (btm_keys (leaf_diff (snd (grow_tree dl dp d))))" for i
  proof -
    have "i \<in> set (leaf_range (2 ^ k) (min (2 ^ Suc k) (length (leaf_nodes (original_tree d))))) \<or> leaf_usize i < 2 ^ k"
      using that f(6) by (auto simp: eq keys_ins_all)
    then show ?thesis using lt b by (auto simp: leaf_range_def leaf_usize_def unat_of_nat_u32)
  qed
  show "parent_usize i < 2 ^ Suc k - 1" if "i \<in> set (btm_keys (parent_diff (snd (grow_tree dl dp d))))" for i
  proof -
    have "i \<in> set (parent_range (2 ^ k - 1) (min (2 ^ Suc k - 1) (length (parent_nodes (original_tree d))))) \<or>
        parent_usize i < 2 ^ k - 1"
      using that f(7) by (auto simp: eq keys_ins_all)
    then show ?thesis using lt b by (auto simp: parent_range_def parent_usize_def unat_of_nat_u32)
  qed
qed (use grow_tree_eq [OF assms] diff_ok_fields [OF assms(1,2)] assms(3) in \<open>simp_all add: btm.ok_ins_all\<close>)

lemma grow_tree_view:
  assumes "diff_ok dl dp d" and "size_depth (diff_size d) = k" and "k < 29"
  shows "diff_view dl dp (snd (grow_tree dl dp d)) = spec_grow (diff_view dl dp d)"
proof (rule full_tree_eqI)
  note f = diff_ok_fields [OF assms(1,2)]
  note eq = grow_tree_eq [OF assms] and ok = grow_tree_ok [OF assms]
  let ?d = "snd (grow_tree dl dp d)"
  have b: "(2::nat) ^ Suc k \<le> 2 ^ 30" using assms(3) by (intro pow2_small) simp
  have dep: "size_depth (diff_size ?d) = Suc k" "original_tree ?d = original_tree d"
    using assms(3) by (simp_all add: eq)
  then show "depth_of (diff_view dl dp ?d) = depth_of (spec_grow (diff_view dl dp d))"
    by (simp add: spec_simps assms(2))
  show "leaf_at (diff_view dl dp ?d) i = leaf_at (spec_grow (diff_view dl dp d)) i" for i
  proof (cases "i < 2 ^ Suc k")
    case True
    have "leaf_usize (LeafNodeIndex (of_nat i)) = i"
      using True assms(3) by (intro leaf_usize_of_nat [of "Suc k"]) auto
    then have none: "2 ^ k \<le> i \<Longrightarrow> btm_get (leaf_diff d) (LeafNodeIndex (of_nat i)) = None"
      using f(6) btm_get_None by (metis not_le)
    have get: "btm_get (leaf_diff ?d) (LeafNodeIndex (of_nat i)) =
       (if 2 ^ k \<le> i \<and> i < length (leaf_nodes (original_tree d)) then Some dl
        else btm_get (leaf_diff d) (LeafNodeIndex (of_nat i)))"
      using True b by (simp add: eq btm.get_ins_all [OF f(4)] leaf_range_def index_range_mem(1)
         del: set_map power_Suc)
    show ?thesis
      using True none unfolding spec_simps
      by (simp add: diff_view_leaf [OF ok] diff_view_leaf [OF assms(1)] assms(2) dep get del: power_Suc)
        (auto simp: tree_view_def dep(2) split: option.split)
  qed (simp add: diff_view_leaf [OF ok] diff_view_leaf [OF assms(1)] assms(2) dep spec_simps)
  show "parent_at (diff_view dl dp ?d) i = parent_at (spec_grow (diff_view dl dp d)) i" for i
  proof (cases "i < 2 ^ Suc k - 1")
    case True
    have "parent_usize (ParentNodeIndex (of_nat i)) = i"
      using True assms(3) by (intro parent_usize_of_nat [of "Suc k"]) auto
    then have none: "2 ^ k - 1 \<le> i \<Longrightarrow> btm_get (parent_diff d) (ParentNodeIndex (of_nat i)) = None"
      using f(7) btm_get_None by (metis not_le)
    have get: "btm_get (parent_diff ?d) (ParentNodeIndex (of_nat i)) =
       (if 2 ^ k - 1 \<le> i \<and> i < length (parent_nodes (original_tree d)) then Some dp
        else btm_get (parent_diff d) (ParentNodeIndex (of_nat i)))"
      using True b by (simp add: eq btm.get_ins_all [OF f(5)] parent_range_def index_range_mem(2)
         del: set_map power_Suc)
    show ?thesis
      using True none unfolding spec_simps
      by (simp add: diff_view_parent [OF ok] diff_view_parent [OF assms(1)] assms(2) dep get del: power_Suc)
        (auto simp: tree_view_def dep(2) split: option.split)
  next
    case False
    then have "\<not> i < 2 ^ k - 1" by auto
    with False show ?thesis
      by (simp add: diff_view_parent [OF ok] diff_view_parent [OF assms(1)] assms(2) dep spec_simps)
  qed
qed

subsection \<open>Reading the leaves and parents in order\<close>

lemma LeafNodeIndex_less: "i < j \<Longrightarrow> j < 2 ^ 30 \<Longrightarrow> LeafNodeIndex (of_nat i) < LeafNodeIndex (of_nat j)"
  by (simp add: less_LeafNodeIndex_def word_less_nat_alt unat_of_nat_u32)

lemma ParentNodeIndex_less: "i < j \<Longrightarrow> j < 2 ^ 30 \<Longrightarrow> ParentNodeIndex (of_nat i) < ParentNodeIndex (of_nat j)"
  by (simp add: less_ParentNodeIndex_def word_less_nat_alt unat_of_nat_u32)

lemma tree_ok_lengths:
  "tree_ok dl dp t \<Longrightarrow> length (leaf_nodes t) \<le> 2 ^ 30" "tree_ok dl dp t \<Longrightarrow> length (parent_nodes t) \<le> 2 ^ 30"
  by (simp_all add: tree_ok_def)

lemma diff_leaves_eq:
  assumes "diff_ok dl dp d" and "size_depth (diff_size d) = k"
  shows "diff_leaves d =
    map (\<lambda>i. (LeafNodeIndex (of_nat i), leaf_at (diff_view dl dp d) i))
      (filter (\<lambda>i. i < length (leaf_nodes (original_tree d)) \<or>
          LeafNodeIndex (of_nat i) \<in> set (btm_keys (leaf_diff d))) [0..<2 ^ k])"
proof -
  note f = diff_ok_fields [OF assms]
  have k: "(2::nat) ^ k \<le> 2 ^ 30" using f(1) by (intro pow2_small) simp
  have n: "unat (diff_leaf_count d) = 2 ^ k"
    using f(1,2) by (simp add: diff_leaf_count_def unat_leaf_count)
  have keys: "set (btm_keys (leaf_diff d)) \<subseteq> (\<lambda>i. LeafNodeIndex (of_nat i)) ` {..<2 ^ k}"
    using f(6) leaf_index_eq by (metis (no_types, lifting) image_iff lessThan_iff subsetI)
  have "diff_leaves d =
    map (\<lambda>i. (LeafNodeIndex (of_nat i), case btm_get (leaf_diff d) (LeafNodeIndex (of_nat i)) of
         Some v \<Rightarrow> v | None \<Rightarrow> leaf_nodes (original_tree d) ! i))
      (filter (\<lambda>i. i < length (leaf_nodes (original_tree d)) \<or>
          LeafNodeIndex (of_nat i) \<in> set (btm_keys (leaf_diff d))) [0..<2 ^ k])"
    unfolding diff_leaves_def raw_leaves_def n tree_leaves_def
    using f(4) LeafNodeIndex_less tree_ok_lengths(1) [OF f(3)] k keys by (rule collect_overlay)
  also have "\<dots> = map (\<lambda>i. (LeafNodeIndex (of_nat i), leaf_at (diff_view dl dp d) i))
      (filter (\<lambda>i. i < length (leaf_nodes (original_tree d)) \<or>
          LeafNodeIndex (of_nat i) \<in> set (btm_keys (leaf_diff d))) [0..<2 ^ k])"
    by (rule map_cong)
      (auto simp: diff_view_leaf [OF assms(1)] assms(2) tree_view_def btm_get_dom split: option.split)
  finally show ?thesis .
qed

lemma diff_parents_eq:
  assumes "diff_ok dl dp d" and "size_depth (diff_size d) = k"
  shows "diff_parents d =
    map (\<lambda>i. (ParentNodeIndex (of_nat i), parent_at (diff_view dl dp d) i))
      (filter (\<lambda>i. i < length (parent_nodes (original_tree d)) \<or>
          ParentNodeIndex (of_nat i) \<in> set (btm_keys (parent_diff d))) [0..<2 ^ k - 1])"
proof -
  note f = diff_ok_fields [OF assms]
  have "(2::nat) ^ k \<le> 2 ^ 30" using f(1) by (intro pow2_small) simp
  then have k: "(2::nat) ^ k - 1 \<le> 2 ^ 30" by simp
  have n: "unat (diff_parent_count d) = 2 ^ k - 1"
    using f(1,2) by (simp add: diff_parent_count_def unat_parent_count)
  have keys: "set (btm_keys (parent_diff d)) \<subseteq> (\<lambda>i. ParentNodeIndex (of_nat i)) ` {..<2 ^ k - 1}"
    using f(7) parent_index_eq by (metis (no_types, lifting) image_iff lessThan_iff subsetI)
  have "diff_parents d =
    map (\<lambda>i. (ParentNodeIndex (of_nat i), case btm_get (parent_diff d) (ParentNodeIndex (of_nat i)) of
         Some v \<Rightarrow> v | None \<Rightarrow> parent_nodes (original_tree d) ! i))
      (filter (\<lambda>i. i < length (parent_nodes (original_tree d)) \<or>
          ParentNodeIndex (of_nat i) \<in> set (btm_keys (parent_diff d))) [0..<2 ^ k - 1])"
    unfolding diff_parents_def raw_parents_def n tree_parents_def
    using f(5) ParentNodeIndex_less tree_ok_lengths(2) [OF f(3)] k keys by (rule collect_overlay)
  also have "\<dots> = map (\<lambda>i. (ParentNodeIndex (of_nat i), parent_at (diff_view dl dp d) i))
      (filter (\<lambda>i. i < length (parent_nodes (original_tree d)) \<or>
          ParentNodeIndex (of_nat i) \<in> set (btm_keys (parent_diff d))) [0..<2 ^ k - 1])"
    by (rule map_cong)
      (auto simp: diff_view_parent [OF assms(1)] assms(2) tree_view_def btm_get_dom split: option.split)
  finally show ?thesis .
qed

subsection \<open>Creating and merging a diff\<close>

lemma empty_diff_ok:
  assumes "tree_ok dl dp t"
  shows "diff_ok dl dp (empty_diff dl dp t)" "diff_view dl dp (empty_diff dl dp t) = tree_view dl dp t"
proof -
  obtain k where k: "k \<le> 29" "tree_size t = full_size k" "length (leaf_nodes t) \<le> 2 ^ k"
    "length (parent_nodes t) \<le> 2 ^ k - 1" using assms by (rule tree_size_full)
  show ok: "diff_ok dl dp (empty_diff dl dp t)"
    by (rule diff_okI [of k]) (use assms k in \<open>auto simp: empty_diff_def btm_new_def\<close>)
  show "diff_view dl dp (empty_diff dl dp t) = tree_view dl dp t"
    by (rule full_tree_eqI; (unfold diff_view_depth diff_view_leaf [OF ok] diff_view_parent [OF ok])?)
      (use k in \<open>auto simp: empty_diff_def tree_view_def\<close>)
qed

lemma write_leaves_get:
  assumes "btm_ok m"
  shows "length (write_leaves m ls) = length ls \<and>
    (\<forall>i < length ls. i < 2 ^ 30 \<longrightarrow> write_leaves m ls ! i =
       (case btm_get m (LeafNodeIndex (of_nat i)) of Some l \<Rightarrow> l | None \<Rightarrow> ls ! i))"
  using assms
proof (induction m arbitrary: ls)
  case (Cons x m)
  obtain j l where x: "x = (j, l)" by (cases x)
  have iff: "LeafNodeIndex (of_nat i) = j \<longleftrightarrow> i = leaf_usize j" if "i < 2 ^ 30" for i
    using leaf_index_iff [of 30 i j] that by simp
  have none: "btm_get m j = None" using Cons.prems by (auto simp: x intro!: btm_get_absent)
  let ?ls = "if leaf_usize j < length ls then ls[leaf_usize j := l] else ls"
  have "write_leaves (x # m) ls = write_leaves m ?ls" by (simp add: write_leaves_def x)
  moreover have "btm_ok m" using Cons.prems by (simp add: x)
  ultimately show ?case
    using Cons.IH [of ?ls] none by (auto simp: x iff nth_list_update leaf_index_eq split: option.split)
qed (simp add: write_leaves_def)

lemma write_parents_get:
  assumes "btm_ok m"
  shows "length (write_parents m ps) = length ps \<and>
    (\<forall>i < length ps. i < 2 ^ 30 \<longrightarrow> write_parents m ps ! i =
       (case btm_get m (ParentNodeIndex (of_nat i)) of Some p \<Rightarrow> p | None \<Rightarrow> ps ! i))"
  using assms
proof (induction m arbitrary: ps)
  case (Cons x m)
  obtain j l where x: "x = (j, l)" by (cases x)
  have iff: "ParentNodeIndex (of_nat i) = j \<longleftrightarrow> i = parent_usize j" if "i < 2 ^ 30" for i
    using parent_index_iff [of 30 i j] that by simp
  have none: "btm_get m j = None" using Cons.prems by (auto simp: x intro!: btm_get_absent)
  let ?ps = "if parent_usize j < length ps then ps[parent_usize j := l] else ps"
  have "write_parents (x # m) ps = write_parents m ?ps" by (simp add: write_parents_def x)
  moreover have "btm_ok m" using Cons.prems by (simp add: x)
  ultimately show ?case
    using Cons.IH [of ?ps] none by (auto simp: x iff nth_list_update parent_index_eq split: option.split)
qed (simp add: write_parents_def)

lemma nth_vec_resize: "i < n \<Longrightarrow> vec_resize n x xs ! i = (if i < length xs then xs ! i else x)"
  by (simp add: vec_resize_def nth_append)

lemma merge_diff_ok:
  assumes "diff_ok dl dp d" and "t' = merge_diff dl dp (staged_from d) (original_tree d)"
  shows "tree_ok dl dp t'" "tree_view dl dp t' = diff_view dl dp d"
proof -
  let ?k = "size_depth (diff_size d)"
  note f = diff_ok_fields [OF assms(1) refl]
  have c: "unat (size_leaf_count (staged_size (staged_from d))) = 2 ^ ?k"
      "unat (size_parent_count (staged_size (staged_from d))) = 2 ^ ?k - 1"
    using f(1,2) unat_leaf_count [of ?k] unat_parent_count [of ?k] by (simp_all add: staged_from_def)
  have "(2::nat) ^ Suc ?k \<le> 2 ^ 30" using f(1) by (intro pow2_small) simp
  then have b: "(2::nat) ^ ?k \<le> 2 ^ 29" by simp
  define ls where "ls = vec_resize (2 ^ ?k) dl (leaf_nodes (original_tree d))"
  define ps where "ps = vec_resize (2 ^ ?k - 1) dp (parent_nodes (original_tree d))"
  have t': "t' = (original_tree d)\<lparr>leaf_nodes := write_leaves (leaf_diff d) ls,
      parent_nodes := write_parents (parent_diff d) ps\<rparr>"
    unfolding assms(2) merge_diff_def c ls_def ps_def by (simp add: Let_def staged_from_def)
  note wl = write_leaves_get [OF f(4), of ls] and wp = write_parents_get [OF f(5), of ps]
  have len: "length (leaf_nodes t') = 2 ^ ?k" "length (parent_nodes t') = 2 ^ ?k - 1"
    using wl wp by (simp_all add: t' ls_def ps_def)
  show ok: "tree_ok dl dp t'"
    using f(3) b unfolding tree_ok_def len by (simp add: t')
  have n: "unat (of_nat (2 ^ ?k + (2 ^ ?k - 1)) :: u32) = 2 ^ ?k + (2 ^ ?k - 1)"
    using b by (intro unat_of_nat_u32) simp
  have "(2::nat) ^ ?k + (2 ^ ?k - 1) < 2 ^ ?k + 2 ^ ?k" by (rule add_strict_left_mono) simp
  then have size: "tree_size t' = full_size ?k"
    unfolding tree_size_def len by (intro tree_size_new_eq; (unfold n)?) (use f(1) in \<open>simp_all add: mult_2\<close>)
  show "tree_view dl dp t' = diff_view dl dp d"
  proof (rule full_tree_eqI)
    show "depth_of (tree_view dl dp t') = depth_of (diff_view dl dp d)"
      using f(1) by (simp add: tree_view_def size)
    show "leaf_at (tree_view dl dp t') i = leaf_at (diff_view dl dp d) i" for i
      using wl b unfolding diff_view_leaf [OF assms(1)] tree_view_def len
      by (auto simp: t' ls_def nth_vec_resize split: option.split)
    show "parent_at (tree_view dl dp t') i = parent_at (diff_view dl dp d) i" for i
      using wp b unfolding diff_view_parent [OF assms(1)] tree_view_def len
      by (auto simp: t' ps_def nth_vec_resize split: option.split)
  qed
qed


subsection \<open>Blanking or overwriting a direct path\<close>

lemma pnode_usize:
  assumes "d \<le> 29" and "i < 2 ^ d" and "k < d"
  shows "parent_usize (pnode k (i div 2 ^ Suc k)) = node_at k (i div 2 ^ Suc k)"
    "node_at k (i div 2 ^ Suc k) < 2 ^ d - 1"
proof -
  have "in_depth d (Suc k) (i div 2 ^ Suc k)" using assms(2,3) by (intro in_depth_leaf) auto
  then have "2 * node_at k (i div 2 ^ Suc k) + 1 < 2 ^ Suc d - 1"
    using node_at_bound node_at_Suc by metis
  then show b: "node_at k (i div 2 ^ Suc k) < 2 ^ d - 1" unfolding power_Suc [of 2 d] by linarith
  moreover have "(2::nat) ^ d \<le> 2 ^ 30" using assms(1) by (intro pow2_small) simp
  ultimately show "parent_usize (pnode k (i div 2 ^ Suc k)) = node_at k (i div 2 ^ Suc k)"
    by (simp add: pnode_def parent_usize_def unat_of_nat_u32)
qed

definition spec_set_parents :: "nat set \<Rightarrow> 'p \<Rightarrow> ('l, 'p) full_tree \<Rightarrow> ('l, 'p) full_tree" where
  "spec_set_parents J p t = t\<lparr>parent_at := (\<lambda>j. if j \<in> J then p else parent_at t j)\<rparr>"

lemma replace_parents_view:
  assumes "diff_ok dl dp d" and "\<forall>j \<in> set js. parent_usize j < 2 ^ size_depth (diff_size d) - 1"
  shows "diff_ok dl dp (fold (\<lambda>j. replace_parent j p) js d) \<and>
    diff_view dl dp (fold (\<lambda>j. replace_parent j p) js d) =
      spec_set_parents (parent_usize ` set js) p (diff_view dl dp d)"
  using assms
proof (induction js arbitrary: d)
  case (Cons j js)
  have "diff_size (replace_parent j p d) = diff_size d" by (simp add: replace_parent_def)
  with Cons show ?case
    using replace_parent_ok [of dl dp d j p] replace_parent_view [of dl dp d j p]
    by (auto simp: spec_set_parents_def spec_simps intro!: full_tree_eqI)
qed (simp add: spec_set_parents_def)

definition path_positions :: "nat \<Rightarrow> nat \<Rightarrow> nat set" where
  "path_positions d i = (\<lambda>k. node_at k (i div 2 ^ Suc k)) ` {..<d}"

lemma set_direct_path_ok:
  assumes "diff_ok dl dp d" and "leaf_usize i < 2 ^ size_depth (diff_size d)"
  obtains d' where "set_direct_path_to_node i p d = Some d'" "diff_ok dl dp d'"
    "diff_view dl dp d' =
       spec_set_parents (path_positions (size_depth (diff_size d)) (leaf_usize i)) p (diff_view dl dp d)"
proof -
  let ?k = "size_depth (diff_size d)"
  let ?path = "map (\<lambda>k. pnode k (leaf_usize i div 2 ^ Suc k)) [0..<?k]"
  note f = diff_ok_fields [OF assms(1) refl]
  have "diff_direct_path d i = Some ?path"
    using direct_path_eq [of ?k "leaf_usize i"] assms(2) f(1,2) leaf_lnode [of i] by (simp add: diff_direct_path_def)
  moreover have "\<forall>j \<in> set ?path. parent_usize j < 2 ^ ?k - 1"
    using pnode_usize [OF f(1) assms(2)] by auto
  moreover have "parent_usize ` set ?path = path_positions ?k (leaf_usize i)"
    using pnode_usize(1) [OF f(1) assms(2)] by (auto simp: path_positions_def image_image intro!: image_cong)
  ultimately show ?thesis
    using replace_parents_view [OF assms(1), of ?path p] that
    by (simp add: set_direct_path_to_node_def del: set_map)
qed

section \<open>Sequences of changes\<close>

datatype ('l, 'p) diff_op =
    GrowTree
  | ShrinkTree
  | ReplaceLeaf LeafNodeIndex 'l
  | ReplaceParent ParentNodeIndex 'p
  | SetDirectPath LeafNodeIndex 'p

fun diff_step :: "'l \<Rightarrow> 'p \<Rightarrow> ('l, 'p) diff_op \<Rightarrow> (('l, 'p) AbDiff, unit, ABinaryTreeDiffError) mutator" where
  "diff_step dl dp GrowTree d = grow_tree dl dp d"
| "diff_step dl dp ShrinkTree d = shrink_tree d"
| "diff_step dl dp (ReplaceLeaf i l) d = (Inr (), replace_leaf i l d)"
| "diff_step dl dp (ReplaceParent i p) d = (Inr (), replace_parent i p d)"
| "diff_step dl dp (SetDirectPath i p) d =
     (case set_direct_path_to_node i p d of None \<Rightarrow> (Inl Diverges, d) | Some d' \<Rightarrow> (Inr (), d'))"

fun spec_step :: "'l \<Rightarrow> 'p \<Rightarrow> ('l, 'p) diff_op \<Rightarrow> (('l, 'p) full_tree, unit, ABinaryTreeDiffError) mutator" where
  "spec_step dl dp GrowTree t = (if depth_of t < 29 then (Inr (), spec_grow t) else (throw TreeTooLarge, t))"
| "spec_step dl dp ShrinkTree t =
     (if 0 < depth_of t then (Inr (), spec_shrink dl dp t) else (throw TreeTooSmall, t))"
| "spec_step dl dp (ReplaceLeaf i l) t = (Inr (), spec_set_leaf (leaf_usize i) l t)"
| "spec_step dl dp (ReplaceParent i p) t = (Inr (), spec_set_parent (parent_usize i) p t)"
| "spec_step dl dp (SetDirectPath i p) t =
     (Inr (), spec_set_parents (path_positions (depth_of t) (leaf_usize i)) p t)"

text \<open>Every index names a node of the tree at the time it is used.\<close>

fun op_in_range :: "('l, 'p) diff_op \<Rightarrow> nat \<Rightarrow> bool" where
  "op_in_range GrowTree k = True"
| "op_in_range ShrinkTree k = True"
| "op_in_range (ReplaceLeaf i l) k = (leaf_usize i < 2 ^ k)"
| "op_in_range (ReplaceParent i p) k = (parent_usize i < 2 ^ k - 1)"
| "op_in_range (SetDirectPath i p) k = (leaf_usize i < 2 ^ k)"

fun ops_in_range :: "'l \<Rightarrow> 'p \<Rightarrow> ('l, 'p) diff_op list \<Rightarrow> ('l, 'p) full_tree \<Rightarrow> bool" where
  "ops_in_range dl dp [] t = True"
| "ops_in_range dl dp (op # ops) t =
     (op_in_range op (depth_of t) \<and>
      (case spec_step dl dp op t of (Inr _, t') \<Rightarrow> ops_in_range dl dp ops t' | (Inl _, _) \<Rightarrow> True))"

lemma grow_tree_limit:
  assumes "diff_ok dl dp d" and "\<not> size_depth (diff_size d) < 29"
  shows "grow_tree dl dp d = (throw TreeTooLarge, d)"
proof -
  have k: "size_depth (diff_size d) = 29" "diff_size d = full_size 29"
    using diff_ok_fields(1,2) [OF assms(1) refl] assms(2) by simp_all
  then show ?thesis using unat_full_size [of 29] by (simp add: grow_tree_def word_less_nat_alt)
qed

lemma shrink_tree_limit:
  assumes "diff_ok dl dp d" and "\<not> 0 < size_depth (diff_size d)"
  shows "shrink_tree d = (throw TreeTooSmall, d)"
proof -
  have k: "diff_size d = full_size 0"
    using diff_ok_fields(2) [OF assms(1) refl] assms(2) by simp
  then show ?thesis by (simp add: shrink_tree_def full_size_def MIN_TREE_SIZE_def)
qed

lemma diff_step_refines:
  assumes "diff_ok dl dp d" and "op_in_range op (depth_of (diff_view dl dp d))"
  shows "fst (diff_step dl dp op d) = fst (spec_step dl dp op (diff_view dl dp d))
    \<and> diff_ok dl dp (snd (diff_step dl dp op d))
    \<and> diff_view dl dp (snd (diff_step dl dp op d)) = snd (spec_step dl dp op (diff_view dl dp d))"
proof (cases op)
  case GrowTree
  then show ?thesis
    using assms grow_tree_limit [OF assms(1)] grow_tree_ok [OF assms(1) refl] grow_tree_view [OF assms(1) refl]
      grow_tree_eq [OF assms(1) refl] by simp
next
  case ShrinkTree
  then show ?thesis using assms shrink_tree_limit [OF assms(1)] shrink_tree_ok [OF assms(1)] by simp
next
  case (ReplaceLeaf i l)
  then show ?thesis using assms by (simp add: replace_leaf_ok replace_leaf_view)
next
  case (ReplaceParent i p)
  then show ?thesis using assms by (simp add: replace_parent_ok replace_parent_view)
next
  case (SetDirectPath i p)
  then have "leaf_usize i < 2 ^ size_depth (diff_size d)" using assms(2) by simp
  then show ?thesis using SetDirectPath set_direct_path_ok [OF assms(1), of i p]
    by (smt (verit) diff_step.simps(5) diff_view_depth fst_conv option.simps(5) snd_conv spec_step.simps(5))
qed

lemma diff_step_original: "original_tree (snd (diff_step dl dp op d)) = original_tree d"
proof -
  have path: "original_tree (fold (\<lambda>j. replace_parent j p) js d) = original_tree d" for p js
    by (induction js arbitrary: d) (simp_all add: replace_parent_def)
  show ?thesis
    by (cases op) (auto simp: grow_tree_def shrink_tree_def replace_leaf_def path [of _ "[_]", simplified]
        path Let_def set_direct_path_to_node_def split: option.split)
qed

lemma diff_steps_refine:
  assumes "diff_ok dl dp d" and "ops_in_range dl dp ops (diff_view dl dp d)"
    and "m_for (diff_step dl dp) ops d = (r, d')"
  shows "m_for (spec_step dl dp) ops (diff_view dl dp d) = (r, diff_view dl dp d') \<and> diff_ok dl dp d'
     \<and> original_tree d' = original_tree d"
  using assms
proof (induction ops arbitrary: d)
  case (Cons op ops)
  obtain x e where s: "diff_step dl dp op d = (x, e)" by (cases "diff_step dl dp op d")
  then have sim: "spec_step dl dp op (diff_view dl dp d) = (x, diff_view dl dp e)" "diff_ok dl dp e"
      "original_tree e = original_tree d"
    using diff_step_refines [OF Cons.prems(1), of op] Cons.prems(2) diff_step_original [of dl dp op d]
    by (auto intro: prod_eqI)
  show ?case
  proof (cases x)
    case (Inl f)
    then show ?thesis using Cons.prems(3) s sim by (auto simp: m_then_def)
  next
    case (Inr u)
    then have "m_for (diff_step dl dp) ops e = (r, d')" "ops_in_range dl dp ops (diff_view dl dp e)"
      using Cons.prems(2,3) s sim by (simp_all add: m_then_def)
    then show ?thesis using Cons.IH [OF sim(2)] Inr sim by (simp add: m_then_def)
  qed
qed simp

text \<open>
  C6: a diff is a faithful editable copy of the tree.  Start from any well-formed tree, run any
  sequence of grow, shrink, replace-leaf, replace-parent and set-direct-path operations on its
  diff, in any order, each index naming a node of the tree at that moment: the outcome
  (including the size-limit errors and where they strike) and the contents are those of the
  same operations on a plain full binary tree, and merging the staged diff into the
  original tree yields a well-formed tree with exactly these contents.  In particular, nodes
  cut off by a shrink are blank when a later grow exposes their positions again.
\<close>

theorem diff_refines_full_tree:
  assumes "tree_ok dl dp t" and "ops_in_range dl dp ops (tree_view dl dp t)"
    and "m_for (diff_step dl dp) ops (empty_diff dl dp t) = (r, d)"
  shows "m_for (spec_step dl dp) ops (tree_view dl dp t) = (r, diff_view dl dp d) \<and>
     tree_ok dl dp (merge_diff dl dp (staged_from d) t) \<and>
     tree_view dl dp (merge_diff dl dp (staged_from d) t) = diff_view dl dp d"
proof -
  have "original_tree (empty_diff dl dp t) = t" by (simp add: empty_diff_def)
  then have "m_for (spec_step dl dp) ops (tree_view dl dp t) = (r, diff_view dl dp d)"
      "diff_ok dl dp d" "original_tree d = t"
    using diff_steps_refine [of dl dp "empty_diff dl dp t" ops r d] empty_diff_ok [OF assms(1)] assms(2,3) by simp_all
  then show ?thesis using merge_diff_ok [OF _ refl, of dl dp d] by simp
qed

definition sample_tree :: "(nat, nat) ABinaryTree" where
  "sample_tree = \<lparr>leaf_nodes = [11, 12], parent_nodes = [7], default_leaf = 0, default_parent = 0\<rparr>"

lemma sample_tree_ok: "tree_ok 0 0 sample_tree" "depth_of (tree_view 0 0 sample_tree) = 1"
proof -
  have "tree_size_new 3 = full_size 1" by (rule tree_size_new_eq) simp_all
  then show "depth_of (tree_view 0 0 sample_tree) = 1"
    by (simp add: tree_view_def tree_size_def sample_tree_def)
qed (simp add: tree_ok_def sample_tree_def)

theorem diff_refines_full_tree_witness:
  "let ops = [ShrinkTree, GrowTree, ReplaceLeaf (LeafNodeIndex 0) 5, SetDirectPath (LeafNodeIndex 1) 9];
       t = sample_tree;
       d = snd (m_for (diff_step 0 0) ops (empty_diff 0 0 t));
       t' = merge_diff 0 0 (staged_from d) t
   in fst (m_for (diff_step 0 0) ops (empty_diff 0 0 t)) = Inr () \<and>
      tree_ok 0 0 t' \<and> leaf_at (tree_view 0 0 t') 0 = 5 \<and> leaf_at (tree_view 0 0 t') 1 = 0 \<and>
      parent_at (tree_view 0 0 t') 0 = 9"
proof -
  let ?ops = "[ShrinkTree, GrowTree, ReplaceLeaf (LeafNodeIndex 0) 5, SetDirectPath (LeafNodeIndex 1) 9] :: (nat, nat) diff_op list"
  have "ops_in_range 0 0 ?ops (tree_view 0 0 sample_tree)"
    by (simp add: sample_tree_ok spec_simps leaf_usize_def)
  note th = diff_refines_full_tree [OF sample_tree_ok(1) this prod.collapse [symmetric]]
  let ?s = "m_for (spec_step 0 0) ?ops (tree_view 0 0 sample_tree)"
  have "fst ?s = Inr ()" "leaf_at (snd ?s) 0 = 5" "leaf_at (snd ?s) 1 = 0" "parent_at (snd ?s) 0 = 9"
    by (simp_all add: m_then_def sample_tree_ok spec_simps leaf_usize_def spec_set_parents_def
        path_positions_def node_at_0)
  then show ?thesis using th unfolding Let_def by (simp only: fst_conv snd_conv)
qed


text \<open>
  C7: iterating over the leaves of a diff yields leaves of the tree in strictly increasing
  order of their index, each once and with the content the diff has for it, and misses no
  leaf whose content differs from the default.
\<close>

theorem diff_leaves_complete:
  assumes "diff_ok dl dp d"
  shows "sorted_wrt (<) (map fst (diff_leaves d)) \<and>
     (\<forall>(i, l) \<in> set (diff_leaves d). leaf_u32 i < diff_leaf_count d \<and> l = diff_leaf d i) \<and>
     (\<forall>i. leaf_u32 i < diff_leaf_count d \<and> diff_leaf d i \<noteq> dl \<longrightarrow> (i, diff_leaf d i) \<in> set (diff_leaves d))"
proof -
  let ?k = "size_depth (diff_size d)"
  let ?P = "\<lambda>i. i < length (leaf_nodes (original_tree d)) \<or> LeafNodeIndex (of_nat i) \<in> set (btm_keys (leaf_diff d))"
  note f = diff_ok_fields [OF assms refl]
  note eq = diff_leaves_eq [OF assms refl]
  have b: "(2::nat) ^ ?k \<le> 2 ^ 30" using f(1) by (intro pow2_small) simp
  have n: "unat (diff_leaf_count d) = 2 ^ ?k" using f(1,2) unat_leaf_count [of ?k] by (simp add: diff_leaf_count_def)
  have view: "leaf_at (diff_view dl dp d) i = diff_leaf d (LeafNodeIndex (of_nat i))" if "i < 2 ^ ?k" for i
    using that by (simp add: diff_view_def)
  have "sorted_wrt (<) (map (\<lambda>i. LeafNodeIndex (of_nat i)) (filter ?P [0..<2 ^ ?k]))"
    unfolding sorted_wrt_map
    by (rule sorted_wrt_mono_rel [of _ "(<)"]) (use b LeafNodeIndex_less in \<open>auto intro: sorted_wrt_filter\<close>)
  moreover have "leaf_u32 (LeafNodeIndex (of_nat i)) < diff_leaf_count d" if "i < 2 ^ ?k" for i
    using that b n by (simp add: word_less_nat_alt unat_of_nat_u32)
  moreover have "(i, diff_leaf d i) \<in> set (diff_leaves d)"
    if i: "leaf_u32 i < diff_leaf_count d" "diff_leaf d i \<noteq> dl" for i
  proof -
    have lt: "leaf_usize i < 2 ^ ?k" using i(1) by (simp add: leaf_below_iff n)
    have "?P (leaf_usize i)"
    proof (rule ccontr)
      assume "\<not> ?P (leaf_usize i)"
      then have "btm_get (leaf_diff d) i = None" "leaf_by_index (original_tree d) i = dl"
        using f(3) by (auto simp: leaf_index_eq btm_get_None leaf_by_index_eq tree_ok_def)
      then show False using i(2) lt n by (simp add: diff_leaf_below)
    qed
    then show ?thesis using lt view unfolding eq
      by (auto simp: leaf_index_eq intro!: image_eqI [of _ _ "leaf_usize i"])
  qed
  ultimately show ?thesis using view unfolding eq by (auto simp: comp_def)
qed

theorem diff_leaves_complete_witness:
  "(LeafNodeIndex 1, 12) \<in> set (diff_leaves (empty_diff 0 0 sample_tree))"
proof -
  have ok: "diff_ok 0 0 (empty_diff 0 0 sample_tree)" using sample_tree_ok(1) by (rule empty_diff_ok)
  have "tree_size_new 3 = full_size 1" by (rule tree_size_new_eq) simp_all
  then have "unat (diff_leaf_count (empty_diff 0 0 sample_tree)) = 2"
    using unat_leaf_count [of 1] by (simp add: diff_leaf_count_def empty_diff_def tree_size_def sample_tree_def)
  then have "leaf_u32 (LeafNodeIndex 1) < diff_leaf_count (empty_diff 0 0 sample_tree)"
      "diff_leaf (empty_diff 0 0 sample_tree) (LeafNodeIndex 1) = 12"
    by (simp_all add: word_less_nat_alt word_le_nat_alt diff_leaf_def leaf_by_index_eq leaf_usize_def)
      (simp_all add: empty_diff_def sample_tree_def leaf_by_index_eq leaf_usize_def)
  then show ?thesis using diff_leaves_complete [OF ok]
    by (elim conjE allE [of _ "LeafNodeIndex 1"]) simp
qed

text \<open>The array representation: leaves at even, parents at odd positions.\<close>

fun interleave :: "'l list \<Rightarrow> 'p list \<Rightarrow> ('l, 'p) TreeNode list" where
  "interleave (l # ls) (p # ps) = LeafNode l # ParentNode p # interleave ls ps"
| "interleave [l] [] = [LeafNode l]"
| "interleave _ _ = []"

lemma split_nodes_interleave:
  "length ls = length ps + 1 \<Longrightarrow> even i \<Longrightarrow>
     split_nodes i (interleave ls ps) ls0 ps0 = Inr (ls0 @ ls, ps0 @ ps)"
proof (induction ls ps arbitrary: i ls0 ps0 rule: interleave.induct)
  case (1 l ls p ps)
  then show ?case using 1(1) [of "Suc (Suc i)" "ls0 @ [l]" "ps0 @ [p]"] by simp presburger
qed auto

lemma interleave_split_nodes:
  assumes "odd (length nodes)" "even i" "split_nodes i nodes ls0 ps0 = Inr (ls', ps')"
  shows "\<exists>ls ps. ls' = ls0 @ ls \<and> ps' = ps0 @ ps \<and> length ls = length ps + 1 \<and> nodes = interleave ls ps"
  using assms
proof (induction "length nodes" arbitrary: nodes i ls0 ps0 rule: less_induct)
  case less
  obtain l rest where n: "nodes = LeafNode l # rest"
    using less.prems by (cases nodes rule: list.exhaust) (auto split: if_splits elim!: split_nodes.elims)
  show ?case
  proof (cases rest)
    case Nil
    then show ?thesis using n less.prems by (intro exI [of _ "[l]"] exI [of _ "[]"]) simp
  next
    case (Cons m rest')
    have s: "split_nodes (Suc i) rest (ls0 @ [l]) ps0 = Inr (ls', ps')" using less.prems n by simp
    then obtain p where m: "m = ParentNode p" "split_nodes (Suc (Suc i)) rest' (ls0 @ [l]) (ps0 @ [p]) = Inr (ls', ps')"
      using Cons less.prems(2) by (cases m) (auto split: if_splits)
    have "length rest' < length nodes" "odd (length rest')" "even (Suc (Suc i))"
      using less.prems n Cons by auto
    from less.hyps [OF this m(2)] obtain ls ps where
      "ls' = (ls0 @ [l]) @ ls" "ps' = (ps0 @ [p]) @ ps" "length ls = length ps + 1" "rest' = interleave ls ps"
      by blast
    then show ?thesis using n Cons m(1) by (intro exI [of _ "l # ls"] exI [of _ "p # ps"]) simp
  qed
qed

text \<open>
  C8: building a tree from a node vector succeeds exactly for the array representation of a
  full tree: a vector of at most \<open>MAX_TREE_SIZE\<close> nodes which alternates leaves and parents,
  starting and ending with a leaf.  The tree then consists of these leaves and parents in
  order, and satisfies the tree invariant.
\<close>

theorem tree_new_iff_interleaved:
  "tree_new dl dp nodes = Inr t \<longleftrightarrow>
     tree_ok dl dp t \<and> nodes = interleave (leaf_nodes t) (parent_nodes t)"
proof -
  have len: "length ls = length ps + 1 \<Longrightarrow> length (interleave ls ps) = length ls + length ps" for ls :: "'a list" and ps :: "'b list"
    by (induction ls ps rule: interleave.induct) auto
  show ?thesis
  proof
    assume "tree_new dl dp nodes = Inr t"
    then obtain ls ps where *: "length nodes \<le> unat MAX_TREE_SIZE" "odd (length nodes)"
        "split_nodes 0 nodes [] [] = Inr (ls, ps)"
        "t = \<lparr>leaf_nodes = ls, parent_nodes = ps, default_leaf = dl, default_parent = dp\<rparr>"
      by (auto simp: tree_new_def outcome_simps odd_iff_mod_2_eq_one split: if_splits prod.splits)
    then show "tree_ok dl dp t \<and> nodes = interleave (leaf_nodes t) (parent_nodes t)"
      using interleave_split_nodes [OF *(2) _ *(3)] len by (auto simp: tree_ok_def)
  next
    assume *: "tree_ok dl dp t \<and> nodes = interleave (leaf_nodes t) (parent_nodes t)"
    then have "length (leaf_nodes t) = length (parent_nodes t) + 1" by (simp add: tree_ok_def)
    with * show "tree_new dl dp nodes = Inr t"
      using len [of "leaf_nodes t" "parent_nodes t"] split_nodes_interleave [of "leaf_nodes t" "parent_nodes t" 0 "[]" "[]"]
      by (auto simp: tree_new_def tree_ok_def) (presburger)?
  qed
qed

lemma twins: "(a::nat) div 2 = b div 2 \<Longrightarrow> b < a \<Longrightarrow> b = 2 * (a div 2) \<and> a = 2 * (b div 2) + 1"
  by presburger

text \<open>
  C9: for two different leaves of a tree, the copath node returned for the pair is the left
  or right child of their lowest common ancestor, it belongs to the copath of the first leaf,
  and it is the ancestor of (or equal to) the second leaf at its level.
\<close>

theorem subtree_root_copath_node_correct:
  assumes "0 < n" and "n \<le> MAX_TREE_SIZE" and "i \<noteq> j"
    and "leaf_u32 i < size_leaf_count (tree_size_new n)"
    and "leaf_u32 j < size_leaf_count (tree_size_new n)"
  shows "\<exists>cp k. copath i (tree_size_new n) = Some cp \<and> k < length cp \<and>
     cp ! k = subtree_root_copath_node i j \<and>
     subtree_root_copath_node i j = node k (leaf_usize j div 2 ^ k) \<and>
     parent (subtree_root_copath_node i j) = lowest_common_ancestor i j"
proof -
  obtain d where d: "d \<le> 29" "tree_size_new n = full_size d"
    using full_size_of_nodes [OF assms(1,2)] by metis
  let ?a = "leaf_usize i" and ?b = "leaf_usize j"
  have ab: "?a < 2 ^ d" "?b < 2 ^ d" "?a \<noteq> ?b"
    using assms(3-5) d leaf_usize_inj by (simp_all add: leaf_in_full_size)
  then have d0: "0 < d" by (cases d) auto
  obtain m where "meet_level ?a ?b m" "0 < m" "m \<le> d" using meet_level_exists [OF ab] by blast
  then obtain m where m: "meet_level ?a ?b (Suc m)" "m < d" by (cases m) auto
  have lca: "lowest_common_ancestor i j = pnode m (?a div 2 ^ Suc m)"
    using lowest_common_ancestor_eq [OF ab(1,2) _ m(1)] d(1) leaf_lnode [of i] leaf_lnode [of j] by simp
  have up: "?a div 2 ^ Suc m = ?b div 2 ^ Suc m" "?a div 2 ^ m \<noteq> ?b div 2 ^ m"
    using meet_level_iff [OF m(1), of "Suc m"] meet_level_iff [OF m(1), of m] by simp_all
  have half: "?a div 2 ^ m div 2 = ?a div 2 ^ Suc m" "?b div 2 ^ m div 2 = ?b div 2 ^ Suc m"
    by (simp_all only: power_Suc2 div_mult2_eq)
  have ind: "in_depth d (Suc m) (?a div 2 ^ Suc m)" "in_depth d m (?b div 2 ^ m)"
    using ab m(2) by (intro in_depth_leaf; simp)+
  have child: "subtree_root_copath_node i j = node m (?b div 2 ^ m)"
  proof (cases "j < i")
    case True
    then have "?b div 2 ^ m \<le> ?a div 2 ^ m"
      by (intro div_le_mono) (simp add: less_LeafNodeIndex_def leaf_usize_def word_less_nat_alt)
    then have "?b div 2 ^ m = 2 * (?a div 2 ^ Suc m)"
      using twins [of "?a div 2 ^ m" "?b div 2 ^ m"] up unfolding half by simp
    then show ?thesis using True left_pnode [OF ind(1)] d(1) by (simp add: subtree_root_copath_node_def lca)
  next
    case False
    then have "?a div 2 ^ m \<le> ?b div 2 ^ m"
      by (intro div_le_mono) (simp add: less_LeafNodeIndex_def leaf_usize_def word_less_nat_alt)
    then have "?b div 2 ^ m = 2 * (?a div 2 ^ Suc m) + 1"
      using twins [of "?b div 2 ^ m" "?a div 2 ^ m"] up unfolding half by simp
    then show ?thesis using False right_pnode [OF ind(1)] d(1) by (simp add: subtree_root_copath_node_def lca)
  qed
  have "?b div 2 ^ m = sib (?a div 2 ^ m)" using up half by (simp add: sib_eq_iff)
  moreover have "copath i (full_size d) = Some (map (\<lambda>k. node k (sib (?a div 2 ^ k))) [0..<d])"
    using copath_eq [OF d0 _ ab(1)] d(1) leaf_lnode [of i] by simp
  moreover have "parent (node m (?b div 2 ^ m)) = pnode m (?a div 2 ^ Suc m)"
    using parent_node [OF ind(2) m(2)] d(1) half(2) up(1) by simp
  ultimately show ?thesis
    using m(2) unfolding d(2) child lca by (intro exI conjI) (auto intro!: exI)
qed

theorem subtree_root_copath_node_correct_witness:
  "parent (subtree_root_copath_node (LeafNodeIndex 3) (LeafNodeIndex 0)) =
     lowest_common_ancestor (LeafNodeIndex 3) (LeafNodeIndex 0)"
proof -
  have n: "(0::u32) < 7" "(7::u32) \<le> MAX_TREE_SIZE" by simp_all
  have "tree_size_new 7 = full_size 2" by (rule tree_size_new_eq) simp_all
  then have u: "unat (size_leaf_count (tree_size_new 7)) = 4" by (simp add: unat_leaf_count)
  have b: "leaf_u32 (LeafNodeIndex 3) < size_leaf_count (tree_size_new 7)"
      "leaf_u32 (LeafNodeIndex 0) < size_leaf_count (tree_size_new 7)"
    unfolding word_less_nat_alt u by simp_all
  have "LeafNodeIndex 3 \<noteq> LeafNodeIndex 0" by simp
  from subtree_root_copath_node_correct [OF n this b] show ?thesis by blast
qed

end
