(* ===== verification/CryptoTypes.thy ===== *)
theory CryptoTypes
  imports Prelude
begin

text \<open>
  The algorithm identifiers of \<^verbatim>\<open>traits/src/types.rs\<close>, the GREASE values of
  \<^verbatim>\<open>traits/src/grease.rs\<close> and the protocol version of \<^verbatim>\<open>openmls/src/versions.rs\<close>.  The cargo
  feature \<^verbatim>\<open>draft-ietf-mls-pq-ciphersuites\<close> is the flag \<open>pq\<close> of the decoding functions; the
  data types hold the constructors of both configurations.
\<close>

section \<open>Algorithms\<close>

datatype AeadType = Aes128Gcm | Aes256Gcm | ChaCha20Poly1305

fun tag_size :: "AeadType \<Rightarrow> nat" where
  "tag_size Aes128Gcm = 16"
| "tag_size Aes256Gcm = 16"
| "tag_size ChaCha20Poly1305 = 16"

fun key_size :: "AeadType \<Rightarrow> nat" where
  "key_size Aes128Gcm = 16"
| "key_size Aes256Gcm = 32"
| "key_size ChaCha20Poly1305 = 32"

fun nonce_size :: "AeadType \<Rightarrow> nat" where
  "nonce_size Aes128Gcm = 12"
| "nonce_size Aes256Gcm = 12"
| "nonce_size ChaCha20Poly1305 = 12"

datatype HashType = Sha2_256 | Sha2_384 | Sha2_512

fun hash_size :: "HashType \<Rightarrow> nat" where
  "hash_size Sha2_256 = 32"
| "hash_size Sha2_384 = 48"
| "hash_size Sha2_512 = 64"

datatype SignatureScheme =
    ECDSA_SECP256R1_SHA256
  | ECDSA_SECP384R1_SHA384
  | ECDSA_SECP521R1_SHA512
  | ED25519
  | ED448
  | MLDSA44
  | MLDSA65
  | MLDSA87

fun signature_scheme_u16 :: "SignatureScheme \<Rightarrow> u16" where
  "signature_scheme_u16 ECDSA_SECP256R1_SHA256 = 0x0403"
| "signature_scheme_u16 ECDSA_SECP384R1_SHA384 = 0x0503"
| "signature_scheme_u16 ECDSA_SECP521R1_SHA512 = 0x0603"
| "signature_scheme_u16 ED25519 = 0x0807"
| "signature_scheme_u16 ED448 = 0x0808"
| "signature_scheme_u16 MLDSA44 = 0x0904"
| "signature_scheme_u16 MLDSA65 = 0x0905"
| "signature_scheme_u16 MLDSA87 = 0x0906"

definition signature_scheme_try_from :: "bool \<Rightarrow> u16 \<Rightarrow> SignatureScheme option" where
  "signature_scheme_try_from pq v =
     (if v = 0x0403 then Some ECDSA_SECP256R1_SHA256
      else if v = 0x0503 then Some ECDSA_SECP384R1_SHA384
      else if v = 0x0603 then Some ECDSA_SECP521R1_SHA512
      else if v = 0x0807 then Some ED25519
      else if v = 0x0808 then Some ED448
      else if pq \<and> v = 0x0904 then Some MLDSA44
      else if pq \<and> v = 0x0905 then Some MLDSA65
      else if pq \<and> v = 0x0906 then Some MLDSA87
      else None)"

datatype CryptoError =
    CryptoLibraryError | AeadDecryptionError | HpkeDecryptionError | HpkeEncryptionError
  | UnsupportedSignatureScheme | KdfLabelTooLarge | KdfSerializationError
  | HkdfOutputLengthInvalid | InsufficientRandomness | InvalidSignature
  | UnsupportedAeadAlgorithm | UnsupportedKdf | InvalidLength | UnsupportedHashAlgorithm
  | SignatureEncodingError | SignatureDecodingError | SenderSetupError | ReceiverSetupError
  | ExporterError | UnsupportedCiphersuite | TlsSerializationError | TooMuchData
  | SigningError | InvalidPublicKey

datatype HpkeKemType =
    DhKemP256 | DhKemP384 | DhKemP521 | DhKem25519 | DhKem448
  | MlKem768 | MlKem1024 | MlKem768P256 | MlKem1024P384 | XWingKemDraft6

datatype HpkeKdfType = HkdfSha256 | HkdfSha384 | HkdfSha512

datatype HpkeAeadType = AesGcm128 | AesGcm256 | HpkeChaCha20Poly1305 | Export

section \<open>Ciphersuites\<close>

datatype Ciphersuite =
    MLS_128_DHKEMX25519_AES128GCM_SHA256_Ed25519
  | MLS_128_DHKEMP256_AES128GCM_SHA256_P256
  | MLS_128_DHKEMX25519_CHACHA20POLY1305_SHA256_Ed25519
  | MLS_256_DHKEMX448_AES256GCM_SHA512_Ed448
  | MLS_256_DHKEMP521_AES256GCM_SHA512_P521
  | MLS_256_DHKEMX448_CHACHA20POLY1305_SHA512_Ed448
  | MLS_256_DHKEMP384_AES256GCM_SHA384_P384
  | MLS_256_XWING_CHACHA20POLY1305_SHA256_Ed25519
  | MLS_256_MLKEM1024_AES256GCM_SHA512_MLDSA87
  | MLS_128_MLKEM768X25519_AES128GCM_SHA256_Ed25519
  | MLS_128_MLKEM768X25519_AES256GCM_SHA384_Ed25519
  | MLS_128_MLKEM768P256_AES128GCM_SHA256_P256
  | MLS_128_MLKEM768P256_AES256GCM_SHA384_P256
  | MLS_192_MLKEM1024P384_AES256GCM_SHA384_P384
  | MLS_128_MLKEM768_AES256GCM_SHA384_Ed25519
  | MLS_128_MLKEM768_AES256GCM_SHA384_P256
  | MLS_192_MLKEM1024_AES256GCM_SHA384_P384
  | MLS_128_MLKEM768X25519_CHACHA20POLY1305_SHA384_MLDSA44
  | MLS_192_MLKEM768_AES256GCM_SHA384_MLDSA65
  | MLS_256_MLKEM1024_AES256GCM_SHA384_MLDSA87

fun ciphersuite_u16 :: "Ciphersuite \<Rightarrow> u16" where
  "ciphersuite_u16 MLS_128_DHKEMX25519_AES128GCM_SHA256_Ed25519 = 0x0001"
| "ciphersuite_u16 MLS_128_DHKEMP256_AES128GCM_SHA256_P256 = 0x0002"
| "ciphersuite_u16 MLS_128_DHKEMX25519_CHACHA20POLY1305_SHA256_Ed25519 = 0x0003"
| "ciphersuite_u16 MLS_256_DHKEMX448_AES256GCM_SHA512_Ed448 = 0x0004"
| "ciphersuite_u16 MLS_256_DHKEMP521_AES256GCM_SHA512_P521 = 0x0005"
| "ciphersuite_u16 MLS_256_DHKEMX448_CHACHA20POLY1305_SHA512_Ed448 = 0x0006"
| "ciphersuite_u16 MLS_256_DHKEMP384_AES256GCM_SHA384_P384 = 0x0007"
| "ciphersuite_u16 MLS_256_XWING_CHACHA20POLY1305_SHA256_Ed25519 = 0x004d"
| "ciphersuite_u16 MLS_256_MLKEM1024_AES256GCM_SHA512_MLDSA87 = 0x0906"
| "ciphersuite_u16 MLS_128_MLKEM768X25519_AES128GCM_SHA256_Ed25519 = 0x004f"
| "ciphersuite_u16 MLS_128_MLKEM768X25519_AES256GCM_SHA384_Ed25519 = 0x004e"
| "ciphersuite_u16 MLS_128_MLKEM768P256_AES128GCM_SHA256_P256 = 0xf050"
| "ciphersuite_u16 MLS_128_MLKEM768P256_AES256GCM_SHA384_P256 = 0xf051"
| "ciphersuite_u16 MLS_192_MLKEM1024P384_AES256GCM_SHA384_P384 = 0xf052"
| "ciphersuite_u16 MLS_128_MLKEM768_AES256GCM_SHA384_Ed25519 = 0xf042"
| "ciphersuite_u16 MLS_128_MLKEM768_AES256GCM_SHA384_P256 = 0x0050"
| "ciphersuite_u16 MLS_192_MLKEM1024_AES256GCM_SHA384_P384 = 0x0042"
| "ciphersuite_u16 MLS_128_MLKEM768X25519_CHACHA20POLY1305_SHA384_MLDSA44 = 0x0052"
| "ciphersuite_u16 MLS_192_MLKEM768_AES256GCM_SHA384_MLDSA65 = 0x0051"
| "ciphersuite_u16 MLS_256_MLKEM1024_AES256GCM_SHA384_MLDSA87 = 0x0907"

definition pq_from_u16 :: "bool \<Rightarrow> u16 \<Rightarrow> Ciphersuite option" where
  "pq_from_u16 pq v =
     (if \<not> pq then None
      else if v = 0x004D then Some MLS_256_XWING_CHACHA20POLY1305_SHA256_Ed25519
      else if v = 0x0906 then Some MLS_256_MLKEM1024_AES256GCM_SHA512_MLDSA87
      else if v = 0x004F then Some MLS_128_MLKEM768X25519_AES128GCM_SHA256_Ed25519
      else if v = 0x004E then Some MLS_128_MLKEM768X25519_AES256GCM_SHA384_Ed25519
      else if v = 0xF050 then Some MLS_128_MLKEM768P256_AES128GCM_SHA256_P256
      else if v = 0xF051 then Some MLS_128_MLKEM768P256_AES256GCM_SHA384_P256
      else if v = 0xF052 then Some MLS_192_MLKEM1024P384_AES256GCM_SHA384_P384
      else if v = 0xF042 then Some MLS_128_MLKEM768_AES256GCM_SHA384_Ed25519
      else if v = 0x0050 then Some MLS_128_MLKEM768_AES256GCM_SHA384_P256
      else if v = 0x0042 then Some MLS_192_MLKEM1024_AES256GCM_SHA384_P384
      else if v = 0x0052 then Some MLS_128_MLKEM768X25519_CHACHA20POLY1305_SHA384_MLDSA44
      else if v = 0x0051 then Some MLS_192_MLKEM768_AES256GCM_SHA384_MLDSA65
      else if v = 0x0907 then Some MLS_256_MLKEM1024_AES256GCM_SHA384_MLDSA87
      else None)"

definition ciphersuite_try_from :: "bool \<Rightarrow> u16 \<Rightarrow> Ciphersuite option" where
  "ciphersuite_try_from pq v =
     (if v = 0x0001 then Some MLS_128_DHKEMX25519_AES128GCM_SHA256_Ed25519
      else if v = 0x0002 then Some MLS_128_DHKEMP256_AES128GCM_SHA256_P256
      else if v = 0x0003 then Some MLS_128_DHKEMX25519_CHACHA20POLY1305_SHA256_Ed25519
      else if v = 0x0004 then Some MLS_256_DHKEMX448_AES256GCM_SHA512_Ed448
      else if v = 0x0005 then Some MLS_256_DHKEMP521_AES256GCM_SHA512_P521
      else if v = 0x0006 then Some MLS_256_DHKEMX448_CHACHA20POLY1305_SHA512_Ed448
      else if v = 0x0007 then Some MLS_256_DHKEMP384_AES256GCM_SHA384_P384
      else pq_from_u16 pq v)"

text \<open>
  The table of algorithms is split in two functions that refer to each other; that the mutual
  recursion ends is part of the definition.
\<close>

type_synonym CiphersuiteAlgorithms =
  "HpkeKemType \<times> HpkeKdfType \<times> AeadType \<times> HashType \<times> SignatureScheme"

definition is_classical :: "Ciphersuite \<Rightarrow> bool" where
  "is_classical c \<longleftrightarrow> c \<in> {MLS_128_DHKEMX25519_AES128GCM_SHA256_Ed25519, MLS_128_DHKEMP256_AES128GCM_SHA256_P256, MLS_128_DHKEMX25519_CHACHA20POLY1305_SHA256_Ed25519, MLS_256_DHKEMX448_AES256GCM_SHA512_Ed448, MLS_256_DHKEMP521_AES256GCM_SHA512_P521, MLS_256_DHKEMX448_CHACHA20POLY1305_SHA512_Ed448, MLS_256_DHKEMP384_AES256GCM_SHA384_P384}"

function algorithms :: "Ciphersuite \<Rightarrow> CiphersuiteAlgorithms"
  and pq_algorithms :: "Ciphersuite \<Rightarrow> CiphersuiteAlgorithms" where
  "algorithms c =
     (case c of
        MLS_128_DHKEMX25519_AES128GCM_SHA256_Ed25519 \<Rightarrow> (DhKem25519, HkdfSha256, Aes128Gcm, Sha2_256, ED25519)
      | MLS_128_DHKEMP256_AES128GCM_SHA256_P256 \<Rightarrow> (DhKemP256, HkdfSha256, Aes128Gcm, Sha2_256, ECDSA_SECP256R1_SHA256)
      | MLS_128_DHKEMX25519_CHACHA20POLY1305_SHA256_Ed25519 \<Rightarrow> (DhKem25519, HkdfSha256, ChaCha20Poly1305, Sha2_256, ED25519)
      | MLS_256_DHKEMX448_AES256GCM_SHA512_Ed448 \<Rightarrow> (DhKem448, HkdfSha512, Aes256Gcm, Sha2_512, ED448)
      | MLS_256_DHKEMP521_AES256GCM_SHA512_P521 \<Rightarrow> (DhKemP521, HkdfSha512, Aes256Gcm, Sha2_512, ECDSA_SECP521R1_SHA512)
      | MLS_256_DHKEMX448_CHACHA20POLY1305_SHA512_Ed448 \<Rightarrow> (DhKem448, HkdfSha512, ChaCha20Poly1305, Sha2_512, ED448)
      | MLS_256_DHKEMP384_AES256GCM_SHA384_P384 \<Rightarrow> (DhKemP384, HkdfSha384, Aes256Gcm, Sha2_384, ECDSA_SECP384R1_SHA384)
      | pq \<Rightarrow> pq_algorithms pq)"
| "pq_algorithms c =
     (case c of
        MLS_256_XWING_CHACHA20POLY1305_SHA256_Ed25519 \<Rightarrow> (XWingKemDraft6, HkdfSha256, ChaCha20Poly1305, Sha2_256, ED25519)
      | MLS_256_MLKEM1024_AES256GCM_SHA512_MLDSA87 \<Rightarrow> (MlKem1024, HkdfSha512, Aes256Gcm, Sha2_512, MLDSA87)
      | MLS_128_MLKEM768X25519_AES128GCM_SHA256_Ed25519 \<Rightarrow> (XWingKemDraft6, HkdfSha256, Aes128Gcm, Sha2_256, ED25519)
      | MLS_128_MLKEM768X25519_AES256GCM_SHA384_Ed25519 \<Rightarrow> (XWingKemDraft6, HkdfSha384, Aes256Gcm, Sha2_384, ED25519)
      | MLS_128_MLKEM768P256_AES128GCM_SHA256_P256 \<Rightarrow> (MlKem768P256, HkdfSha256, Aes128Gcm, Sha2_256, ECDSA_SECP256R1_SHA256)
      | MLS_128_MLKEM768P256_AES256GCM_SHA384_P256 \<Rightarrow> (MlKem768P256, HkdfSha384, Aes256Gcm, Sha2_384, ECDSA_SECP256R1_SHA256)
      | MLS_192_MLKEM1024P384_AES256GCM_SHA384_P384 \<Rightarrow> (MlKem1024P384, HkdfSha384, Aes256Gcm, Sha2_384, ECDSA_SECP384R1_SHA384)
      | MLS_128_MLKEM768_AES256GCM_SHA384_Ed25519 \<Rightarrow> (MlKem768, HkdfSha384, Aes256Gcm, Sha2_384, ED25519)
      | MLS_128_MLKEM768_AES256GCM_SHA384_P256 \<Rightarrow> (MlKem768, HkdfSha384, Aes256Gcm, Sha2_384, ECDSA_SECP256R1_SHA256)
      | MLS_192_MLKEM1024_AES256GCM_SHA384_P384 \<Rightarrow> (MlKem1024, HkdfSha384, Aes256Gcm, Sha2_384, ECDSA_SECP384R1_SHA384)
      | MLS_128_MLKEM768X25519_CHACHA20POLY1305_SHA384_MLDSA44 \<Rightarrow> (XWingKemDraft6, HkdfSha384, ChaCha20Poly1305, Sha2_384, MLDSA44)
      | MLS_192_MLKEM768_AES256GCM_SHA384_MLDSA65 \<Rightarrow> (MlKem768, HkdfSha384, Aes256Gcm, Sha2_384, MLDSA65)
      | MLS_256_MLKEM1024_AES256GCM_SHA384_MLDSA87 \<Rightarrow> (MlKem1024, HkdfSha384, Aes256Gcm, Sha2_384, MLDSA87)
      | _ \<Rightarrow> algorithms c)"
  by pat_completeness auto
termination
  by (relation "measure (\<lambda>x. case x of Inl c \<Rightarrow> if is_classical c then 0 else 1
      | Inr c \<Rightarrow> if is_classical c then 1 else 0)") (auto simp: is_classical_def)

declare algorithms.simps [simp del] pq_algorithms.simps [simp del]

definition hpke_kem_algorithm :: "Ciphersuite \<Rightarrow> HpkeKemType" where
  "hpke_kem_algorithm c = (case algorithms c of (kem, _, _, _, _) \<Rightarrow> kem)"

definition hpke_kdf_algorithm :: "Ciphersuite \<Rightarrow> HpkeKdfType" where
  "hpke_kdf_algorithm c = (case algorithms c of (_, kdf, _, _, _) \<Rightarrow> kdf)"

definition aead_algorithm :: "Ciphersuite \<Rightarrow> AeadType" where
  "aead_algorithm c = (case algorithms c of (_, _, aead, _, _) \<Rightarrow> aead)"

definition hash_algorithm :: "Ciphersuite \<Rightarrow> HashType" where
  "hash_algorithm c = (case algorithms c of (_, _, _, hash, _) \<Rightarrow> hash)"

definition signature_algorithm :: "Ciphersuite \<Rightarrow> SignatureScheme" where
  "signature_algorithm c = (case algorithms c of (_, _, _, _, sig) \<Rightarrow> sig)"

definition hpke_aead_algorithm :: "Ciphersuite \<Rightarrow> HpkeAeadType" where
  "hpke_aead_algorithm c =
     (case aead_algorithm c of
        Aes128Gcm \<Rightarrow> AesGcm128
      | Aes256Gcm \<Rightarrow> AesGcm256
      | ChaCha20Poly1305 \<Rightarrow> HpkeChaCha20Poly1305)"

definition hpke_config :: "Ciphersuite \<Rightarrow> HpkeKemType \<times> HpkeKdfType \<times> HpkeAeadType" where
  "hpke_config c = (hpke_kem_algorithm c, hpke_kdf_algorithm c, hpke_aead_algorithm c)"

definition hash_length :: "Ciphersuite \<Rightarrow> nat" where
  "hash_length c = hash_size (hash_algorithm c)"

definition mac_length :: "Ciphersuite \<Rightarrow> nat" where
  "mac_length c = tag_size (aead_algorithm c)"

definition aead_key_length :: "Ciphersuite \<Rightarrow> nat" where
  "aead_key_length c = key_size (aead_algorithm c)"

definition aead_nonce_length :: "Ciphersuite \<Rightarrow> nat" where
  "aead_nonce_length c = nonce_size (aead_algorithm c)"

section \<open>GREASE values and unknown ciphersuites\<close>

definition GREASE_VALUES :: "u16 list" where
  "GREASE_VALUES = [0x0A0A, 0x1A1A, 0x2A2A, 0x3A3A, 0x4A4A, 0x5A5A, 0x6A6A, 0x7A7A, 0x8A8A, 0x9A9A,
     0xAAAA, 0xBABA, 0xCACA, 0xDADA, 0xEAEA]"

definition is_grease_value :: "u16 \<Rightarrow> bool" where
  "is_grease_value v \<longleftrightarrow>
     v = 0x0A0A \<or> v = 0x1A1A \<or> v = 0x2A2A \<or> v = 0x3A3A \<or> v = 0x4A4A \<or> v = 0x5A5A \<or> v = 0x6A6A \<or>
     v = 0x7A7A \<or> v = 0x8A8A \<or> v = 0x9A9A \<or> v = 0xAAAA \<or> v = 0xBABA \<or> v = 0xCACA \<or> v = 0xDADA \<or>
     v = 0xEAEA"

text \<open>One random byte picks the value.\<close>

definition random_grease_value :: "u8 \<Rightarrow> u16" where
  "random_grease_value b = GREASE_VALUES ! unat (b mod of_nat (length GREASE_VALUES))"

datatype VerifiableCiphersuite = VerifiableCiphersuite (verifiable_value: u16)

definition verifiable_is_grease :: "VerifiableCiphersuite \<Rightarrow> bool" where
  "verifiable_is_grease v = is_grease_value (verifiable_value v)"

definition verifiable_from :: "Ciphersuite \<Rightarrow> VerifiableCiphersuite" where
  "verifiable_from c = VerifiableCiphersuite (ciphersuite_u16 c)"

definition ciphersuite_of_verifiable :: "bool \<Rightarrow> VerifiableCiphersuite \<Rightarrow> Ciphersuite option" where
  "ciphersuite_of_verifiable pq v = ciphersuite_try_from pq (verifiable_value v)"

section \<open>Protocol version\<close>

datatype ProtocolVersion = Mls10 | OtherVersion u16

definition protocol_version_from :: "u16 \<Rightarrow> ProtocolVersion" where
  "protocol_version_from v = (if v = 1 then Mls10 else OtherVersion v)"

text \<open>The value written on the wire; \<open>OtherVersion 1\<close> is refused.\<close>

fun protocol_version_serialize :: "ProtocolVersion \<Rightarrow> u16 option" where
  "protocol_version_serialize Mls10 = Some 1"
| "protocol_version_serialize (OtherVersion v) = (if v = 1 then None else Some v)"

section \<open>Properties\<close>

lemma algorithms_case:

  shows "algorithms MLS_128_DHKEMX25519_AES128GCM_SHA256_Ed25519 = (DhKem25519, HkdfSha256, Aes128Gcm, Sha2_256, ED25519)"
    "algorithms MLS_128_DHKEMP256_AES128GCM_SHA256_P256 = (DhKemP256, HkdfSha256, Aes128Gcm, Sha2_256, ECDSA_SECP256R1_SHA256)"
    "algorithms MLS_128_DHKEMX25519_CHACHA20POLY1305_SHA256_Ed25519 = (DhKem25519, HkdfSha256, ChaCha20Poly1305, Sha2_256, ED25519)"
    "algorithms MLS_256_DHKEMX448_AES256GCM_SHA512_Ed448 = (DhKem448, HkdfSha512, Aes256Gcm, Sha2_512, ED448)"
    "algorithms MLS_256_DHKEMP521_AES256GCM_SHA512_P521 = (DhKemP521, HkdfSha512, Aes256Gcm, Sha2_512, ECDSA_SECP521R1_SHA512)"
    "algorithms MLS_256_DHKEMX448_CHACHA20POLY1305_SHA512_Ed448 = (DhKem448, HkdfSha512, ChaCha20Poly1305, Sha2_512, ED448)"
    "algorithms MLS_256_DHKEMP384_AES256GCM_SHA384_P384 = (DhKemP384, HkdfSha384, Aes256Gcm, Sha2_384, ECDSA_SECP384R1_SHA384)"
    "algorithms MLS_256_XWING_CHACHA20POLY1305_SHA256_Ed25519 = (XWingKemDraft6, HkdfSha256, ChaCha20Poly1305, Sha2_256, ED25519)"
    "algorithms MLS_256_MLKEM1024_AES256GCM_SHA512_MLDSA87 = (MlKem1024, HkdfSha512, Aes256Gcm, Sha2_512, MLDSA87)"
    "algorithms MLS_128_MLKEM768X25519_AES128GCM_SHA256_Ed25519 = (XWingKemDraft6, HkdfSha256, Aes128Gcm, Sha2_256, ED25519)"
    "algorithms MLS_128_MLKEM768X25519_AES256GCM_SHA384_Ed25519 = (XWingKemDraft6, HkdfSha384, Aes256Gcm, Sha2_384, ED25519)"
    "algorithms MLS_128_MLKEM768P256_AES128GCM_SHA256_P256 = (MlKem768P256, HkdfSha256, Aes128Gcm, Sha2_256, ECDSA_SECP256R1_SHA256)"
    "algorithms MLS_128_MLKEM768P256_AES256GCM_SHA384_P256 = (MlKem768P256, HkdfSha384, Aes256Gcm, Sha2_384, ECDSA_SECP256R1_SHA256)"
    "algorithms MLS_192_MLKEM1024P384_AES256GCM_SHA384_P384 = (MlKem1024P384, HkdfSha384, Aes256Gcm, Sha2_384, ECDSA_SECP384R1_SHA384)"
    "algorithms MLS_128_MLKEM768_AES256GCM_SHA384_Ed25519 = (MlKem768, HkdfSha384, Aes256Gcm, Sha2_384, ED25519)"
    "algorithms MLS_128_MLKEM768_AES256GCM_SHA384_P256 = (MlKem768, HkdfSha384, Aes256Gcm, Sha2_384, ECDSA_SECP256R1_SHA256)"
    "algorithms MLS_192_MLKEM1024_AES256GCM_SHA384_P384 = (MlKem1024, HkdfSha384, Aes256Gcm, Sha2_384, ECDSA_SECP384R1_SHA384)"
    "algorithms MLS_128_MLKEM768X25519_CHACHA20POLY1305_SHA384_MLDSA44 = (XWingKemDraft6, HkdfSha384, ChaCha20Poly1305, Sha2_384, MLDSA44)"
    "algorithms MLS_192_MLKEM768_AES256GCM_SHA384_MLDSA65 = (MlKem768, HkdfSha384, Aes256Gcm, Sha2_384, MLDSA65)"
    "algorithms MLS_256_MLKEM1024_AES256GCM_SHA384_MLDSA87 = (MlKem1024, HkdfSha384, Aes256Gcm, Sha2_384, MLDSA87)"
  by (simp_all add: algorithms.simps pq_algorithms.simps)

lemmas ciphersuite_simps = algorithms_case hpke_kem_algorithm_def hpke_kdf_algorithm_def
  aead_algorithm_def hash_algorithm_def signature_algorithm_def hpke_aead_algorithm_def
  hash_length_def mac_length_def aead_key_length_def aead_nonce_length_def

lemma aead_nonce_length_12 [simp]: "aead_nonce_length c = 12"
  by (cases "aead_algorithm c") (simp_all add: aead_nonce_length_def)

lemma ciphersuite_lengths:
  "0 < hash_length c" "hash_length c \<le> 64" "0 < aead_key_length c" "aead_key_length c \<le> 32"
  by (cases "hash_algorithm c"; simp add: hash_length_def)+
    (cases "aead_algorithm c"; simp add: aead_key_length_def)+

lemma ciphersuite_decode: "ciphersuite_try_from True (ciphersuite_u16 c) = Some c"
  by (cases c) (simp_all add: ciphersuite_try_from_def pq_from_u16_def)

lemma ciphersuite_encode: "ciphersuite_try_from pq v = Some c \<Longrightarrow> v = ciphersuite_u16 c"
  by (auto simp: ciphersuite_try_from_def pq_from_u16_def split: if_splits)

lemma ciphersuite_classical: "ciphersuite_try_from False (ciphersuite_u16 c) = (if is_classical c then Some c else None)"
  by (cases c) (simp_all add: ciphersuite_try_from_def pq_from_u16_def is_classical_def)

lemma ciphersuite_not_grease: "\<not> is_grease_value (ciphersuite_u16 c)"
  by (cases c) (simp_all add: is_grease_value_def)

text \<open>
  C10: the code points of the ciphersuites are unambiguous.  With the post-quantum
  ciphersuites compiled in, decoding a 16-bit value yields a ciphersuite exactly if the value
  is the code point of that ciphersuite; without them, exactly the seven classical
  ciphersuites are decoded.  No code point is a GREASE value.
\<close>

theorem ciphersuite_code_points:
  "(ciphersuite_try_from True v = Some c \<longleftrightarrow> v = ciphersuite_u16 c) \<and>
   (ciphersuite_try_from False v = Some c \<longleftrightarrow> v = ciphersuite_u16 c \<and> is_classical c) \<and>
   \<not> verifiable_is_grease (verifiable_from c) \<and>
   ciphersuite_of_verifiable True (verifiable_from c) = Some c"
  using ciphersuite_encode [of True v c] ciphersuite_encode [of False v c]
  by (auto simp: ciphersuite_decode ciphersuite_classical ciphersuite_not_grease verifiable_is_grease_def
      verifiable_from_def ciphersuite_of_verifiable_def split: if_splits)

lemma signature_scheme_code_points:
  "signature_scheme_try_from True v = Some s \<longleftrightarrow> v = signature_scheme_u16 s"
  by (cases s) (auto simp: signature_scheme_try_from_def split: if_splits)

lemma protocol_version_roundtrip:
  "protocol_version_serialize pv = Some v \<Longrightarrow> protocol_version_from v = pv"
  by (cases pv) (auto simp: protocol_version_from_def split: if_splits)

lemma grease_values_iff: "is_grease_value v \<longleftrightarrow> v \<in> set GREASE_VALUES"
  by (simp add: is_grease_value_def GREASE_VALUES_def)

lemma random_grease_value_is_grease: "is_grease_value (random_grease_value b)"
proof -
  have "unat (b mod of_nat (length GREASE_VALUES)) < length GREASE_VALUES"
    by (simp add: GREASE_VALUES_def unat_mod_distrib)
  then show ?thesis unfolding random_grease_value_def grease_values_iff by (rule nth_mem)
qed


end
