(* ===== verification/Secrets.thy ===== *)
theory Secrets
  imports CryptoTypes TreeMath
begin

text \<open>
  Secrets and what is derived from them: \<^verbatim>\<open>ciphersuite/secret.rs\<close>, \<^verbatim>\<open>kdf_label.rs\<close>,
  \<^verbatim>\<open>aead.rs\<close>, \<^verbatim>\<open>mac.rs\<close>, \<^verbatim>\<open>reuse_guard.rs\<close> and \<^verbatim>\<open>equal_ct\<close> of \<^verbatim>\<open>mod.rs\<close>.

  The cryptographic backend (the trait \<^verbatim>\<open>OpenMlsCrypto\<close>, implemented by other crates) and the
  derived TLS encoding of a KDF label are the fields of the record \<open>OpenMlsCrypto\<close>, a
  parameter of every function that uses them.  What is relied on is stated by
  \<open>hkdf_lengths\<close>, \<open>hkdf_total\<close>, \<open>aead_inverse\<close> and \<open>ff1_injective\<close>.
\<close>

section \<open>The backend\<close>

record OpenMlsCrypto =
  crypto_hkdf_extract :: "HashType \<Rightarrow> bytes \<Rightarrow> bytes \<Rightarrow> CryptoError + bytes"
  crypto_hmac :: "HashType \<Rightarrow> bytes \<Rightarrow> bytes \<Rightarrow> CryptoError + bytes"
  crypto_hkdf_expand :: "HashType \<Rightarrow> bytes \<Rightarrow> bytes \<Rightarrow> nat \<Rightarrow> CryptoError + bytes"
  crypto_aead_encrypt :: "AeadType \<Rightarrow> bytes \<Rightarrow> bytes \<Rightarrow> bytes \<Rightarrow> bytes \<Rightarrow> CryptoError + bytes"
  crypto_aead_decrypt :: "AeadType \<Rightarrow> bytes \<Rightarrow> bytes \<Rightarrow> bytes \<Rightarrow> bytes \<Rightarrow> CryptoError + bytes"
  crypto_ff1_aes128_encrypt :: "bytes \<Rightarrow> u32 \<Rightarrow> CryptoError + u32"
  tls_kdf_label :: "u16 \<Rightarrow> bytes \<Rightarrow> bytes \<Rightarrow> bytes option"

text \<open>Documented behaviour: HKDF-Expand returns as many bytes as requested.\<close>

definition hkdf_lengths :: "OpenMlsCrypto \<Rightarrow> bool" where
  "hkdf_lengths crypto \<longleftrightarrow>
     (\<forall>h prk info n okm. crypto_hkdf_expand crypto h prk info n = Inr okm \<longrightarrow> length okm = n)"

text \<open>
  Documented behaviour: HKDF-Expand only fails on an unsupported hash or on an output of more
  than 255 hash lengths, and a KDF label with fields below the limit of a variable-size vector
  can be encoded.
\<close>

definition hkdf_total :: "OpenMlsCrypto \<Rightarrow> bool" where
  "hkdf_total crypto \<longleftrightarrow>
     (\<forall>h prk info n. n \<le> 255 * hash_size h \<longrightarrow> (\<exists>okm. crypto_hkdf_expand crypto h prk info n = Inr okm)) \<and>
     (\<forall>n l c. length l < 2 ^ 30 \<longrightarrow> length c < 2 ^ 30 \<longrightarrow> (\<exists>bs. tls_kdf_label crypto n l c = Some bs))"

text \<open>Documented behaviour: opening a sealed message returns the message.\<close>

definition aead_inverse :: "OpenMlsCrypto \<Rightarrow> bool" where
  "aead_inverse crypto \<longleftrightarrow>
     (\<forall>alg key msg nonce aad ct. crypto_aead_encrypt crypto alg key msg nonce aad = Inr ct \<longrightarrow>
        crypto_aead_decrypt crypto alg key ct nonce aad = Inr msg)"

text \<open>Documented behaviour: FF1 is a permutation of the 32-bit integers for every key.\<close>

definition ff1_injective :: "OpenMlsCrypto \<Rightarrow> bool" where
  "ff1_injective crypto \<longleftrightarrow>
     (\<forall>key x y z. crypto_ff1_aes128_encrypt crypto key x = Inr z \<longrightarrow>
        crypto_ff1_aes128_encrypt crypto key y = Inr z \<longrightarrow> x = y)"

fun backend :: "CryptoError + 'a \<Rightarrow> ('a, CryptoError) outcome" where
  "backend (Inl e) = throw e"
| "backend (Inr x) = Inr x"

section \<open>Byte strings\<close>

definition to_be_bytes :: "u32 \<Rightarrow> bytes" where
  "to_be_bytes x = [ucast (drop_bit 24 x), ucast (drop_bit 16 x), ucast (drop_bit 8 x), ucast x]"

definition equal_ct :: "bytes \<Rightarrow> bytes \<Rightarrow> bool" where
  "equal_ct a b \<longleftrightarrow>
     (if length a \<noteq> length b then False
      else fold (\<lambda>(l, r) diff. diff OR (l XOR r)) (zip a b) 0 = 0)"

section \<open>Secrets\<close>

datatype Secret = Secret (secret_value: bytes)

definition secret_zero :: "Ciphersuite \<Rightarrow> Secret" where
  "secret_zero cs = Secret (replicate (hash_length cs) 0)"

definition secret_eq :: "Secret \<Rightarrow> Secret \<Rightarrow> bool" where
  "secret_eq s t = equal_ct (secret_value s) (secret_value t)"

definition hkdf_extract ::
  "OpenMlsCrypto \<Rightarrow> Ciphersuite \<Rightarrow> Secret \<Rightarrow> Secret option \<Rightarrow> (Secret, CryptoError) outcome" where
  "hkdf_extract crypto cs salt ikm_option =
     (let ikm = (case ikm_option of None \<Rightarrow> secret_zero cs | Some s \<Rightarrow> s) in
      and_then (backend (crypto_hkdf_extract crypto (hash_algorithm cs) (secret_value salt) (secret_value ikm)))
        (\<lambda>v. Inr (Secret v)))"

definition hmac :: "OpenMlsCrypto \<Rightarrow> Ciphersuite \<Rightarrow> Secret \<Rightarrow> Secret \<Rightarrow> (Secret, CryptoError) outcome" where
  "hmac crypto cs key message =
     and_then (backend (crypto_hmac crypto (hash_algorithm cs) (secret_value key) (secret_value message)))
       (\<lambda>v. Inr (Secret v))"

definition hkdf_expand ::
  "OpenMlsCrypto \<Rightarrow> Ciphersuite \<Rightarrow> Secret \<Rightarrow> bytes \<Rightarrow> nat \<Rightarrow> (Secret, CryptoError) outcome" where
  "hkdf_expand crypto cs prk info okm_len =
     and_then
       (map_err (\<lambda>_. CryptoLibraryError)
         (backend (crypto_hkdf_expand crypto (hash_algorithm cs) (secret_value prk) info okm_len)))
       (\<lambda>key. if key = [] then throw InvalidLength else Inr (Secret key))"

definition serialized_label ::
  "OpenMlsCrypto \<Rightarrow> bytes \<Rightarrow> string \<Rightarrow> nat \<Rightarrow> (bytes, CryptoError) outcome" where
  "serialized_label crypto context label len =
     (if len > 65535 then throw KdfLabelTooLarge
      else ok_or (tls_kdf_label crypto (of_nat len) (str_bytes label) context) KdfSerializationError)"

definition kdf_expand_label ::
  "OpenMlsCrypto \<Rightarrow> Ciphersuite \<Rightarrow> Secret \<Rightarrow> string \<Rightarrow> bytes \<Rightarrow> nat \<Rightarrow> (Secret, CryptoError) outcome" where
  "kdf_expand_label crypto cs s label context len =
     (let full_label = ''MLS 1.0 '' @ label in
      and_then (serialized_label crypto context full_label len)
        (\<lambda>info. hkdf_expand crypto cs s info len))"

definition derive_secret ::
  "OpenMlsCrypto \<Rightarrow> Ciphersuite \<Rightarrow> Secret \<Rightarrow> string \<Rightarrow> (Secret, CryptoError) outcome" where
  "derive_secret crypto cs s label = kdf_expand_label crypto cs s label [] (hash_length cs)"

section \<open>MACs\<close>

datatype Mac = Mac (mac_value: bytes)

definition mac_new :: "OpenMlsCrypto \<Rightarrow> Ciphersuite \<Rightarrow> Secret \<Rightarrow> bytes \<Rightarrow> (Mac, CryptoError) outcome" where
  "mac_new crypto cs key message =
     and_then (hmac crypto cs key (Secret message)) (\<lambda>s. Inr (Mac (secret_value s)))"

definition mac_eq :: "Mac \<Rightarrow> Mac \<Rightarrow> bool" where
  "mac_eq a b = equal_ct (mac_value a) (mac_value b)"

section \<open>AEAD keys and nonces\<close>

definition NONCE_BYTES :: nat where
  "NONCE_BYTES = 12"

record AeadKey =
  aead_mode :: AeadType
  aead_value :: bytes

datatype AeadNonce = AeadNonce (nonce_bytes: bytes)

definition aead_key_from_secret :: "Secret \<Rightarrow> Ciphersuite \<Rightarrow> AeadKey" where
  "aead_key_from_secret s cs = \<lparr>aead_mode = aead_algorithm cs, aead_value = secret_value s\<rparr>"

text \<open>\<^verbatim>\<open>clone_from_slice\<close> panics when the lengths differ.\<close>

definition aead_nonce_from_secret :: "Secret \<Rightarrow> (AeadNonce, 'e) outcome" where
  "aead_nonce_from_secret s =
     (if length (secret_value s) = NONCE_BYTES then Inr (AeadNonce (secret_value s)) else Inl Panics)"

definition aead_seal ::
  "OpenMlsCrypto \<Rightarrow> AeadKey \<Rightarrow> bytes \<Rightarrow> bytes \<Rightarrow> AeadNonce \<Rightarrow> (bytes, CryptoError) outcome" where
  "aead_seal crypto k msg aad nonce =
     map_err (\<lambda>_. CryptoLibraryError)
       (backend (crypto_aead_encrypt crypto (aead_mode k) (aead_value k) msg (nonce_bytes nonce) aad))"

definition aead_open ::
  "OpenMlsCrypto \<Rightarrow> AeadKey \<Rightarrow> bytes \<Rightarrow> bytes \<Rightarrow> AeadNonce \<Rightarrow> (bytes, CryptoError) outcome" where
  "aead_open crypto k ciphertext aad nonce =
     map_err (\<lambda>_. AeadDecryptionError)
       (backend (crypto_aead_decrypt crypto (aead_mode k) (aead_value k) ciphertext (nonce_bytes nonce) aad))"

definition REUSE_GUARD_BYTES :: nat where
  "REUSE_GUARD_BYTES = 4"

datatype ReuseGuard = ReuseGuard (guard_value: bytes)

definition xor_with_reuse_guard :: "AeadNonce \<Rightarrow> ReuseGuard \<Rightarrow> AeadNonce" where
  "xor_with_reuse_guard nonce guard =
     AeadNonce (fold (\<lambda>i n. n[i := n ! i XOR guard_value guard ! i]) [0..<REUSE_GUARD_BYTES] (nonce_bytes nonce))"

section \<open>The reuse guard of a virtual client\<close>

datatype ReuseGuardDerivationError =
    GuardVirtualClients CryptoError
  | GuardHashOutputLengthMismatch nat nat
  | GuardLibrary string

definition PRP_KEY_LEN :: nat where
  "PRP_KEY_LEN = 16"

definition derive_prp_key ::
  "OpenMlsCrypto \<Rightarrow> Ciphersuite \<Rightarrow> Secret \<Rightarrow> bytes \<Rightarrow> (bytes, ReuseGuardDerivationError) outcome" where
  "derive_prp_key crypto cs s key_schedule_nonce =
     and_then (map_err GuardVirtualClients
         (kdf_expand_label crypto cs s ''reuse guard'' key_schedule_nonce PRP_KEY_LEN))
       (\<lambda>key. if length (secret_value key) = PRP_KEY_LEN then Inr (secret_value key)
              else throw (GuardHashOutputLengthMismatch (length (secret_value key)) PRP_KEY_LEN))"

text \<open>
  Rejection sampling.  \<open>rand n\<close> is the answer to the \<open>n\<close>-th request for four random bytes, \<open>None\<close>
  when the source fails; the loop may in principle run forever.
\<close>

partial_function (option) sample_below ::
  "nat \<Rightarrow> (nat \<Rightarrow> u32 option) \<Rightarrow> nat \<Rightarrow> (nat, ReuseGuardDerivationError) outcome option" where
  "sample_below full rand n =
     (case rand n of
        None \<Rightarrow> Some (throw (GuardLibrary ''rand failure''))
      | Some c \<Rightarrow> if unat c < full then Some (Inr (unat c)) else sample_below full rand (n + 1))"

declare sample_below.simps [code]

definition emulator_x :: "nat \<Rightarrow> nat \<Rightarrow> nat \<Rightarrow> u32" where
  "emulator_x r n_e leaf_index_e = of_nat (r div n_e * n_e + leaf_index_e)"

definition for_emulator_sender ::
  "OpenMlsCrypto \<Rightarrow> (nat \<Rightarrow> u32 option) \<Rightarrow> Secret \<Rightarrow> Ciphersuite \<Rightarrow> AeadNonce \<Rightarrow> LeafNodeIndex \<Rightarrow> TreeSize \<Rightarrow>
     (ReuseGuard, ReuseGuardDerivationError) outcome" where
  "for_emulator_sender crypto rand s cs ratchet_nonce leaf sz =
     (let n_e = unat (size_leaf_count sz); leaf_index_e = leaf_usize leaf in
      if n_e = 0 then throw (GuardLibrary ''emulation_group_size is zero'')
      else if leaf_index_e \<ge> n_e then
        throw (GuardLibrary ''emulation_leaf_index is out of range for the emulation group'')
      else
        (let full = 2 ^ 32 div n_e * n_e in
         case sample_below full rand 0 of
           None \<Rightarrow> Inl Diverges
         | Some sampled \<Rightarrow>
             and_then sampled (\<lambda>r.
               let x = emulator_x r n_e leaf_index_e in
               and_then (derive_prp_key crypto cs s (nonce_bytes ratchet_nonce)) (\<lambda>prp_key.
               and_then (map_err (\<lambda>_. GuardLibrary ''FF1 encrypt failed'')
                   (backend (crypto_ff1_aes128_encrypt crypto prp_key x))) (\<lambda>permuted.
               Inr (ReuseGuard (to_be_bytes permuted)))))))"

section \<open>Properties\<close>

lemma xor_u8: "(x XOR y = 0) = (x = y)" "x XOR (x XOR y) = y" for x y :: u8
  by (auto simp: bit_eq_iff bit_xor_iff)

lemma fold_or_zero:
  "fold (\<lambda>(l, r) diff. diff OR (l XOR r)) ps d = (0 :: u8) \<longleftrightarrow> d = 0 \<and> (\<forall>(l, r) \<in> set ps. l = r)"
proof (induction ps arbitrary: d)
  case (Cons p ps)
  obtain l r where p: "p = (l, r)" by (cases p)
  have "d OR (l XOR r) = 0 \<longleftrightarrow> d = 0 \<and> l = r"
    using xor_u8(1) [of l r] by (simp only: or_eq_0_iff)
  then show ?case by (simp add: Cons.IH p)
qed simp

lemma equal_ct_iff: "equal_ct a b \<longleftrightarrow> a = b"
  by (auto simp: equal_ct_def fold_or_zero set_zip list_eq_iff_nth_eq)

lemma backend_Inr [outcome_simps]: "backend r = Inr x \<longleftrightarrow> r = Inr x"
  by (cases r) auto

lemma kdf_expand_label_length:
  assumes "hkdf_lengths crypto" and "kdf_expand_label crypto cs s label context len = Inr t"
  shows "length (secret_value t) = len"
  using assms unfolding hkdf_lengths_def
  by (auto simp: kdf_expand_label_def hkdf_expand_def outcome_simps Let_def split: if_splits)

lemma kdf_expand_label_succeeds:
  assumes "hkdf_lengths crypto" "hkdf_total crypto" and "0 < len" "len \<le> 255 * hash_length cs" "len \<le> 65535"
    and "length label < 1000" "length context < 2 ^ 30"
  obtains t where "kdf_expand_label crypto cs s label context len = Inr t" "length (secret_value t) = len"
proof -
  have "\<exists>bs. tls_kdf_label crypto (of_nat len) (str_bytes (''MLS 1.0 '' @ label)) context = Some bs"
    using assms(2,6,7) unfolding hkdf_total_def by (elim conjE allE impE) (auto simp: str_bytes_def)
  then obtain info where info: "serialized_label crypto context (''MLS 1.0 '' @ label) len = Inr info"
    using assms(5) by (auto simp: serialized_label_def)
  obtain okm where okm: "crypto_hkdf_expand crypto (hash_algorithm cs) (secret_value s) info len = Inr okm"
    using assms(2,4) unfolding hkdf_total_def hash_length_def by blast
  then have "length okm = len" using assms(1) unfolding hkdf_lengths_def by blast
  then show ?thesis
    using that [of "Secret okm"] info okm assms(3) by (auto simp: kdf_expand_label_def hkdf_expand_def)
qed

lemma aead_open_seal:
  "aead_inverse crypto \<Longrightarrow> aead_seal crypto k msg aad nonce = Inr ct \<Longrightarrow> aead_open crypto k ct aad nonce = Inr msg"
  unfolding aead_inverse_def aead_seal_def aead_open_def by (auto simp: outcome_simps)

text \<open>The guard changes the first four bytes of the nonce only, byte by byte.\<close>

lemma xor_with_reuse_guard_nth:
  assumes "length (nonce_bytes n) = NONCE_BYTES" and "length (guard_value g) = REUSE_GUARD_BYTES"
  shows "nonce_bytes (xor_with_reuse_guard n g) =
    map2 (XOR) (take 4 (nonce_bytes n)) (guard_value g) @ drop 4 (nonce_bytes n)"
proof -
  have "Suc (Suc (Suc (Suc 0))) \<le> length (nonce_bytes n)" using assms(1) by (simp add: NONCE_BYTES_def)
  then obtain a b c d ns where n: "nonce_bytes n = a # b # c # d # ns"
    by (auto simp: Suc_le_length_iff)
  have "length (guard_value g) = Suc (Suc (Suc (Suc 0)))" using assms(2) by (simp add: REUSE_GUARD_BYTES_def)
  then obtain w x y z where g: "guard_value g = [w, x, y, z]"
    by (auto simp: length_Suc_conv)
  have r: "[0..<4] = [0, 1, 2, 3 :: nat]" by (simp add: upt_conv_Cons)
  show ?thesis unfolding xor_with_reuse_guard_def REUSE_GUARD_BYTES_def n g r by simp
qed

lemma map2_xor_cancel:
  "length xs = length ys \<Longrightarrow> length ys = length zs \<Longrightarrow> map2 (XOR) xs ys = map2 (XOR) xs (zs :: bytes) \<Longrightarrow> ys = zs"
proof (induction xs ys zs rule: list_induct3)
  case (Cons x xs y ys z zs)
  have "x XOR y = x XOR z" using Cons.prems by simp
  then have "y = z" by (metis xor_u8(2))
  moreover have "ys = zs" using Cons.IH Cons.prems by simp
  ultimately show ?case by simp
qed simp_all

lemma xor_with_reuse_guard_inj:
  assumes "length (nonce_bytes n) = NONCE_BYTES"
    and "length (guard_value g) = REUSE_GUARD_BYTES" "length (guard_value h) = REUSE_GUARD_BYTES"
    and "xor_with_reuse_guard n g = xor_with_reuse_guard n h"
  shows "g = h"
proof -
  have eq: "map2 (XOR) (take 4 (nonce_bytes n)) (guard_value g) = map2 (XOR) (take 4 (nonce_bytes n)) (guard_value h)"
    by (metis append_same_eq assms(4) xor_with_reuse_guard_nth [OF assms(1,2)] xor_with_reuse_guard_nth [OF assms(1,3)])
  have "length (take 4 (nonce_bytes n)) = length (guard_value g)" "length (guard_value g) = length (guard_value h)"
    using assms(1-3) by (simp_all add: NONCE_BYTES_def REUSE_GUARD_BYTES_def)
  then have "guard_value g = guard_value h" using eq by (rule map2_xor_cancel)
  then show ?thesis by (simp add: ReuseGuard.expand)
qed

lemma to_be_bytes_inj:
  assumes "to_be_bytes x = to_be_bytes y" shows "x = y"
proof -
  have b: "bit x (8 * k + m) = bit y (8 * k + m)"
    if "ucast (drop_bit (8 * k) x) = (ucast (drop_bit (8 * k) y) :: u8)" "m < 8" for k m
  proof -
    have "bit (ucast (drop_bit (8 * k) x) :: u8) m = bit (ucast (drop_bit (8 * k) y) :: u8) m" using that by simp
    then show ?thesis using that(2) by (simp add: bit_ucast_iff bit_drop_bit_eq)
  qed
  have e: "ucast (drop_bit (8 * k) x) = (ucast (drop_bit (8 * k) y) :: u8)" if "k < 4" for k
  proof -
    have "k = 0 \<or> k = 1 \<or> k = 2 \<or> k = 3" using that by arith
    then show ?thesis using assms by (auto simp: to_be_bytes_def)
  qed
  show ?thesis
  proof (rule bit_word_eqI)
    fix n assume "n < LENGTH(32)"
    then have "n div 8 < 4" "n mod 8 < 8" by simp_all
    then have "bit x (8 * (n div 8) + n mod 8) = bit y (8 * (n div 8) + n mod 8)" using b e by blast
    then show "bit x n = bit y n" by simp
  qed
qed

lemma sample_below_first: "rand n = Some c \<Longrightarrow> unat c < full \<Longrightarrow> sample_below full rand n = Some (Inr (unat c))"
  by (simp add: sample_below.simps)

lemma sample_below_result:
  assumes "sample_below full rand n = Some res" shows "\<forall>r. res = Inr r \<longrightarrow> r < full"
  by (rule sample_below.raw_induct [of "\<lambda>full rand n res. \<forall>r. res = Inr r \<longrightarrow> r < full", OF _ assms])
    (fastforce split: option.splits if_splits)

lemma emulator_x_mod:
  assumes "0 < n" "l < n" "n \<le> 2 ^ 32" "r < 2 ^ 32 div n * n"
  shows "unat (emulator_x r n l) mod n = l"
proof -
  have "r div n < 2 ^ 32 div n" using assms(1,4) by (simp add: less_mult_imp_div_less)
  then have "(r div n + 1) * n \<le> 2 ^ 32 div n * n" by (intro mult_le_mono1) simp
  also have "\<dots> \<le> 2 ^ 32" by simp
  finally have "r div n * n + l < 2 ^ 32" using assms(2) by simp
  then have "unat (emulator_x r n l) = r div n * n + l" unfolding emulator_x_def by (rule unat_of_nat_u32)
  then show ?thesis using assms(2) by simp
qed

lemma for_emulator_sender_Inr:
  assumes "for_emulator_sender crypto rand s cs nonce leaf sz = Inr g"
  obtains r key y where "leaf_usize leaf < unat (size_leaf_count sz)"
    "r < 2 ^ 32 div unat (size_leaf_count sz) * unat (size_leaf_count sz)"
    "derive_prp_key crypto cs s (nonce_bytes nonce) = Inr key"
    "crypto_ff1_aes128_encrypt crypto key (emulator_x r (unat (size_leaf_count sz)) (leaf_usize leaf)) = Inr y"
    "g = ReuseGuard (to_be_bytes y)"
proof -
  let ?n = "unat (size_leaf_count sz)"
  from assms obtain res where res: "leaf_usize leaf < ?n" "sample_below (2 ^ 32 div ?n * ?n) rand 0 = Some res"
    "and_then res (\<lambda>r. and_then (derive_prp_key crypto cs s (nonce_bytes nonce)) (\<lambda>key.
       and_then (map_err (\<lambda>_. GuardLibrary ''FF1 encrypt failed'')
         (backend (crypto_ff1_aes128_encrypt crypto key (emulator_x r ?n (leaf_usize leaf))))) (\<lambda>y.
       Inr (ReuseGuard (to_be_bytes y))))) = Inr g"
    unfolding for_emulator_sender_def Let_def by (auto split: if_splits option.splits)
  from res(3) show ?thesis
    using that res(1) sample_below_result [OF res(2)] by (auto simp only: outcome_simps sum.inject)
qed

text \<open>
  C12: the emulators of a virtual client never collide on a message nonce.  Two different
  leaves of the emulation group that derive a reuse guard for the same ratchet nonce under the
  same secret get different guards, whatever randomness each of them draws, and the nonces
  they encrypt with differ; this relies on FF1 being a permutation.
\<close>

theorem emulator_nonces_disjoint:
  assumes "ff1_injective crypto" and "i \<noteq> j" and "length (nonce_bytes nonce) = NONCE_BYTES"
    and "for_emulator_sender crypto rand s cs nonce i sz = Inr g"
    and "for_emulator_sender crypto rand' s cs nonce j sz = Inr h"
  shows "g \<noteq> h \<and> xor_with_reuse_guard nonce g \<noteq> xor_with_reuse_guard nonce h"
proof -
  let ?n = "unat (size_leaf_count sz)"
  obtain r key y where i: "leaf_usize i < ?n" "r < 2 ^ 32 div ?n * ?n"
    "derive_prp_key crypto cs s (nonce_bytes nonce) = Inr key"
    "crypto_ff1_aes128_encrypt crypto key (emulator_x r ?n (leaf_usize i)) = Inr y" "g = ReuseGuard (to_be_bytes y)"
    using assms(4) by (rule for_emulator_sender_Inr)
  obtain r' key' z where j: "leaf_usize j < ?n" "r' < 2 ^ 32 div ?n * ?n"
    "derive_prp_key crypto cs s (nonce_bytes nonce) = Inr key'"
    "crypto_ff1_aes128_encrypt crypto key' (emulator_x r' ?n (leaf_usize j)) = Inr z" "h = ReuseGuard (to_be_bytes z)"
    using assms(5) by (rule for_emulator_sender_Inr)
  have n: "0 < ?n" "?n \<le> 2 ^ 32" using i(1) unsigned_less [where w = "size_leaf_count sz" and ?'a = nat] by simp_all
  have "emulator_x r ?n (leaf_usize i) \<noteq> emulator_x r' ?n (leaf_usize j)"
    using emulator_x_mod [OF n(1) i(1) n(2) i(2)] emulator_x_mod [OF n(1) j(1) n(2) j(2)] assms(2) leaf_usize_inj
    by metis
  then have "y \<noteq> z" using assms(1) i(3,4) j(3,4) unfolding ff1_injective_def by auto
  then have "g \<noteq> h" using to_be_bytes_inj i(5) j(5) by auto
  moreover have "length (guard_value g) = REUSE_GUARD_BYTES" "length (guard_value h) = REUSE_GUARD_BYTES"
    by (simp_all add: i(5) j(5) to_be_bytes_def REUSE_GUARD_BYTES_def)
  ultimately show ?thesis using xor_with_reuse_guard_inj assms(3) by blast
qed

text \<open>
  C13: the rejection sampling of the reuse guard always ends after one request: the number of
  leaves of a tree is a power of two, hence divides the range of a 32-bit integer and no
  candidate is ever rejected.  With a working random source and backend the derivation returns
  a guard for every leaf of the emulation group.
\<close>

theorem emulator_guard_one_request:
  assumes "0 < n" and "n \<le> MAX_TREE_SIZE" and "leaf_u32 i < size_leaf_count (tree_size_new n)"
    and "rand 0 = Some c" and "hkdf_lengths crypto" and "hkdf_total crypto"
    and "length (nonce_bytes nonce) = NONCE_BYTES"
    and "\<forall>key x. \<exists>y. crypto_ff1_aes128_encrypt crypto key x = Inr y"
  shows "\<exists>y. for_emulator_sender crypto rand s cs nonce i (tree_size_new n) = Inr (ReuseGuard (to_be_bytes y))"
proof -
  obtain d where d: "d \<le> 29" "tree_size_new n = full_size d" using full_size_of_nodes [OF assms(1,2)] by metis
  let ?sz = "tree_size_new n" and ?n = "unat (size_leaf_count (tree_size_new n))"
  have n: "?n = 2 ^ d" using d by (simp add: unat_leaf_count)
  have "(2::nat) ^ 32 = 2 ^ (32 - d) * 2 ^ d" using d(1) by (simp only: power_add [symmetric]) simp
  then have full: "2 ^ 32 div ?n * ?n = 2 ^ 32" unfolding n by (metis dvd_div_mult_self dvd_triv_right)
  have "unat c < 2 ^ 32" using unsigned_less [where w = c and ?'a = nat] by simp
  then have samp: "sample_below (2 ^ 32) rand 0 = Some (Inr (unat c))" using assms(4) by (intro sample_below_first)
  have leaf: "leaf_usize i < ?n" using assms(3) by (simp add: leaf_usize_def word_less_nat_alt)
  have len: "0 < PRP_KEY_LEN" "PRP_KEY_LEN \<le> 255 * hash_length cs" "PRP_KEY_LEN \<le> 65535"
    using ciphersuite_lengths(1) [of cs] by (simp_all add: PRP_KEY_LEN_def)
  obtain t where t: "kdf_expand_label crypto cs s ''reuse guard'' (nonce_bytes nonce) PRP_KEY_LEN = Inr t"
      "length (secret_value t) = PRP_KEY_LEN"
    by (rule kdf_expand_label_succeeds [OF assms(5,6) len, of "''reuse guard''" "nonce_bytes nonce" s])
      (simp_all add: assms(7) NONCE_BYTES_def)
  obtain y where y: "crypto_ff1_aes128_encrypt crypto (secret_value t) (emulator_x (unat c) ?n (leaf_usize i)) = Inr y"
    using assms(8) by blast
  have "for_emulator_sender crypto rand s cs nonce i ?sz = Inr (ReuseGuard (to_be_bytes y))"
    using leaf unfolding for_emulator_sender_def Let_def full by (simp add: samp [simplified] t y derive_prp_key_def)
  then show ?thesis ..
qed

section \<open>A concrete backend\<close>

text \<open>
  A toy backend, used to show that the hypotheses about a backend can hold together.
\<close>

definition toy_expand :: "bytes \<Rightarrow> bytes \<Rightarrow> nat \<Rightarrow> bytes" where
  "toy_expand prk info n = map (\<lambda>i. foldr (\<lambda>b acc. b + 3 * acc) (prk @ info) (of_nat i)) [0..<n]"

definition toy_crypto :: OpenMlsCrypto where
  "toy_crypto = \<lparr>
     crypto_hkdf_extract = (\<lambda>h salt ikm. Inr (toy_expand salt ikm (hash_size h))),
     crypto_hmac = (\<lambda>h key msg. Inr (toy_expand key msg (hash_size h))),
     crypto_hkdf_expand = (\<lambda>h prk info n. Inr (toy_expand prk info n)),
     crypto_aead_encrypt = (\<lambda>alg key msg nonce aad. Inr (map (\<lambda>b. b + 1) msg)),
     crypto_aead_decrypt = (\<lambda>alg key ct nonce aad. Inr (map (\<lambda>b. b - 1) ct)),
     crypto_ff1_aes128_encrypt = (\<lambda>key x. Inr (x + 1)),
     tls_kdf_label = (\<lambda>n l c. Some (ucast n # l @ c))\<rparr>"

lemma toy_crypto_ok:
  "hkdf_lengths toy_crypto" "hkdf_total toy_crypto" "aead_inverse toy_crypto" "ff1_injective toy_crypto"
  by (auto simp: hkdf_lengths_def hkdf_total_def aead_inverse_def ff1_injective_def toy_crypto_def toy_expand_def comp_def)

lemma toy_crypto_ff1: "crypto_ff1_aes128_encrypt toy_crypto key x = Inr (x + 1)"
  by (simp add: toy_crypto_def)

abbreviation suite1 :: Ciphersuite where
  "suite1 \<equiv> MLS_128_DHKEMX25519_AES128GCM_SHA256_Ed25519"

lemma leaf_in_small_tree: "tree_size_new 7 = full_size 2" "unat (size_leaf_count (tree_size_new 7)) = 4"
proof -
  show "tree_size_new 7 = full_size 2" by (rule tree_size_new_eq) simp_all
  then show "unat (size_leaf_count (tree_size_new 7)) = 4" by (simp add: unat_leaf_count)
qed

theorem emulator_guard_one_request_witness:
  "\<exists>y. for_emulator_sender toy_crypto (\<lambda>_. Some 9) (Secret [1]) suite1 (AeadNonce (replicate 12 0)) (LeafNodeIndex 1)
     (tree_size_new 7) = Inr (ReuseGuard (to_be_bytes y))"
proof (rule emulator_guard_one_request)
  show "leaf_u32 (LeafNodeIndex 1) < size_leaf_count (tree_size_new 7)"
    unfolding word_less_nat_alt leaf_in_small_tree(2) by simp
  show "\<forall>key x. \<exists>y. crypto_ff1_aes128_encrypt toy_crypto key x = Inr y" by (simp add: toy_crypto_def)
qed (simp_all add: toy_crypto_ok NONCE_BYTES_def)

lemma small_emulator_runs:
  assumes "unat (leaf_u32 i) < 4"
  obtains g where "for_emulator_sender toy_crypto (\<lambda>_. Some 9) (Secret [1]) suite1 (AeadNonce (replicate 12 0)) i
     (tree_size_new 7) = Inr g"
proof -
  let ?n = "unat (size_leaf_count (tree_size_new 7))"
  have "sample_below (2 ^ 32) (\<lambda>_. Some 9) 0 = Some (Inr 9)" using sample_below_first [of "\<lambda>_. Some 9" 0 9 "2 ^ 32"] by simp
  moreover obtain key where "derive_prp_key toy_crypto suite1 (Secret [1]) (replicate 12 0) = Inr key"
    by (simp add: derive_prp_key_def kdf_expand_label_def serialized_label_def hkdf_expand_def toy_crypto_def toy_expand_def
        PRP_KEY_LEN_def Let_def)
  ultimately show ?thesis
    using assms that unfolding for_emulator_sender_def Let_def leaf_in_small_tree(2)
    by (simp add: leaf_usize_def toy_crypto_ff1)
qed

theorem emulator_nonces_disjoint_witness:
  "\<exists>g h. for_emulator_sender toy_crypto (\<lambda>_. Some 9) (Secret [1]) suite1 (AeadNonce (replicate 12 0)) (LeafNodeIndex 1)
       (tree_size_new 7) = Inr g \<and>
     for_emulator_sender toy_crypto (\<lambda>_. Some 9) (Secret [1]) suite1 (AeadNonce (replicate 12 0)) (LeafNodeIndex 2)
       (tree_size_new 7) = Inr h \<and>
     xor_with_reuse_guard (AeadNonce (replicate 12 0)) g \<noteq> xor_with_reuse_guard (AeadNonce (replicate 12 0)) h"
proof -
  obtain g where g: "for_emulator_sender toy_crypto (\<lambda>_. Some 9) (Secret [1]) suite1 (AeadNonce (replicate 12 0))
      (LeafNodeIndex 1) (tree_size_new 7) = Inr g" using small_emulator_runs [of "LeafNodeIndex 1"] by auto
  obtain h where h: "for_emulator_sender toy_crypto (\<lambda>_. Some 9) (Secret [1]) suite1 (AeadNonce (replicate 12 0))
      (LeafNodeIndex 2) (tree_size_new 7) = Inr h" using small_emulator_runs [of "LeafNodeIndex 2"] by auto
  have "LeafNodeIndex 1 \<noteq> LeafNodeIndex 2" "length (nonce_bytes (AeadNonce (replicate 12 0))) = NONCE_BYTES"
    by (simp_all add: NONCE_BYTES_def)
  from emulator_nonces_disjoint [OF toy_crypto_ok(4) this g h] g h show ?thesis by blast
qed

end
