(* ===== verification/StepSystem.thy ===== *)
theory StepSystem
  imports Prelude
begin

text \<open>
  Sequences of operations on a component.  A component is a step function from an operation
  and a state to a result and the next state.  Two interfaces are used by the components: an
  invariant that every operation keeps, and one-time tokens, of which each can be obtained at
  most once.
\<close>

fun run_ops :: "('op \<Rightarrow> 's \<Rightarrow> 'r \<times> 's) \<Rightarrow> 'op list \<Rightarrow> 's \<Rightarrow> 'r list \<times> 's" where
  "run_ops step [] s = ([], s)"
| "run_ops step (op # ops) s =
     (let (r, s') = step op s; (rs, s'') = run_ops step ops s' in (r # rs, s''))"

lemma run_ops_Cons [simp]:
  "fst (run_ops step (op # ops) s) = fst (step op s) # fst (run_ops step ops (snd (step op s)))"
  "snd (run_ops step (op # ops) s) = snd (run_ops step ops (snd (step op s)))"
  by (simp_all add: Let_def case_prod_unfold)

declare run_ops.simps(2) [simp del]

lemma length_run_ops [simp]: "length (fst (run_ops step ops s)) = length ops"
  by (induction ops arbitrary: s) simp_all

lemma run_ops_append:
  "fst (run_ops step (ops @ ops') s) =
     fst (run_ops step ops s) @ fst (run_ops step ops' (snd (run_ops step ops s)))"
  "snd (run_ops step (ops @ ops') s) = snd (run_ops step ops' (snd (run_ops step ops s)))"
  by (induction ops arbitrary: s) simp_all

locale invariant_steps =
  fixes step :: "'op \<Rightarrow> 's \<Rightarrow> 'r \<times> 's"
    and inv :: "'s \<Rightarrow> bool"
  assumes inv_step: "inv s \<Longrightarrow> inv (snd (step op s))"
begin

lemma inv_run: "inv s \<Longrightarrow> inv (snd (run_ops step ops s))"
proof (induction ops arbitrary: s)
  case (Cons op ops)
  then show ?case using inv_step [of s op] by simp
qed simp

lemma result_of_step:
  assumes "inv s" and "i < length ops"
  obtains t where "inv t" "fst (run_ops step ops s) ! i = fst (step (ops ! i) t)"
  using assms
proof (induction ops arbitrary: s i thesis)
  case (Cons op ops)
  obtain r s' where st: "step op s = (r, s')" by (cases "step op s")
  have inv': "inv s'" using inv_step [OF Cons.prems(2), of op] st by simp
  show ?case
  proof (cases i)
    case 0
    then show ?thesis using Cons.prems st by auto
  next
    case (Suc k)
    then obtain t where "inv t" "fst (run_ops step ops s') ! k = fst (step (ops ! k) t)"
      using Cons.IH [OF _ inv'] Cons.prems(3) by auto
    then show ?thesis using Cons.prems(1) Suc st by auto
  qed
qed simp

end

text \<open>
  One-time tokens: \<open>grants op r\<close> is the token that operation \<open>op\<close> hands out with result \<open>r\<close>, if
  any, and \<open>spent k s\<close> tells that token \<open>k\<close> cannot be had any more in state \<open>s\<close>.
\<close>

locale one_time = invariant_steps +
  fixes grants :: "'op \<Rightarrow> 'r \<Rightarrow> 'k option"
    and spent :: "'k \<Rightarrow> 's \<Rightarrow> bool"
  assumes spends: "inv s \<Longrightarrow> grants op (fst (step op s)) = Some k \<Longrightarrow> \<not> spent k s \<and> spent k (snd (step op s))"
    and stays_spent: "inv s \<Longrightarrow> spent k s \<Longrightarrow> spent k (snd (step op s))"
begin

lemma spent_never_granted:
  "inv s \<Longrightarrow> spent k s \<Longrightarrow> i < length ops \<Longrightarrow> grants (ops ! i) (fst (run_ops step ops s) ! i) \<noteq> Some k"
proof (induction ops arbitrary: s i)
  case (Cons op ops)
  have s': "inv (snd (step op s))" "spent k (snd (step op s))"
    using inv_step [of s op] stays_spent [of s k op] Cons.prems by auto
  show ?case
  proof (cases i)
    case 0
    then show ?thesis using spends [of s op k] Cons.prems by auto
  next
    case (Suc j)
    then show ?thesis using Cons.IH [OF s', of j] Cons.prems by auto
  qed
qed simp

lemma granted_at_most_once:
  "inv s \<Longrightarrow> i < j \<Longrightarrow> j < length ops \<Longrightarrow> grants (ops ! i) (fst (run_ops step ops s) ! i) = Some k \<Longrightarrow>
     grants (ops ! j) (fst (run_ops step ops s) ! j) \<noteq> Some k"
proof (induction ops arbitrary: s i j)
  case (Cons op ops)
  have inv': "inv (snd (step op s))" using inv_step [of s op] Cons.prems(1) by simp
  obtain j' where j: "j = Suc j'" using Cons.prems(2) by (cases j) auto
  show ?case
  proof (cases i)
    case 0
    then have "spent k (snd (step op s))" using spends [of s op k] Cons.prems by simp
    then show ?thesis using spent_never_granted [OF inv', of k j' ops] Cons.prems j by simp
  next
    case (Suc i')
    then show ?thesis using Cons.IH [OF inv', of i' j'] Cons.prems j by simp
  qed
qed simp

lemma granted_unique:
  assumes "inv s" and "i < length ops" and "j < length ops"
    and "grants (ops ! i) (fst (run_ops step ops s) ! i) = Some k"
    and "grants (ops ! j) (fst (run_ops step ops s) ! j) = Some k"
  shows "i = j"
  using granted_at_most_once [of s i j ops k] granted_at_most_once [of s j i ops k] assms
  by (cases i j rule: linorder_cases) auto

end

text \<open>
  Simulation of an abstract specification: \<open>rel\<close> relates the states, \<open>next\<close> is the abstract step and
  \<open>allowed\<close> tells which results the specification permits.
\<close>

locale simulation =
  fixes step :: "'op \<Rightarrow> 's \<Rightarrow> 'r \<times> 's"
    and next_state :: "'op \<Rightarrow> 'a \<Rightarrow> 'a"
    and allowed :: "'op \<Rightarrow> 'a \<Rightarrow> 'r \<Rightarrow> bool"
    and rel :: "'s \<Rightarrow> 'a \<Rightarrow> bool"
  assumes sim_result: "rel s a \<Longrightarrow> allowed op a (fst (step op s))"
    and sim_state: "rel s a \<Longrightarrow> rel (snd (step op s)) (next_state op a)"
begin

lemma sim_run: "rel s a \<Longrightarrow> rel (snd (run_ops step ops s)) (fold next_state ops a)"
  by (induction ops arbitrary: s a) (simp_all add: sim_state)

lemma sim_results:
  "rel s a \<Longrightarrow> i < length ops \<Longrightarrow>
     allowed (ops ! i) (fold next_state (take i ops) a) (fst (run_ops step ops s) ! i)"
proof (induction ops arbitrary: s a i)
  case (Cons op ops)
  then show ?case using sim_state [OF Cons.prems(1), of op] by (cases i) (simp_all add: sim_result)
qed simp

end

end
