(* ===== verification/SenderRatchet.thy ===== *)
theory SenderRatchet
  imports Secrets StepSystem
begin

text \<open>
  The symmetric ratchets of \<^verbatim>\<open>tree/sender_ratchet.rs\<close>: the ratchet chain that yields one
  AEAD key and nonce per generation, and the decryption ratchet that hands out the key of a
  generation once, tolerating reordered and lost messages within the configured window.
  \<^verbatim>\<open>derive_tree_secret\<close> and \<^verbatim>\<open>SecretTreeError\<close> are from \<^verbatim>\<open>tree/secret_tree.rs\<close>.

  The reference is the chain itself: \<open>chain_secret\<close> and \<open>generation_keys\<close> say which key belongs
  to a generation of a ratchet started from a given secret, and the abstract state of a
  decryption ratchet is its head and the set of earlier generations still available.
\<close>

section \<open>Configuration and errors\<close>

type_synonym Generation = u32

record SenderRatchetConfiguration =
  out_of_order_tolerance :: Generation
  maximum_forward_distance :: Generation

definition default_configuration :: SenderRatchetConfiguration where
  "default_configuration = \<lparr>out_of_order_tolerance = 5, maximum_forward_distance = 1000\<rparr>"

datatype SecretTreeError =
    TooDistantInThePast
  | TooDistantInTheFuture
  | IndexOutOfBounds
  | SecretReuseError
  | RatchetTypeError
  | RatchetTooLong
  | LibraryError
  | CodecError
  | CryptoErr CryptoError

definition derive_tree_secret ::
  "Ciphersuite \<Rightarrow> Secret \<Rightarrow> string \<Rightarrow> u32 \<Rightarrow> nat \<Rightarrow> OpenMlsCrypto \<Rightarrow> (Secret, SecretTreeError) outcome" where
  "derive_tree_secret cs secret label generation len crypto =
     map_err CryptoErr (kdf_expand_label crypto cs secret label (to_be_bytes generation) len)"

section \<open>The ratchet chain\<close>

type_synonym RatchetKeyMaterial = "AeadKey \<times> AeadNonce"

record RatchetSecret =
  rs_secret :: Secret
  rs_generation :: Generation

definition initial_ratchet_secret :: "Secret \<Rightarrow> RatchetSecret" where
  "initial_ratchet_secret s = \<lparr>rs_secret = s, rs_generation = 0\<rparr>"

definition ratchet_forward ::
  "OpenMlsCrypto \<Rightarrow> Ciphersuite \<Rightarrow> (RatchetSecret, Generation \<times> RatchetKeyMaterial, SecretTreeError) mutator" where
  "ratchet_forward crypto cs self =
     (if rs_generation self = U32_MAX then (throw RatchetTooLong, self)
      else
        case derive_tree_secret cs (rs_secret self) ''nonce'' (rs_generation self) (aead_nonce_length cs) crypto of
          Inl f \<Rightarrow> (Inl f, self)
        | Inr nonce \<Rightarrow>
        (case derive_tree_secret cs (rs_secret self) ''key'' (rs_generation self) (aead_key_length cs) crypto of
          Inl f \<Rightarrow> (Inl f, self)
        | Inr key \<Rightarrow>
        (case derive_tree_secret cs (rs_secret self) ''secret'' (rs_generation self) (hash_length cs) crypto of
          Inl f \<Rightarrow> (Inl f, self)
        | Inr secret \<Rightarrow>
          (let generation = rs_generation self;
               self = self\<lparr>rs_secret := secret, rs_generation := rs_generation self + 1\<rparr>
           in (and_then (aead_nonce_from_secret nonce) (\<lambda>n.
                 Inr (generation, (aead_key_from_secret key cs, n))), self)))))"

section \<open>The decryption ratchet\<close>

record DecryptionRatchet =
  past_secrets :: "RatchetKeyMaterial option list"
  ratchet_head :: RatchetSecret

datatype PeekedGeneration =
    Forward Generation RatchetSecret "RatchetKeyMaterial list"
  | Past Generation

definition decryption_ratchet_new :: "Secret \<Rightarrow> DecryptionRatchet" where
  "decryption_ratchet_new s = \<lparr>past_secrets = [], ratchet_head = initial_ratchet_secret s\<rparr>"

text \<open>The loop over the skipped generations, newest secret first.\<close>

fun skip_generations ::
  "OpenMlsCrypto \<Rightarrow> Ciphersuite \<Rightarrow> nat \<Rightarrow> nat \<Rightarrow> RatchetSecret \<Rightarrow> RatchetKeyMaterial list \<Rightarrow>
     (RatchetSecret \<times> RatchetKeyMaterial list, SecretTreeError) outcome" where
  "skip_generations crypto cs tolerance 0 head skipped = Inr (head, skipped)"
| "skip_generations crypto cs tolerance (Suc n) head skipped =
     (case ratchet_forward crypto cs head of
        (Inl f, _) \<Rightarrow> Inl f
      | (Inr (_, key_material), head') \<Rightarrow>
          skip_generations crypto cs tolerance n head' (take tolerance (key_material # skipped)))"

definition past_secret_index :: "DecryptionRatchet \<Rightarrow> Generation \<Rightarrow> (nat, SecretTreeError) outcome" where
  "past_secret_index self generation =
     (let window_index = uint (rs_generation (ratchet_head self)) - uint generation - 1 in
      if window_index < 0 then throw TooDistantInThePast else Inr (nat window_index))"

text \<open>The guard at the start of \<^verbatim>\<open>peek\<close>, in 32-bit arithmetic.\<close>

definition too_distant_in_the_future :: "Generation \<Rightarrow> Generation \<Rightarrow> SenderRatchetConfiguration \<Rightarrow> bool" where
  "too_distant_in_the_future head generation configuration \<longleftrightarrow>
     head < U32_MAX - maximum_forward_distance configuration \<and>
     generation > head + maximum_forward_distance configuration"

definition peek ::
  "Ciphersuite \<Rightarrow> OpenMlsCrypto \<Rightarrow> Generation \<Rightarrow> SenderRatchetConfiguration \<Rightarrow> DecryptionRatchet \<Rightarrow>
     (RatchetKeyMaterial \<times> PeekedGeneration, SecretTreeError) outcome" where
  "peek cs crypto generation configuration self =
     (let head_generation = rs_generation (ratchet_head self) in
      if too_distant_in_the_future head_generation generation configuration then throw TooDistantInTheFuture
      else if generation < head_generation \<and> head_generation - generation > out_of_order_tolerance configuration
        then throw TooDistantInThePast
      else if generation \<ge> head_generation then
        and_then (skip_generations crypto cs (unat (out_of_order_tolerance configuration))
            (unat (generation - head_generation)) (ratchet_head self) []) (\<lambda>(head, skipped).
          case ratchet_forward crypto cs head of
            (Inl f, _) \<Rightarrow> Inl f
          | (Inr (_, key_material), head') \<Rightarrow> Inr (key_material, Forward head_generation head' skipped))
      else
        and_then (past_secret_index self generation) (\<lambda>index.
        and_then (ok_or (vec_get (past_secrets self) index) IndexOutOfBounds) (\<lambda>entry.
        and_then (ok_or entry SecretReuseError) (\<lambda>key_material.
          Inr (key_material, Past generation)))))"

definition consume ::
  "PeekedGeneration \<Rightarrow> SenderRatchetConfiguration \<Rightarrow> (DecryptionRatchet, unit, SecretTreeError) mutator" where
  "consume peeked configuration self =
     (case peeked of
        Forward from_head head skipped \<Rightarrow>
          if from_head \<noteq> rs_generation (ratchet_head self) then (throw LibraryError, self)
          else
            (let past = fold (\<lambda>key_material past. Some key_material # past) (rev skipped) (past_secrets self);
                 past = None # past
             in (Inr (), self\<lparr>ratchet_head := head,
                  past_secrets := take (unat (out_of_order_tolerance configuration)) past\<rparr>))
      | Past generation \<Rightarrow>
          (case past_secret_index self generation of
             Inl f \<Rightarrow> (Inl f, self)
           | Inr index \<Rightarrow>
               (case vec_get (past_secrets self) index of
                  None \<Rightarrow> (throw IndexOutOfBounds, self)
                | Some entry \<Rightarrow>
                    (case entry of None \<Rightarrow> throw SecretReuseError | Some _ \<Rightarrow> Inr (),
                     self\<lparr>past_secrets := (past_secrets self)[index := None]\<rparr>))))"

definition ratchet_secret_for_decryption ::
  "Ciphersuite \<Rightarrow> OpenMlsCrypto \<Rightarrow> Generation \<Rightarrow> SenderRatchetConfiguration \<Rightarrow>
     (DecryptionRatchet, RatchetKeyMaterial, SecretTreeError) mutator" where
  "ratchet_secret_for_decryption cs crypto generation configuration self =
     (case peek cs crypto generation configuration self of
        Inl f \<Rightarrow> (Inl f, self)
      | Inr (ratchet_secrets, peeked) \<Rightarrow>
          (case consume peeked configuration self of
             (Inl f, self') \<Rightarrow> (Inl f, self')
           | (Inr _, self') \<Rightarrow> (Inr ratchet_secrets, self')))"

section \<open>The keys of a ratchet\<close>

text \<open>The secret of generation \<open>g\<close> of a ratchet that starts with \<open>s\<close>, and the keys of the generation.\<close>

fun chain_secret ::
  "OpenMlsCrypto \<Rightarrow> Ciphersuite \<Rightarrow> Secret \<Rightarrow> nat \<Rightarrow> (Secret, SecretTreeError) outcome" where
  "chain_secret crypto cs s 0 = Inr s"
| "chain_secret crypto cs s (Suc g) =
     and_then (chain_secret crypto cs s g) (\<lambda>t.
       derive_tree_secret cs t ''secret'' (of_nat g) (hash_length cs) crypto)"

definition generation_keys ::
  "OpenMlsCrypto \<Rightarrow> Ciphersuite \<Rightarrow> Secret \<Rightarrow> nat \<Rightarrow> (RatchetKeyMaterial, SecretTreeError) outcome" where
  "generation_keys crypto cs s g =
     and_then (chain_secret crypto cs s g) (\<lambda>t.
     and_then (derive_tree_secret cs t ''nonce'' (of_nat g) (aead_nonce_length cs) crypto) (\<lambda>nonce.
     and_then (derive_tree_secret cs t ''key'' (of_nat g) (aead_key_length cs) crypto) (\<lambda>key.
     and_then (aead_nonce_from_secret nonce) (\<lambda>n.
       Inr (aead_key_from_secret key cs, n)))))"

definition ratchet_at :: "OpenMlsCrypto \<Rightarrow> Ciphersuite \<Rightarrow> Secret \<Rightarrow> RatchetSecret \<Rightarrow> bool" where
  "ratchet_at crypto cs s r \<longleftrightarrow> chain_secret crypto cs s (unat (rs_generation r)) = Inr (rs_secret r)"

lemma ratchet_at_initial [simp]: "ratchet_at crypto cs s (initial_ratchet_secret s)"
  by (simp add: ratchet_at_def initial_ratchet_secret_def)

lemma ratchet_forward_Inr:
  assumes "ratchet_at crypto cs s r" and "ratchet_forward crypto cs r = (Inr (g, km), r')"
  shows "g = rs_generation r" "unat (rs_generation r') = Suc (unat g)" "ratchet_at crypto cs s r'"
    "generation_keys crypto cs s (unat g) = Inr km"
proof -
  from assms(2) obtain nonce key t n where d: "rs_generation r \<noteq> U32_MAX"
      "derive_tree_secret cs (rs_secret r) ''nonce'' (rs_generation r) (aead_nonce_length cs) crypto = Inr nonce"
      "derive_tree_secret cs (rs_secret r) ''key'' (rs_generation r) (aead_key_length cs) crypto = Inr key"
      "derive_tree_secret cs (rs_secret r) ''secret'' (rs_generation r) (hash_length cs) crypto = Inr t"
      "aead_nonce_from_secret nonce = (Inr n :: (AeadNonce, SecretTreeError) outcome)" "g = rs_generation r" "km = (aead_key_from_secret key cs, n)"
      "r' = r\<lparr>rs_secret := t, rs_generation := rs_generation r + 1\<rparr>"
    unfolding ratchet_forward_def Let_def
    by (auto simp: outcome_simps split: if_splits sum.splits)
  then show "g = rs_generation r" "unat (rs_generation r') = Suc (unat g)"
    by (simp_all add: unat_plus1_u32)
  then show "ratchet_at crypto cs s r'" "generation_keys crypto cs s (unat g) = Inr km"
    using assms(1) d by (simp_all add: ratchet_at_def generation_keys_def)
qed

lemma ratchet_forward_Inl:
  assumes "ratchet_at crypto cs s r" and "ratchet_forward crypto cs r = (Inl f, r')"
  shows "r' = r \<or> f = Panics \<and> ratchet_at crypto cs s r' \<and> unat (rs_generation r') = Suc (unat (rs_generation r))"
proof (cases "r' = r")
  case False
  with assms(2) obtain n t where d: "rs_generation r \<noteq> U32_MAX"
      "derive_tree_secret cs (rs_secret r) ''secret'' (rs_generation r) (hash_length cs) crypto = Inr t"
      "and_then (aead_nonce_from_secret n) (\<lambda>n. Inr (rs_generation r, (aead_key_from_secret undefined cs, n))) =
         (Inl f :: (Generation \<times> RatchetKeyMaterial, SecretTreeError) outcome)"
      "r' = r\<lparr>rs_secret := t, rs_generation := rs_generation r + 1\<rparr>"
    unfolding ratchet_forward_def Let_def by (auto simp: and_then_Inl split: if_splits sum.splits)
  then show ?thesis
    using assms(1) by (auto simp: ratchet_at_def unat_plus1_u32 aead_nonce_from_secret_def split: if_splits)
qed simp

lemma ratchet_forward_error: "ratchet_forward crypto cs r = (Inl (Throws e), r') \<Longrightarrow> r' = r"
  unfolding ratchet_forward_def Let_def aead_nonce_from_secret_def
  by (auto simp: outcome_simps split: if_splits sum.splits)

lemma skip_generations_Inr:
  assumes "ratchet_at crypto cs s r" and "skip_generations crypto cs tol n r acc = Inr (r', sk)"
    and "length acc \<le> tol"
  shows "unat (rs_generation r') = unat (rs_generation r) + n \<and> ratchet_at crypto cs s r' \<and>
    (\<exists>kms. length kms = n \<and>
      (\<forall>k < n. generation_keys crypto cs s (unat (rs_generation r) + k) = Inr (kms ! k)) \<and>
      sk = take tol (rev kms @ acc))"
  using assms
proof (induction n arbitrary: r acc)
  case (Suc n)
  from Suc.prems(2) obtain g km t where f: "ratchet_forward crypto cs r = (Inr (g, km), t)"
      "skip_generations crypto cs tol n t (take tol (km # acc)) = Inr (r', sk)"
    by (auto split: sum.splits prod.splits)
  note fw = ratchet_forward_Inr [OF Suc.prems(1) f(1)]
  obtain kms where ih: "unat (rs_generation r') = unat (rs_generation t) + n" "ratchet_at crypto cs s r'"
      "length kms = n" "\<forall>k < n. generation_keys crypto cs s (unat (rs_generation t) + k) = Inr (kms ! k)"
      "sk = take tol (rev kms @ take tol (km # acc))"
    using Suc.IH [OF fw(3) f(2)] by auto
  have "\<forall>k < Suc n. generation_keys crypto cs s (unat (rs_generation r) + k) = Inr ((km # kms) ! k)"
    using ih(4) fw by (auto simp: nth_Cons split: nat.split)
  moreover have "sk = take tol (rev (km # kms) @ acc)"
    using ih(5) by (simp add: take_Cons' min_def)
  ultimately show ?case using ih(1-3) fw(1,2) by (intro conjI exI [of _ "km # kms"]) auto
qed auto

lemma derive_tree_secret_succeeds:
  assumes "hkdf_lengths crypto" "hkdf_total crypto" "0 < len" "len \<le> 64" "length label < 1000"
  obtains t where "derive_tree_secret cs s label g len crypto = Inr t" "length (secret_value t) = len"
proof -
  have "len \<le> 255 * hash_length cs" "len \<le> 65535" using assms(4) ciphersuite_lengths(1) [of cs] by simp_all
  then obtain t where "kdf_expand_label crypto cs s label (to_be_bytes g) len = Inr t" "length (secret_value t) = len"
    using assms(5) by (elim kdf_expand_label_succeeds [OF assms(1-3), rotated 4]) (simp_all add: to_be_bytes_def)
  then show ?thesis using that by (simp add: derive_tree_secret_def)
qed

lemma ratchet_forward_succeeds:
  assumes "hkdf_lengths crypto" "hkdf_total crypto" "rs_generation r \<noteq> U32_MAX"
  obtains km r' where "ratchet_forward crypto cs r = (Inr (rs_generation r, km), r')"
proof -
  have l: "0 < hash_length cs" "hash_length cs \<le> 64" "0 < aead_key_length cs" "aead_key_length cs \<le> 64"
    using ciphersuite_lengths [of cs] by simp_all
  obtain n where n: "derive_tree_secret cs (rs_secret r) ''nonce'' (rs_generation r) (aead_nonce_length cs) crypto = Inr n"
      "length (secret_value n) = 12"
    by (rule derive_tree_secret_succeeds [OF assms(1,2), of 12 "''nonce''" cs]) auto
  obtain k where k: "derive_tree_secret cs (rs_secret r) ''key'' (rs_generation r) (aead_key_length cs) crypto = Inr k"
    by (rule derive_tree_secret_succeeds [OF assms(1,2) l(3,4), of "''key''" cs]) auto
  obtain t where t: "derive_tree_secret cs (rs_secret r) ''secret'' (rs_generation r) (hash_length cs) crypto = Inr t"
    by (rule derive_tree_secret_succeeds [OF assms(1,2) l(1,2), of "''secret''" cs]) auto
  show ?thesis
    using that assms(3) n k t by (simp add: ratchet_forward_def aead_nonce_from_secret_def NONCE_BYTES_def)
qed

lemma ratchet_forward_limit: "rs_generation r = U32_MAX \<Longrightarrow> ratchet_forward crypto cs r = (throw RatchetTooLong, r)"
  by (simp add: ratchet_forward_def)

section \<open>The abstract window\<close>

text \<open>
  The next generation of the ratchet, how many earlier generations it still tracks, and which
  of them are still available.
\<close>

record window =
  w_head :: nat
  w_length :: nat
  w_available :: "nat set"

definition ratchet_window :: "DecryptionRatchet \<Rightarrow> window" where
  "ratchet_window dr =
     (let h = unat (rs_generation (ratchet_head dr)); n = length (past_secrets dr) in
      \<lparr>w_head = h, w_length = n,
       w_available = {g. g < h \<and> h - 1 - g < n \<and> past_secrets dr ! (h - 1 - g) \<noteq> None}\<rparr>)"

text \<open>What asking for a generation does to the window.\<close>

definition window_request :: "SenderRatchetConfiguration \<Rightarrow> nat \<Rightarrow> (window, unit, SecretTreeError) mutator" where
  "window_request cfg g w =
     (let tolerance = unat (out_of_order_tolerance cfg); distance = unat (maximum_forward_distance cfg) in
      if g > w_head w + distance then (throw TooDistantInTheFuture, w)
      else if g < w_head w \<and> w_head w - g > tolerance then (throw TooDistantInThePast, w)
      else if w_head w \<le> g then
        (if g = 2 ^ 32 - 1 then (throw RatchetTooLong, w)
         else (Inr (), \<lparr>w_head = g + 1, w_length = min tolerance (w_length w + (g + 1 - w_head w)),
                 w_available = {a \<in> w_available w \<union> {w_head w..<g}. g - a < tolerance}\<rparr>))
      else if w_length w \<le> w_head w - 1 - g then (throw IndexOutOfBounds, w)
      else if g \<in> w_available w then (Inr (), w\<lparr>w_available := w_available w - {g}\<rparr>)
      else (throw SecretReuseError, w))"

definition ratchet_ok :: "OpenMlsCrypto \<Rightarrow> Ciphersuite \<Rightarrow> Secret \<Rightarrow> DecryptionRatchet \<Rightarrow> bool" where
  "ratchet_ok crypto cs s dr \<longleftrightarrow>
     ratchet_at crypto cs s (ratchet_head dr) \<and>
     length (past_secrets dr) \<le> unat (rs_generation (ratchet_head dr)) \<and>
     (\<forall>k < length (past_secrets dr). \<forall>km. past_secrets dr ! k = Some km \<longrightarrow>
        generation_keys crypto cs s (unat (rs_generation (ratchet_head dr)) - 1 - k) = Inr km)"

lemma ratchet_ok_new [simp]: "ratchet_ok crypto cs s (decryption_ratchet_new s)"
  by (simp add: ratchet_ok_def decryption_ratchet_new_def)

text \<open>The 32-bit guard is the bound on unbounded numbers.\<close>

lemma too_distant_in_the_future_iff:
  "too_distant_in_the_future h g cfg \<longleftrightarrow> unat g > unat h + unat (maximum_forward_distance cfg)"
proof -
  let ?m = "maximum_forward_distance cfg"
  have m: "unat (U32_MAX - ?m) = 2 ^ 32 - 1 - unat ?m"
    using u32_le_MAX [of ?m] by (subst unat_sub) (simp_all add: word_le_nat_alt unat_U32_MAX)
  have "unat (h + ?m) = unat h + unat ?m" if "unat h + unat ?m < 2 ^ 32"
    using that by (subst unat_add_lem [THEN iffD1]) simp_all
  then show ?thesis
    using u32_le_MAX [of g] unfolding too_distant_in_the_future_def word_less_nat_alt m by auto
qed

lemma unat_sub_u32: "(g :: u32) \<le> h \<Longrightarrow> unat (h - g) = unat h - unat g"
  by (rule unat_sub)

lemma past_secret_index_eq:
  assumes "g < rs_generation (ratchet_head dr)"
  shows "past_secret_index dr g = Inr (unat (rs_generation (ratchet_head dr)) - 1 - unat g)"
proof -
  let ?h = "rs_generation (ratchet_head dr)"
  have "uint g < uint ?h" using assms by (simp add: word_less_def)
  moreover have "0 \<le> uint g" by simp
  moreover have "nat (x - y - 1) = nat x - 1 - nat y \<and> \<not> x - y - 1 < 0" if "y < x" "0 \<le> y" for x y :: int
    using that by linarith
  ultimately have "nat (uint ?h - uint g - 1) = nat (uint ?h) - 1 - nat (uint g) \<and> \<not> uint ?h - uint g - 1 < 0"
    by blast
  then show ?thesis unfolding past_secret_index_def by (simp add: Let_def)
qed

lemma fold_push_front: "fold (\<lambda>k past. Some k # past) (rev ks) past = map Some ks @ past"
  by (induction ks arbitrary: past) simp_all

lemma window_after_forward:
  assumes "take_len = unat (out_of_order_tolerance cfg)"
    and "dr' = dr\<lparr>ratchet_head := r', past_secrets := take take_len (None # map Some (take take_len (rev kms)) @ past_secrets dr)\<rparr>"
    and "unat (rs_generation r') = g + 1" and "unat (rs_generation (ratchet_head dr)) + length kms = g"
    and "length (past_secrets dr) \<le> unat (rs_generation (ratchet_head dr))"
  shows "past_secrets dr' = take take_len (None # map Some (rev kms) @ past_secrets dr)"
    "ratchet_window dr' = \<lparr>w_head = g + 1,
       w_length = min take_len (length (past_secrets dr) + (length kms + 1)),
       w_available = {a \<in> w_available (ratchet_window dr) \<union> {unat (rs_generation (ratchet_head dr))..<g}. g - a < take_len}\<rparr>"
proof -
  let ?h = "unat (rs_generation (ratchet_head dr))"
  let ?past = "None # map Some (rev kms) @ past_secrets dr"
  show past: "past_secrets dr' = take take_len ?past"
    unfolding assms(2) by (cases take_len) (simp_all add: take_map min_def)
  have len: "length ?past \<le> Suc g" using assms(4,5) by simp
  have idx: "?past ! (g - a) \<noteq> None \<longleftrightarrow> a \<in> w_available (ratchet_window dr) \<union> {?h..<g}"
    if "a < g + 1" "g - a < length ?past" for a
    using that assms(4) by (auto simp: nth_Cons' nth_append ratchet_window_def Let_def)
  have mem: "a < g + 1 \<and> g - a < length ?past" if "a \<in> w_available (ratchet_window dr) \<union> {?h..<g}" for a
    using that assms(4) by (auto simp: ratchet_window_def Let_def)
  have "{a. a < g + 1 \<and> g - a < length (take take_len ?past) \<and> take take_len ?past ! (g - a) \<noteq> None} =
      {a \<in> w_available (ratchet_window dr) \<union> {?h..<g}. g - a < take_len}"
    by (rule Collect_cong, simp only: length_take min_less_iff_conj nth_take cong: conj_cong)
      (use idx mem in blast)
  then show "ratchet_window dr' = \<lparr>w_head = g + 1,
       w_length = min take_len (length (past_secrets dr) + (length kms + 1)),
       w_available = {a \<in> w_available (ratchet_window dr) \<union> {?h..<g}. g - a < take_len}\<rparr>"
    unfolding ratchet_window_def [of dr'] past using assms(2,3) by (simp add: Let_def min.commute add.commute)
qed

lemma ratchet_ok_after_forward:
  assumes "ratchet_ok crypto cs s dr" and "ratchet_at crypto cs s r'"
    and "unat (rs_generation r') = g + 1" and "unat (rs_generation (ratchet_head dr)) + length kms = g"
    and "\<forall>k < length kms. generation_keys crypto cs s (unat (rs_generation (ratchet_head dr)) + k) = Inr (kms ! k)"
  shows "ratchet_ok crypto cs s (dr\<lparr>ratchet_head := r', past_secrets := take n (None # map Some (rev kms) @ past_secrets dr)\<rparr>)"
proof -
  let ?h = "unat (rs_generation (ratchet_head dr))"
  let ?past = "None # map Some (rev kms) @ past_secrets dr"
  have old: "length (past_secrets dr) \<le> ?h"
      "\<And>k km. k < length (past_secrets dr) \<Longrightarrow> past_secrets dr ! k = Some km \<Longrightarrow>
         generation_keys crypto cs s (?h - 1 - k) = Inr km"
    using assms(1) by (auto simp: ratchet_ok_def)
  have "generation_keys crypto cs s (g - k) = Inr km" if k: "k < length ?past" "?past ! k = Some km" for k km
  proof -
    consider "k = 0" | "0 < k" "k \<le> length kms" | "length kms < k" by linarith
    then show ?thesis
    proof cases
      case 2
      then have "k - 1 < length kms" by simp
      with 2 have "kms ! (length kms - k) = km" "length kms - k < length kms"
        using k(2) by (simp_all add: nth_Cons' nth_append rev_nth)
      then show ?thesis using assms(4,5) 2 by (metis Nat.add_diff_assoc)
    next
      case 3
      then have "\<not> k - 1 < length kms" by simp
      with 3 have "past_secrets dr ! (k - 1 - length kms) = Some km" "k - 1 - length kms < length (past_secrets dr)"
        using k by (simp_all add: nth_Cons' nth_append)
      moreover have "?h - 1 - (k - 1 - length kms) = g - k" using assms(4) 3 by simp
      ultimately show ?thesis using old(2) by metis
    qed (use k in simp)
  qed
  then show ?thesis
    using assms(2-4) old(1) by (simp add: ratchet_ok_def)
qed

lemma peek_forward:
  assumes ok: "ratchet_ok crypto cs s dr" and p: "peek cs crypto g cfg dr = Inr (km, p)"
    and fwd: "rs_generation (ratchet_head dr) \<le> g"
  shows "generation_keys crypto cs s (unat g) = Inr km \<and> (\<exists>dr'. consume p cfg dr = (Inr (), dr') \<and>
     ratchet_ok crypto cs s dr' \<and> window_request cfg (unat g) (ratchet_window dr) = (Inr (), ratchet_window dr'))"
proof -
  let ?hd = "ratchet_head dr" and ?tol = "unat (out_of_order_tolerance cfg)"
  let ?h = "unat (rs_generation ?hd)"
  have at: "ratchet_at crypto cs s ?hd" and len: "length (past_secrets dr) \<le> ?h" using ok by (simp_all add: ratchet_ok_def)
  have hg: "?h \<le> unat g" "unat (g - rs_generation ?hd) = unat g - ?h"
    using fwd by (simp_all add: word_le_nat_alt unat_sub_u32)
  from p fwd obtain r1 sk where near: "\<not> too_distant_in_the_future (rs_generation ?hd) g cfg"
      and sk: "skip_generations crypto cs ?tol (unat g - ?h) ?hd [] = Inr (r1, sk)"
      and k: "(case ratchet_forward crypto cs r1 of (Inl f, _) \<Rightarrow> Inl f
        | (Inr (_, km), r2) \<Rightarrow> Inr (km, Forward (rs_generation ?hd) r2 sk)) = Inr (km, p)"
    unfolding peek_def Let_def hg(2) by (auto simp: and_then_Inr not_less split: if_splits)
  from k obtain g' r2 where fw: "ratchet_forward crypto cs r1 = (Inr (g', km), r2)"
      and p': "p = Forward (rs_generation ?hd) r2 sk"
    by (auto split: sum.splits prod.splits)
  obtain kms where s1: "unat (rs_generation r1) = unat g" "ratchet_at crypto cs s r1" "length kms = unat g - ?h"
      "\<forall>k < unat g - ?h. generation_keys crypto cs s (?h + k) = Inr (kms ! k)" "sk = take ?tol (rev kms)"
    using skip_generations_Inr [OF at sk] hg(1) by auto
  note f1 = ratchet_forward_Inr [OF s1(2) fw]
  have g': "g' = g" using f1(1) s1(1) by (simp add: u32_eqI)
  have "rs_generation r1 \<noteq> U32_MAX" using fw ratchet_forward_limit by force
  then have gm: "unat g \<noteq> 2 ^ 32 - 1" using s1(1) u32_eq_MAX by metis
  define dr' where "dr' = dr\<lparr>ratchet_head := r2, past_secrets := take ?tol (None # map Some (take ?tol (rev kms)) @ past_secrets dr)\<rparr>"
  have sum: "?h + length kms = unat g" using s1(3) hg(1) by simp
  have r2: "unat (rs_generation r2) = unat g + 1" using f1(2) g' by simp
  note w = window_after_forward [OF refl dr'_def r2 sum len]
  have "consume p cfg dr = (Inr (), dr')"
    by (simp add: consume_def p' Let_def fold_push_front s1(5) dr'_def del: rev_take)
  moreover have "ratchet_ok crypto cs s dr'"
    using ratchet_ok_after_forward [OF ok f1(3) r2 sum, of ?tol] s1(3,4) w(1)
    by (simp add: dr'_def ratchet_ok_def)
  moreover have "window_request cfg (unat g) (ratchet_window dr) = (Inr (), ratchet_window dr')"
    using near hg(1) gm s1(3) unfolding w(2) window_request_def too_distant_in_the_future_iff
    by (simp add: ratchet_window_def Let_def Suc_diff_le)
  ultimately show ?thesis using f1(4) g' by blast
qed

lemma peek_past:
  assumes ok: "ratchet_ok crypto cs s dr" and p: "peek cs crypto g cfg dr = Inr (km, p)"
    and past: "g < rs_generation (ratchet_head dr)"
  shows "generation_keys crypto cs s (unat g) = Inr km \<and> (\<exists>dr'. consume p cfg dr = (Inr (), dr') \<and>
     ratchet_ok crypto cs s dr' \<and> window_request cfg (unat g) (ratchet_window dr) = (Inr (), ratchet_window dr'))"
proof -
  let ?h = "unat (rs_generation (ratchet_head dr))" let ?i = "?h - 1 - unat g"
  have hg: "unat g < ?h" "unat (rs_generation (ratchet_head dr) - g) = ?h - unat g"
    using past by (simp_all add: word_less_nat_alt unat_sub_u32 [OF less_imp_le])
  have ng: "\<not> rs_generation (ratchet_head dr) \<le> g" using past by simp
  from p past ng have near: "\<not> too_distant_in_the_future (rs_generation (ratchet_head dr)) g cfg"
      "?h - unat g \<le> unat (out_of_order_tolerance cfg)"
      and i: "?i < length (past_secrets dr)" "past_secrets dr ! ?i = Some km" and p': "p = Past g"
    unfolding peek_def Let_def past_secret_index_eq [OF past]
    by (auto simp: outcome_simps vec_simps word_less_nat_alt hg not_less split: if_splits)
  define dr' where "dr' = dr\<lparr>past_secrets := (past_secrets dr)[?i := None]\<rparr>"
  have "consume p cfg dr = (Inr (), dr')"
    using i by (simp add: consume_def p' past_secret_index_eq [OF past] vec_get_def dr'_def)
  moreover have "ratchet_ok crypto cs s dr'"
    using ok i(1) by (auto simp: ratchet_ok_def dr'_def nth_list_update split: if_splits)
  moreover have "generation_keys crypto cs s (?h - 1 - ?i) = Inr km"
    using ok i unfolding ratchet_ok_def by blast
  then have "generation_keys crypto cs s (unat g) = Inr km" using hg(1) by simp
  moreover have "w_available (ratchet_window dr') = w_available (ratchet_window dr) - {unat g}"
    using i hg(1) by (auto simp: ratchet_window_def Let_def dr'_def nth_list_update)
  then have "window_request cfg (unat g) (ratchet_window dr) = (Inr (), ratchet_window dr')"
    using near hg(1) i unfolding window_request_def too_distant_in_the_future_iff
    by (simp add: ratchet_window_def Let_def dr'_def)
  ultimately show ?thesis by blast
qed

lemma peek_Inr:
  assumes "ratchet_ok crypto cs s dr" and "peek cs crypto g cfg dr = Inr (km, p)"
  shows "generation_keys crypto cs s (unat g) = Inr km" "\<exists>dr'. consume p cfg dr = (Inr (), dr') \<and>
     ratchet_ok crypto cs s dr' \<and> window_request cfg (unat g) (ratchet_window dr) = (Inr (), ratchet_window dr')"
  using peek_forward [OF assms] peek_past [OF assms] by (meson not_le)+


lemma skip_generations_total:
  assumes "hkdf_lengths crypto" "hkdf_total crypto" and "ratchet_at crypto cs s r"
    and "unat (rs_generation r) + n \<le> 2 ^ 32 - 1"
  shows "\<exists>x. skip_generations crypto cs tol n r acc = Inr x"
  using assms(3,4)
proof (induction n arbitrary: r acc)
  case (Suc n)
  then have "rs_generation r \<noteq> U32_MAX" using u32_eq_MAX [of "rs_generation r"] by auto
  then obtain km r' where f: "ratchet_forward crypto cs r = (Inr (rs_generation r, km), r')"
    by (rule ratchet_forward_succeeds [OF assms(1,2)])
  note fw = ratchet_forward_Inr [OF Suc.prems(1) f]
  show ?case using Suc.IH [OF fw(3)] fw(2) Suc.prems(2) by (simp add: f)
qed simp

lemma peek_Inl:
  assumes h: "hkdf_lengths crypto" "hkdf_total crypto" and ok: "ratchet_ok crypto cs s dr"
    and p: "peek cs crypto g cfg dr = Inl f"
  shows "window_request cfg (unat g) (ratchet_window dr) = (Inl f, ratchet_window dr)"
proof -
  let ?hd = "ratchet_head dr" let ?h = "unat (rs_generation ?hd)"
  have w: "w_head (ratchet_window dr) = ?h" "w_length (ratchet_window dr) = length (past_secrets dr)"
    by (simp_all add: ratchet_window_def Let_def)
  consider "too_distant_in_the_future (rs_generation ?hd) g cfg" | "\<not> too_distant_in_the_future (rs_generation ?hd) g cfg"
    "rs_generation ?hd \<le> g" | "\<not> too_distant_in_the_future (rs_generation ?hd) g cfg" "g < rs_generation ?hd" by force
  then show ?thesis
  proof cases
    case 1
    then show ?thesis using p by (simp add: peek_def too_distant_in_the_future_iff window_request_def w)
  next
    case 2
    have hg: "?h \<le> unat g" "unat (g - rs_generation ?hd) = unat g - ?h"
      using 2(2) by (simp_all add: word_le_nat_alt unat_sub_u32)
    have at: "ratchet_at crypto cs s ?hd" using ok by (simp add: ratchet_ok_def)
    have "?h + (unat g - ?h) \<le> 2 ^ 32 - 1" using hg(1) u32_le_MAX [of g] by simp
    then obtain r1 sk where sk: "skip_generations crypto cs (unat (out_of_order_tolerance cfg)) (unat g - ?h) ?hd [] = Inr (r1, sk)"
      using skip_generations_total [OF h at] by (metis surj_pair)
    then have g1: "unat (rs_generation r1) = unat g" using skip_generations_Inr [OF at sk] hg(1) by simp
    have k: "(case ratchet_forward crypto cs r1 of (Inl f, _) \<Rightarrow> Inl f
        | (Inr (_, km), r2) \<Rightarrow> Inr (km, Forward (rs_generation ?hd) r2 sk)) = Inl f"
      using p 2 leD [OF 2(2)] unfolding peek_def Let_def hg(2) by (simp add: sk)
    have "rs_generation r1 = U32_MAX"
    proof (rule ccontr)
      assume "rs_generation r1 \<noteq> U32_MAX"
      then obtain km r' where "ratchet_forward crypto cs r1 = (Inr (rs_generation r1, km), r')"
        by (rule ratchet_forward_succeeds [OF h])
      then show False using k by simp
    qed
    then have "f = Throws RatchetTooLong" "unat g = 2 ^ 32 - 1"
      using k ratchet_forward_limit [of r1] g1 u32_eq_MAX [of "rs_generation r1"] by auto
    then show ?thesis using 2(1) hg(1) unfolding window_request_def w too_distant_in_the_future_iff by simp
  next
    case 3
    have ng: "\<not> rs_generation ?hd \<le> g" using 3 by simp
    have hg: "unat g < ?h" "unat (rs_generation ?hd - g) = ?h - unat g"
      using 3(2) by (simp_all add: word_less_nat_alt unat_sub_u32 [OF less_imp_le])
    have av: "unat g \<in> w_available (ratchet_window dr) \<longleftrightarrow>
        ?h - 1 - unat g < length (past_secrets dr) \<and> past_secrets dr ! (?h - 1 - unat g) \<noteq> None"
      using hg(1) by (simp add: ratchet_window_def Let_def)
    show ?thesis
      using p 3 ng hg unfolding peek_def Let_def past_secret_index_eq [OF 3(2)] window_request_def w too_distant_in_the_future_iff av
      by (auto simp: outcome_simps vec_simps vec_get_def word_less_nat_alt split: if_splits)
  qed
qed

lemma request_Inr:
  assumes "ratchet_ok crypto cs s dr" and "ratchet_secret_for_decryption cs crypto g cfg dr = (Inr km, dr')"
  shows "generation_keys crypto cs s (unat g) = Inr km" "ratchet_ok crypto cs s dr'"
    "window_request cfg (unat g) (ratchet_window dr) = (Inr (), ratchet_window dr')"
proof -
  from assms(2) obtain p where p: "peek cs crypto g cfg dr = Inr (km, p)" "consume p cfg dr = (Inr (), dr')"
    by (auto simp: ratchet_secret_for_decryption_def split: sum.splits prod.splits)
  then show "generation_keys crypto cs s (unat g) = Inr km" "ratchet_ok crypto cs s dr'"
    "window_request cfg (unat g) (ratchet_window dr) = (Inr (), ratchet_window dr')"
    using peek_Inr [OF assms(1) p(1)] by auto
qed

lemma request_Inl:
  assumes "ratchet_ok crypto cs s dr" and "ratchet_secret_for_decryption cs crypto g cfg dr = (Inl f, dr')"
  shows "peek cs crypto g cfg dr = Inl f \<and> dr' = dr"
proof (cases "peek cs crypto g cfg dr")
  case (Inr x)
  then show ?thesis using assms(2) peek_Inr(2) [OF assms(1), of g cfg "fst x" "snd x"]
    by (auto simp: ratchet_secret_for_decryption_def split: sum.splits prod.splits)
qed (use assms(2) in \<open>auto simp: ratchet_secret_for_decryption_def\<close>)

section \<open>Every key at most once\<close>

definition decrypt_step ::
  "OpenMlsCrypto \<Rightarrow> Ciphersuite \<Rightarrow> Generation \<times> SenderRatchetConfiguration \<Rightarrow>
     (DecryptionRatchet, RatchetKeyMaterial, SecretTreeError) mutator" where
  "decrypt_step crypto cs op = ratchet_secret_for_decryption cs crypto (fst op) (snd op)"

definition generation_spent :: "Generation \<Rightarrow> DecryptionRatchet \<Rightarrow> bool" where
  "generation_spent g dr \<longleftrightarrow>
     unat g < w_head (ratchet_window dr) \<and> unat g \<notin> w_available (ratchet_window dr)"

lemma decrypt_step_ok:
  "ratchet_ok crypto cs s dr \<Longrightarrow> ratchet_ok crypto cs s (snd (decrypt_step crypto cs op dr))"
  using request_Inr(2) [of crypto cs s dr "fst op" "snd op"] request_Inl [of crypto cs s dr "fst op" "snd op"]
  by (cases "decrypt_step crypto cs op dr"; cases "fst (decrypt_step crypto cs op dr)") (auto simp: decrypt_step_def)

lemma window_available_below: "w_available (ratchet_window dr) \<subseteq> {..<w_head (ratchet_window dr)}"
  by (auto simp: ratchet_window_def Let_def)

lemma window_request_spends:
  assumes "window_request cfg g w = (Inr (), w')" and "w_available w \<subseteq> {..<w_head w}"
  shows "g < w_head w'" "g \<notin> w_available w'" "a < w_head w \<Longrightarrow> a \<notin> w_available w \<Longrightarrow> a < w_head w' \<and> a \<notin> w_available w'"
    "\<not> (g < w_head w \<and> g \<notin> w_available w)"
  using assms by (auto simp: window_request_def Let_def split: if_splits)

lemma window_request_bounds:
  assumes "window_request cfg g w = (Inr (), w')" and "w_length w \<le> unat (out_of_order_tolerance cfg)"
  shows "w_length w' \<le> unat (out_of_order_tolerance cfg)" "w_head w' \<le> w_head w + unat (maximum_forward_distance cfg) + 1"
  using assms by (auto simp: window_request_def Let_def split: if_splits)

lemma ratchet_window_fields:
  "w_head (ratchet_window dr) = unat (rs_generation (ratchet_head dr))"
  "w_length (ratchet_window dr) = length (past_secrets dr)"
  by (simp_all add: ratchet_window_def Let_def)

lemma ratchet_window_new [simp]:
  "ratchet_window (decryption_ratchet_new s) = \<lparr>w_head = 0, w_length = 0, w_available = {}\<rparr>"
  by (simp add: ratchet_window_def decryption_ratchet_new_def initial_ratchet_secret_def)

lemma spends_request:
  assumes "ratchet_ok crypto cs s dr" and "decrypt_step crypto cs op dr = (Inr km, dr')"
  shows "generation_spent (fst op) dr'" "\<not> generation_spent (fst op) dr" "generation_spent g dr \<Longrightarrow> generation_spent g dr'"
  using window_request_spends [OF request_Inr(3) [OF assms(1) assms(2) [unfolded decrypt_step_def]] window_available_below]
  by (simp_all add: generation_spent_def)

definition decrypt_grants ::
  "Generation \<times> SenderRatchetConfiguration \<Rightarrow> (RatchetKeyMaterial, SecretTreeError) outcome \<Rightarrow> Generation option" where
  "decrypt_grants op r = (case r of Inl _ \<Rightarrow> None | Inr _ \<Rightarrow> Some (fst op))"

interpretation dec: one_time "decrypt_step crypto cs" "ratchet_ok crypto cs s" decrypt_grants generation_spent
  for crypto cs s
proof unfold_locales
  fix dr op k
  assume ok: "ratchet_ok crypto cs s dr"
  obtain r dr' where st: "decrypt_step crypto cs op dr = (r, dr')" by fastforce
  show "ratchet_ok crypto cs s (snd (decrypt_step crypto cs op dr))" using ok by (rule decrypt_step_ok)
  show "decrypt_grants op (fst (decrypt_step crypto cs op dr)) = Some k \<Longrightarrow>
      \<not> generation_spent k dr \<and> generation_spent k (snd (decrypt_step crypto cs op dr))"
    using spends_request(1,2) [OF ok, of op] st by (cases r) (auto simp: decrypt_grants_def)
  show "generation_spent k dr \<Longrightarrow> generation_spent k (snd (decrypt_step crypto cs op dr))"
    using spends_request(3) [OF ok, of op] request_Inl [OF ok, of "fst op" "snd op"] st
    by (cases r) (auto simp: decrypt_step_def)
qed


text \<open>
  C15: with a backend that does not fail, a decryption ratchet behaves exactly like the abstract
  window: a request is answered exactly if the window allows it, with the key of the
  generation; otherwise the error is the one the window prescribes (too far in the future or
  in the past, reuse, or the end of the ratchet) and the ratchet is left unchanged.
\<close>

theorem decryption_ratchet_refines_window:
  assumes "hkdf_lengths crypto" and "hkdf_total crypto" and "ratchet_ok crypto cs s dr"
    and "ratchet_secret_for_decryption cs crypto g cfg dr = (r, dr')"
  shows "window_request cfg (unat g) (ratchet_window dr) =
       (case r of Inl f \<Rightarrow> Inl f | Inr _ \<Rightarrow> Inr (), ratchet_window dr') \<and>
     ratchet_ok crypto cs s dr' \<and>
     (case r of Inl f \<Rightarrow> dr' = dr | Inr km \<Rightarrow> generation_keys crypto cs s (unat g) = Inr km)"
proof (cases r)
  case (Inl f)
  then have "peek cs crypto g cfg dr = Inl f" "dr' = dr" using request_Inl [OF assms(3)] assms(4) by blast+
  then show ?thesis using peek_Inl [OF assms(1-3)] Inl assms(3) by simp
next
  case (Inr km)
  then show ?thesis using request_Inr [OF assms(3)] assms(4) by simp
qed

lemma peek_shape:
  assumes "peek cs crypto g cfg dr = Inr (km, p)"
  shows "(\<exists>r sk. p = Forward (rs_generation (ratchet_head dr)) r sk \<and> rs_generation (ratchet_head dr) \<le> g) \<or> p = Past g"
proof (cases "rs_generation (ratchet_head dr) \<le> g")
  case True
  then obtain r1 sk where "(case ratchet_forward crypto cs r1 of (Inl f, _) \<Rightarrow> Inl f
        | (Inr (_, km), r2) \<Rightarrow> Inr (km, Forward (rs_generation (ratchet_head dr)) r2 sk)) = Inr (km, p)"
    using assms unfolding peek_def Let_def by (auto simp: and_then_Inr split: if_splits)
  then show ?thesis using True by (auto split: sum.splits prod.splits)
next
  case False
  then show ?thesis using assms unfolding peek_def Let_def by (auto simp: outcome_simps split: if_splits)
qed



text \<open>
  C17: memory and work are bounded by the configuration.  Whatever generations are requested,
  a decryption ratchet never keeps more past secrets than the out-of-order tolerance, and a
  request moves it by at most the maximum forward distance beyond its head, computed without
  overflow also near the end of the 32-bit generation range.
\<close>

theorem decryption_ratchet_bounds:
  "length (past_secrets (snd (run_ops (\<lambda>g. decrypt_step crypto cs (g, cfg)) gs (decryption_ratchet_new s))))
     \<le> unat (out_of_order_tolerance cfg) \<and>
   unat (rs_generation (ratchet_head (snd (run_ops (\<lambda>g. decrypt_step crypto cs (g, cfg)) gs (decryption_ratchet_new s)))))
     \<le> length gs * (unat (maximum_forward_distance cfg) + 1)"
proof -
  let ?tol = "unat (out_of_order_tolerance cfg)" and ?max = "unat (maximum_forward_distance cfg)"
  have step: "w_length (ratchet_window (snd (decrypt_step crypto cs (g, cfg) dr))) \<le> ?tol \<and>
      w_head (ratchet_window (snd (decrypt_step crypto cs (g, cfg) dr))) \<le> w_head (ratchet_window dr) + ?max + 1"
    if ok: "ratchet_ok crypto cs s dr" "w_length (ratchet_window dr) \<le> ?tol" for dr g
  proof -
    obtain r dr' where st: "decrypt_step crypto cs (g, cfg) dr = (r, dr')" by fastforce
    show ?thesis
    proof (cases r)
      case (Inl f)
      then show ?thesis using request_Inl [OF ok(1), of g cfg] st ok(2) by (simp add: decrypt_step_def)
    next
      case (Inr km)
      then show ?thesis
        using window_request_bounds [OF request_Inr(3) [OF ok(1), of g cfg km dr'] ok(2)] st
        by (simp add: decrypt_step_def)
    qed
  qed
  let ?inv = "\<lambda>n dr. ratchet_ok crypto cs s dr \<and> w_length (ratchet_window dr) \<le> ?tol \<and>
      w_head (ratchet_window dr) \<le> n * (?max + 1)"
  have "?inv (n + length gs) (snd (run_ops (\<lambda>g. decrypt_step crypto cs (g, cfg)) gs dr))" if "?inv n dr" for n dr
    using that
  proof (induction gs arbitrary: n dr)
    case (Cons g gs)
    have "?inv (Suc n) (snd (decrypt_step crypto cs (g, cfg) dr))"
      using step [of dr g] Cons.prems decrypt_step_ok [of crypto cs s dr "(g, cfg)"] by auto
    then show ?case using Cons.IH [of "snd (decrypt_step crypto cs (g, cfg) dr)" "Suc n"] by simp
  qed simp
  from this [of "decryption_ratchet_new s" 0] show ?thesis
    unfolding ratchet_window_fields [symmetric] by simp
qed

subsection \<open>Witnesses\<close>

lemma request_granted:
  assumes "hkdf_lengths crypto" "hkdf_total crypto" "ratchet_ok crypto cs s dr"
    and "fst (window_request cfg (unat g) (ratchet_window dr)) = Inr ()"
  obtains km dr' where "ratchet_secret_for_decryption cs crypto g cfg dr = (Inr km, dr')"
proof -
  obtain r dr' where st: "ratchet_secret_for_decryption cs crypto g cfg dr = (r, dr')" by fastforce
  have "r \<noteq> Inl f" for f
    using request_Inl [OF assms(3), of g cfg f dr'] st peek_Inl [OF assms(1-3), of g cfg f] assms(4) by auto
  then show ?thesis using that st by (cases r) auto
qed

lemma first_request:
  obtains km dr' where "ratchet_secret_for_decryption suite1 toy_crypto 2 default_configuration
    (decryption_ratchet_new (Secret [1])) = (Inr km, dr')"
proof (rule request_granted [OF toy_crypto_ok(1,2) ratchet_ok_new])
  show "fst (window_request default_configuration (unat 2) (ratchet_window (decryption_ratchet_new (Secret [1])))) = Inr ()"
    by (simp add: window_request_def default_configuration_def)
qed


theorem decryption_ratchet_refines_window_witness:
  "\<exists>km dr'. ratchet_secret_for_decryption suite1 toy_crypto 2 default_configuration
       (decryption_ratchet_new (Secret [1])) = (Inr km, dr') \<and> w_head (ratchet_window dr') = 3 \<and>
     w_available (ratchet_window dr') = {0, 1} \<and> generation_keys toy_crypto suite1 (Secret [1]) 2 = Inr km"
proof -
  obtain km dr' where st: "ratchet_secret_for_decryption suite1 toy_crypto 2 default_configuration
    (decryption_ratchet_new (Secret [1])) = (Inr km, dr')" by (rule first_request)
  note th = decryption_ratchet_refines_window [OF toy_crypto_ok(1,2) ratchet_ok_new st]
  have "window_request default_configuration (unat (2 :: u32)) (ratchet_window (decryption_ratchet_new (Secret [1]))) =
      (Inr (), \<lparr>w_head = 3, w_length = 3, w_available = {0, 1}\<rparr>)"
    by (auto simp: window_request_def default_configuration_def)
  then have "ratchet_window dr' = \<lparr>w_head = 3, w_length = 3, w_available = {0, 1}\<rparr>" using th by simp
  then show ?thesis using th st by auto
qed


end
