(* ===== verification/DualUseRatchet.thy ===== *)
theory DualUseRatchet
  imports SenderRatchet OrderedMap
begin

text \<open>
  The ratchet for a member's own messages when several emulator clients share the member
  (\<^verbatim>\<open>tree/dual_use_ratchet.rs\<close>, feature \<^verbatim>\<open>virtual-clients-draft\<close>), and the enum
  \<^verbatim>\<open>SenderRatchet\<close> with the conversion of its stored form (\<^verbatim>\<open>tree/sender_ratchet.rs\<close>).  The
  feature is the flag \<open>vc\<close> of the functions that depend on it.
\<close>

section \<open>The ratchet\<close>

datatype RetainedDecryptionSecret = Available RatchetKeyMaterial | Consumed

datatype DualUsePastSecret =
    AwaitingConfirmation RatchetKeyMaterial
  | RetainedForDecryption RetainedDecryptionSecret

record DualUseRatchet =
  du_past_secrets :: "(Generation, DualUsePastSecret) btree_map"
  du_head :: RatchetSecret
  pruned_below :: Generation

datatype DecryptionSecret = AvailableSecret RatchetKeyMaterial | OwnMessageConfirmed

datatype PeekedDualUseGeneration =
    DualForward Generation RatchetSecret "RatchetKeyMaterial list"
  | DualPast Generation

fun peek_for_decryption :: "DualUsePastSecret \<Rightarrow> (RatchetKeyMaterial, SecretTreeError) outcome" where
  "peek_for_decryption (AwaitingConfirmation km) = Inr km"
| "peek_for_decryption (RetainedForDecryption (Available km)) = Inr km"
| "peek_for_decryption (RetainedForDecryption Consumed) = throw SecretReuseError"

definition take_for_decryption :: "(DualUsePastSecret, RatchetKeyMaterial, SecretTreeError) mutator" where
  "take_for_decryption entry = (peek_for_decryption entry, RetainedForDecryption Consumed)"

fun is_retained_for_decryption :: "DualUsePastSecret \<Rightarrow> bool" where
  "is_retained_for_decryption (AwaitingConfirmation _) = False"
| "is_retained_for_decryption (RetainedForDecryption _) = True"

definition dual_use_from :: "RatchetSecret \<Rightarrow> DualUseRatchet" where
  "dual_use_from head = \<lparr>du_past_secrets = btm_new, du_head = head, pruned_below = 0\<rparr>"

definition dual_use_new :: "Secret \<Rightarrow> DualUseRatchet" where
  "dual_use_new s = \<lparr>du_past_secrets = btm_new, du_head = initial_ratchet_secret s, pruned_below = 0\<rparr>"

definition delete_secret_for_generation :: "Generation \<Rightarrow> DualUseRatchet \<Rightarrow> DualUseRatchet" where
  "delete_secret_for_generation generation self =
     (if generation \<ge> rs_generation (du_head self) then self
      else
        (case btm_get (du_past_secrets self) generation of
           Some (AwaitingConfirmation _) \<Rightarrow>
             self\<lparr>du_past_secrets := btm_remove generation (du_past_secrets self)\<rparr>
         | _ \<Rightarrow> self))"

definition dual_secret_for_encryption ::
  "Ciphersuite \<Rightarrow> OpenMlsCrypto \<Rightarrow> (DualUseRatchet, Generation \<times> RatchetKeyMaterial, SecretTreeError) mutator" where
  "dual_secret_for_encryption cs crypto self =
     (let generation = rs_generation (du_head self) in
      case ratchet_forward crypto cs (du_head self) of
        (Inl f, head) \<Rightarrow> (Inl f, self\<lparr>du_head := head\<rparr>)
      | (Inr (_, km), head) \<Rightarrow>
          (Inr (generation, km),
           self\<lparr>du_head := head,
             du_past_secrets := btm_insert generation (AwaitingConfirmation km) (du_past_secrets self)\<rparr>))"

fun dual_skip_generations ::
  "OpenMlsCrypto \<Rightarrow> Ciphersuite \<Rightarrow> nat \<Rightarrow> RatchetSecret \<Rightarrow> RatchetKeyMaterial list \<Rightarrow>
     (RatchetSecret \<times> RatchetKeyMaterial list, SecretTreeError) outcome" where
  "dual_skip_generations crypto cs 0 head skipped = Inr (head, skipped)"
| "dual_skip_generations crypto cs (Suc n) head skipped =
     (case ratchet_forward crypto cs head of
        (Inl f, _) \<Rightarrow> Inl f
      | (Inr (_, km), head') \<Rightarrow> dual_skip_generations crypto cs n head' (skipped @ [km]))"

definition missing_past_secret :: "Generation \<Rightarrow> DualUseRatchet \<Rightarrow> (DecryptionSecret, SecretTreeError) outcome" where
  "missing_past_secret generation self =
     (if generation < pruned_below self then throw TooDistantInThePast else Inr OwnMessageConfirmed)"

definition dual_peek ::
  "Ciphersuite \<Rightarrow> OpenMlsCrypto \<Rightarrow> Generation \<Rightarrow> SenderRatchetConfiguration \<Rightarrow> DualUseRatchet \<Rightarrow>
     (DecryptionSecret \<times> PeekedDualUseGeneration option, SecretTreeError) outcome" where
  "dual_peek cs crypto generation configuration self =
     (let head_generation = rs_generation (du_head self) in
      if too_distant_in_the_future head_generation generation configuration then throw TooDistantInTheFuture
      else if generation \<ge> head_generation then
        and_then (dual_skip_generations crypto cs (unat (generation - head_generation)) (du_head self) [])
          (\<lambda>(head, skipped).
            case ratchet_forward crypto cs head of
              (Inl f, _) \<Rightarrow> Inl f
            | (Inr (_, km), head') \<Rightarrow>
                Inr (AvailableSecret km, Some (DualForward head_generation head' skipped)))
      else
        (case btm_get (du_past_secrets self) generation of
           None \<Rightarrow> and_then (missing_past_secret generation self) (\<lambda>d. Inr (d, None))
         | Some entry \<Rightarrow>
             and_then (peek_for_decryption entry) (\<lambda>km.
               Inr (AvailableSecret km, Some (DualPast generation)))))"

definition prune_past_secrets :: "SenderRatchetConfiguration \<Rightarrow> DualUseRatchet \<Rightarrow> DualUseRatchet" where
  "prune_past_secrets configuration self =
     (let retained = map fst (filter (\<lambda>(_, entry). is_retained_for_decryption entry) (du_past_secrets self));
          excess = length retained - unat (out_of_order_tolerance configuration)
      in fold (\<lambda>generation self. self\<lparr>
             du_past_secrets := btm_remove generation (du_past_secrets self),
             pruned_below := max (pruned_below self) (generation + 1)\<rparr>)
           (take excess retained) self)"

definition dual_consume ::
  "PeekedDualUseGeneration \<Rightarrow> SenderRatchetConfiguration \<Rightarrow> (DualUseRatchet, unit, SecretTreeError) mutator" where
  "dual_consume peeked configuration self =
     (case peeked of
        DualForward from_head head skipped \<Rightarrow>
          if from_head \<noteq> rs_generation (du_head self) then (throw LibraryError, self)
          else
            (let generation = rs_generation head - 1;
                 past = fold (\<lambda>(k, km). btm_insert (from_head + of_nat k) (RetainedForDecryption (Available km)))
                   (enumerate 0 skipped) (du_past_secrets self);
                 past = btm_insert generation (RetainedForDecryption Consumed) past
             in (Inr (), prune_past_secrets configuration (self\<lparr>du_head := head, du_past_secrets := past\<rparr>)))
      | DualPast generation \<Rightarrow>
          (case btm_get (du_past_secrets self) generation of
             None \<Rightarrow> (throw SecretReuseError, self)
           | Some entry \<Rightarrow>
               (let (r, entry') = take_for_decryption entry;
                    self = self\<lparr>du_past_secrets := btm_insert generation entry' (du_past_secrets self)\<rparr>
                in case r of
                     Inl f \<Rightarrow> (Inl f, self)
                   | Inr _ \<Rightarrow> (Inr (), prune_past_secrets configuration self))))"

definition dual_secret_for_decryption ::
  "Ciphersuite \<Rightarrow> OpenMlsCrypto \<Rightarrow> Generation \<Rightarrow> SenderRatchetConfiguration \<Rightarrow>
     (DualUseRatchet, DecryptionSecret, SecretTreeError) mutator" where
  "dual_secret_for_decryption cs crypto generation configuration self =
     (case dual_peek cs crypto generation configuration self of
        Inl f \<Rightarrow> (Inl f, self)
      | Inr (d, None) \<Rightarrow> (Inr d, self)
      | Inr (d, Some peeked) \<Rightarrow>
          (case dual_consume peeked configuration self of
             (Inl f, self') \<Rightarrow> (Inl f, self')
           | (Inr _, self') \<Rightarrow> (Inr d, self')))"

section \<open>Sender ratchets\<close>

datatype SenderRatchet =
    EncryptionRatchet RatchetSecret
  | DecRatchet DecryptionRatchet
  | DualUse DualUseRatchet

text \<open>
  The stored form.  Without the feature a stored dual-use ratchet is read as its head only, the
  other fields of the stored value being ignored.
\<close>

datatype SerdeSenderRatchet =
    SerdeEncryptionRatchet RatchetSecret
  | SerdeDecryptionRatchet DecryptionRatchet
  | SerdeDualUse DualUseRatchet

fun sender_ratchet_from :: "bool \<Rightarrow> SerdeSenderRatchet \<Rightarrow> SenderRatchet" where
  "sender_ratchet_from vc (SerdeEncryptionRatchet r) =
     (if vc then DualUse (dual_use_from r) else EncryptionRatchet r)"
| "sender_ratchet_from vc (SerdeDecryptionRatchet d) = DecRatchet d"
| "sender_ratchet_from vc (SerdeDualUse d) =
     (if vc then DualUse d else EncryptionRatchet (du_head d))"

section \<open>Invariant and effect of the operations\<close>

fun entry_key :: "DualUsePastSecret \<Rightarrow> RatchetKeyMaterial option" where
  "entry_key (AwaitingConfirmation km) = Some km"
| "entry_key (RetainedForDecryption (Available km)) = Some km"
| "entry_key (RetainedForDecryption Consumed) = None"

lemma peek_for_decryption_Inr [outcome_simps]: "peek_for_decryption e = Inr km \<longleftrightarrow> entry_key e = Some km"
  by (cases e rule: peek_for_decryption.cases) auto

abbreviation du_get :: "DualUseRatchet \<Rightarrow> Generation \<Rightarrow> DualUsePastSecret option" where
  "du_get d g \<equiv> btm_get (du_past_secrets d) g"

abbreviation du_generation :: "DualUseRatchet \<Rightarrow> Generation" where
  "du_generation d \<equiv> rs_generation (du_head d)"

definition dual_ok :: "OpenMlsCrypto \<Rightarrow> Ciphersuite \<Rightarrow> Secret \<Rightarrow> DualUseRatchet \<Rightarrow> bool" where
  "dual_ok crypto cs s d \<longleftrightarrow>
     ratchet_at crypto cs s (du_head d) \<and> btm_ok (du_past_secrets d) \<and>
     (\<forall>g e. du_get d g = Some e \<longrightarrow> g < du_generation d \<and>
        (\<forall>km. entry_key e = Some km \<longrightarrow> generation_keys crypto cs s (unat g) = Inr km))"

lemma dual_okD:
  assumes "dual_ok crypto cs s d"
  shows "ratchet_at crypto cs s (du_head d)" "btm_ok (du_past_secrets d)"
    "du_get d g = Some e \<Longrightarrow> g < du_generation d"
    "du_get d g = Some e \<Longrightarrow> entry_key e = Some km \<Longrightarrow> generation_keys crypto cs s (unat g) = Inr km"
  using assms unfolding dual_ok_def by blast+

lemma dual_ok_new [simp]: "dual_ok crypto cs s (dual_use_new s)"
  by (simp add: dual_ok_def dual_use_new_def)

lemma dual_skip_generations_Inr:
  assumes "ratchet_at crypto cs s r" and "dual_skip_generations crypto cs n r acc = Inr (r', sk)"
  shows "unat (rs_generation r') = unat (rs_generation r) + n \<and> ratchet_at crypto cs s r' \<and>
    (\<exists>kms. length kms = n \<and>
      (\<forall>k < n. generation_keys crypto cs s (unat (rs_generation r) + k) = Inr (kms ! k)) \<and> sk = acc @ kms)"
  using assms
proof (induction n arbitrary: r acc)
  case (Suc n)
  from Suc.prems(2) obtain g km t where f: "ratchet_forward crypto cs r = (Inr (g, km), t)"
      "dual_skip_generations crypto cs n t (acc @ [km]) = Inr (r', sk)"
    by (auto split: sum.splits prod.splits)
  note fw = ratchet_forward_Inr [OF Suc.prems(1) f(1)]
  obtain kms where ih: "unat (rs_generation r') = unat (rs_generation t) + n" "ratchet_at crypto cs s r'"
      "length kms = n" "\<forall>k < n. generation_keys crypto cs s (unat (rs_generation t) + k) = Inr (kms ! k)"
      "sk = (acc @ [km]) @ kms"
    using Suc.IH [OF fw(3) f(2)] by auto
  have "\<forall>k < Suc n. generation_keys crypto cs s (unat (rs_generation r) + k) = Inr ((km # kms) ! k)"
    using ih(4) fw by (auto simp: nth_Cons split: nat.split)
  then show ?case using ih(1-3,5) fw(1,2) by (intro conjI exI [of _ "km # kms"]) auto
qed auto

lemma retain_skipped:
  fixes h g :: Generation
  assumes "btm_ok m" and "unat h + length sk < 2 ^ 32"
  shows "btm_ok (fold (\<lambda>(k, km). btm_insert (h + of_nat k) (f km)) (enumerate 0 sk) m) \<and>
    btm_get (fold (\<lambda>(k, km). btm_insert (h + of_nat k) (f km)) (enumerate 0 sk) m) g =
      (if unat h \<le> unat g \<and> unat g < unat h + length sk then Some (f (sk ! (unat g - unat h))) else btm_get m g)"
  using assms(2)
proof (induction sk rule: rev_induct)
  case (snoc x sk)
  have "unat (h + of_nat (length sk)) = unat h + length sk"
    using snoc.prems by (subst unat_add_lem [THEN iffD1]) (simp_all add: unat_of_nat_u32)
  then have eq: "g = h + of_nat (length sk) \<longleftrightarrow> unat g = unat h + length sk" by (metis u32_eqI)
  have "enumerate 0 (sk @ [x]) = enumerate 0 sk @ [(length sk, x)]" by (simp add: enumerate_append_eq)
  then show ?case using snoc eq by (auto simp: btm_ok_insert btm_get_insert nth_append)
qed (use assms(1) in auto)

lemma prune_fold:
  assumes "btm_ok (du_past_secrets d)" and "\<forall>g \<in> set gs. g < du_generation d"
    and "d' = fold (\<lambda>g d. d\<lparr>du_past_secrets := btm_remove g (du_past_secrets d),
      pruned_below := max (pruned_below d) (g + 1)\<rparr>) gs d"
  shows "btm_ok (du_past_secrets d') \<and> du_head d' = du_head d \<and> pruned_below d \<le> pruned_below d' \<and>
    (\<forall>g. du_get d' g = (if g \<in> set gs then None else du_get d g)) \<and> (\<forall>g \<in> set gs. g < pruned_below d')"
  using assms
proof (induction gs arbitrary: d)
  case (Cons g gs)
  let ?d = "d\<lparr>du_past_secrets := btm_remove g (du_past_secrets d), pruned_below := max (pruned_below d) (g + 1)\<rparr>"
  have "g \<noteq> U32_MAX" using Cons.prems(2) u32_le_MAX [of "du_generation d"]
    by (auto simp: word_less_nat_alt u32_eq_MAX)
  then have "unat (g + 1) = Suc (unat g)" by (rule unat_plus1_u32)
  then have "g < g + 1" by (simp add: word_less_nat_alt)
  moreover have "btm_ok (du_past_secrets d') \<and> du_head d' = du_head ?d \<and> pruned_below ?d \<le> pruned_below d' \<and>
    (\<forall>g. du_get d' g = (if g \<in> set gs then None else du_get ?d g)) \<and> (\<forall>g \<in> set gs. g < pruned_below d')"
    using Cons.IH [of ?d] Cons.prems by (simp add: btm_ok_remove)
  ultimately show ?case using Cons.prems(1) by (auto simp: btm_get_remove max_def split: if_splits)
qed simp


definition dual_spent :: "Generation \<Rightarrow> DualUseRatchet \<Rightarrow> bool" where
  "dual_spent g d \<longleftrightarrow> g < du_generation d \<and> (\<forall>e. du_get d g = Some e \<longrightarrow> entry_key e = None)"

definition retained_generations :: "DualUseRatchet \<Rightarrow> Generation list" where
  "retained_generations d = map fst (filter (\<lambda>(_, e). is_retained_for_decryption e) (du_past_secrets d))"

lemma retained_generations_iff:
  "btm_ok (du_past_secrets d) \<Longrightarrow>
     g \<in> set (retained_generations d) \<longleftrightarrow> (\<exists>e. du_get d g = Some (RetainedForDecryption e))"
  by (force simp: retained_generations_def btm_in_get elim: is_retained_for_decryption.elims)

lemma distinct_retained: "btm_ok (du_past_secrets d) \<Longrightarrow> distinct (retained_generations d)"
  unfolding retained_generations_def btm_ok_def btm_keys_def
  by (metis distinct_map_filter strict_sorted_iff)

text \<open>Pruning forgets only entries kept for decryption, all of them below the new bound.\<close>

lemma prune_effect:
  assumes "btm_ok (du_past_secrets d)" and "\<forall>g e. du_get d g = Some e \<longrightarrow> g < du_generation d"
    and "d' = prune_past_secrets cfg d"
  shows "btm_ok (du_past_secrets d')" "du_head d' = du_head d" "pruned_below d \<le> pruned_below d'"
    "du_get d' g = du_get d g \<or> du_get d' g = None \<and> g < pruned_below d' \<and> (\<exists>e. du_get d g = Some (RetainedForDecryption e))"
    "length (retained_generations d') \<le> unat (out_of_order_tolerance cfg)"
proof -
  let ?tol = "unat (out_of_order_tolerance cfg)"
  let ?ret = "retained_generations d"
  let ?gs = "take (length ?ret - ?tol) ?ret"
  have sub: "set ?gs \<subseteq> set ?ret" by (rule set_take_subset)
  then have lt: "\<forall>g \<in> set ?gs. g < du_generation d"
    using retained_generations_iff [OF assms(1)] assms(2) by blast
  have d': "d' = fold (\<lambda>g d. d\<lparr>du_past_secrets := btm_remove g (du_past_secrets d),
      pruned_below := max (pruned_below d) (g + 1)\<rparr>) ?gs d"
    by (simp add: assms(3) prune_past_secrets_def retained_generations_def Let_def)
  note p = prune_fold [OF assms(1) lt d']
  then show ok: "btm_ok (du_past_secrets d')" "du_head d' = du_head d" "pruned_below d \<le> pruned_below d'" by blast+
  show "du_get d' g = du_get d g \<or> du_get d' g = None \<and> g < pruned_below d' \<and> (\<exists>e. du_get d g = Some (RetainedForDecryption e))"
    using p sub retained_generations_iff [OF assms(1), of g] by (cases "g \<in> set ?gs") auto
  have "set (retained_generations d') = set ?ret - set ?gs"
    using p retained_generations_iff [OF assms(1)] retained_generations_iff [OF ok(1)] by (auto split: if_splits)
  moreover have "set ?ret = set ?gs \<union> set (drop (length ?ret - ?tol) ?ret)" by (metis append_take_drop_id set_append)
  ultimately have "set (retained_generations d') \<subseteq> set (drop (length ?ret - ?tol) ?ret)" by blast
  then have "card (set (retained_generations d')) \<le> length (drop (length ?ret - ?tol) ?ret)"
    by (metis List.finite_set card_length card_mono le_trans)
  then show "length (retained_generations d') \<le> ?tol"
    using distinct_retained [OF ok(1)] by (simp add: distinct_card)
qed

text \<open>What opening a generation does to the entries.\<close>

definition dual_opens :: "Generation \<Rightarrow> DualUseRatchet \<Rightarrow> DualUseRatchet \<Rightarrow> bool" where
  "dual_opens g d d' \<longleftrightarrow>
     \<not> dual_spent g d \<and> dual_spent g d' \<and> du_generation d \<le> du_generation d' \<and> pruned_below d \<le> pruned_below d' \<and>
     (\<forall>k < du_generation d. du_get d' k = du_get d k \<or> (k = g \<and> du_get d' k = Some (RetainedForDecryption Consumed))
        \<or> (du_get d' k = None \<and> k < pruned_below d')) \<and>
     (\<forall>k. du_generation d \<le> k \<longrightarrow> k < du_generation d' \<longrightarrow>
        (case du_get d' k of None \<Rightarrow> k < pruned_below d' | Some e \<Rightarrow> is_retained_for_decryption e))"

lemma dual_opensD:
  assumes "dual_opens g d d'"
  shows "\<not> dual_spent g d" "dual_spent g d'" "du_generation d \<le> du_generation d'" "pruned_below d \<le> pruned_below d'"
    "k < du_generation d \<Longrightarrow> du_get d' k = du_get d k \<or> (k = g \<and> du_get d' k = Some (RetainedForDecryption Consumed))
        \<or> (du_get d' k = None \<and> k < pruned_below d')"
    "du_generation d \<le> k \<Longrightarrow> k < du_generation d' \<Longrightarrow>
        (case du_get d' k of None \<Rightarrow> k < pruned_below d' | Some e \<Rightarrow> is_retained_for_decryption e)"
  using assms unfolding dual_opens_def by blast+

lemma dual_open_past:
  assumes ok: "dual_ok crypto cs s d" and g: "g < du_generation d" "du_get d g = Some e" "entry_key e = Some km"
    and d': "d' = prune_past_secrets cfg (d\<lparr>du_past_secrets := btm_insert g (RetainedForDecryption Consumed) (du_past_secrets d)\<rparr>)"
  shows "dual_ok crypto cs s d' \<and> dual_opens g d d' \<and> length (retained_generations d') \<le> unat (out_of_order_tolerance cfg)"
proof -
  let ?e = "d\<lparr>du_past_secrets := btm_insert g (RetainedForDecryption Consumed) (du_past_secrets d)\<rparr>"
  have b: "btm_ok (du_past_secrets ?e)" "\<And>k. du_get ?e k = (if k = g then Some (RetainedForDecryption Consumed) else du_get d k)"
    using ok by (simp_all add: dual_ok_def btm_ok_insert btm_get_insert)
  have lt: "\<forall>k x. du_get ?e k = Some x \<longrightarrow> k < du_generation ?e" using ok g(1) b(2) by (auto simp: dual_ok_def split: if_splits)
  note p = prune_effect [OF b(1) lt d']
  have get: "du_get d' k = du_get d k \<or> (k = g \<and> du_get d' k = Some (RetainedForDecryption Consumed)) \<or>
      (du_get d' k = None \<and> k < pruned_below d')" for k
    using p(4) [where g = k] b(2) [of k] by (auto split: if_splits)
  have gg: "du_get d' g = None \<or> du_get d' g = Some (RetainedForDecryption Consumed)"
    using p(4) [where g = g] b(2) [of g] by auto
  have "dual_ok crypto cs s d'"
    unfolding dual_ok_def
  proof (intro conjI allI impI)
    show "ratchet_at crypto cs s (du_head d')" "btm_ok (du_past_secrets d')" using ok p(1,2) by (simp_all add: dual_ok_def)
    fix k x assume x: "du_get d' k = Some x"
    have "du_get ?e k = Some x" using p(4) [where g = k] x by auto
    then have "k < du_generation ?e" using lt by blast
    then show "k < du_generation d'" using p(2) by simp
    fix km assume "entry_key x = Some km"
    then show "generation_keys crypto cs s (unat k) = Inr km" using x dual_okD(4) [OF ok, of k x km] get [of k] by auto
  qed
  moreover have "dual_opens g d d'"
    using get gg g p(2,3) unfolding dual_opens_def dual_spent_def by auto
  ultimately show ?thesis using p(5) by blast
qed


lemma u32_minus1: "unat (x :: u32) = Suc n \<Longrightarrow> unat (x - 1) = n"
  by (subst unat_minus1) auto

lemma dual_open_forward:
  assumes ok: "dual_ok crypto cs s d" and g: "du_generation d \<le> g"
    and r: "ratchet_at crypto cs s r" "unat (rs_generation r) = unat g + 1"
    and sk: "length sk = unat g - unat (du_generation d)"
      "\<forall>k < length sk. generation_keys crypto cs s (unat (du_generation d) + k) = Inr (sk ! k)"
    and c: "dual_consume (DualForward (du_generation d) r sk) cfg d = (x, d')"
  shows "x = Inr () \<and> dual_ok crypto cs s d' \<and> dual_opens g d d' \<and>
    length (retained_generations d') \<le> unat (out_of_order_tolerance cfg)"
proof -
  let ?h = "du_generation d"
  let ?past = "fold (\<lambda>(k, km). btm_insert (?h + of_nat k) (RetainedForDecryption (Available km))) (enumerate 0 sk) (du_past_secrets d)"
  let ?e = "d\<lparr>du_head := r, du_past_secrets := btm_insert (rs_generation r - 1) (RetainedForDecryption Consumed) ?past\<rparr>"
  have r1: "rs_generation r - 1 = g" using u32_minus1 [of "rs_generation r"] r(2) by (auto intro: u32_eqI)
  have hg: "unat ?h \<le> unat g" using g by (simp add: word_le_nat_alt)
  have bnd: "unat ?h + length sk < 2 ^ 32" using sk(1) hg u32_le_MAX [of "rs_generation r"] r(2) by simp
  have ok0: "btm_ok (du_past_secrets d)" using ok by (simp add: dual_ok_def)
  have skk: "generation_keys crypto cs s (unat k) = Inr (sk ! (unat k - unat ?h))"
    if "?h \<le> k" "k < g" for k
    using sk(2) [rule_format, of "unat k - unat ?h"] sk(1) that by (simp add: word_le_nat_alt word_less_nat_alt)
  note ret = retain_skipped [OF ok0 bnd]
  have b: "btm_ok (du_past_secrets ?e)" using ret by (simp add: btm_ok_insert)
  have get: "du_get ?e k = (if k = g then Some (RetainedForDecryption Consumed)
      else if ?h \<le> k \<and> k < g then Some (RetainedForDecryption (Available (sk ! (unat k - unat ?h)))) else du_get d k)" for k
    using ret [where g = k] sk(1) hg by (simp add: r1 btm_get_insert word_le_nat_alt word_less_nat_alt)
  have lt: "\<forall>k x. du_get ?e k = Some x \<longrightarrow> k < du_generation ?e"
    using hg r(2) unfolding get by (auto simp: word_less_nat_alt split: if_splits dest!: dual_okD(3) [OF ok])
  have x: "x = Inr ()" and d': "d' = prune_past_secrets cfg ?e"
    using c by (simp_all add: dual_consume_def Let_def)
  note p = prune_effect [OF b lt d']
  have "dual_ok crypto cs s d'"
    unfolding dual_ok_def
  proof (intro conjI allI impI)
    show "ratchet_at crypto cs s (du_head d')" "btm_ok (du_past_secrets d')" using r(1) p(1,2) by simp_all
    fix k y assume y: "du_get d' k = Some y"
    then have e: "du_get ?e k = Some y" using p(4) [where g = k] by auto
    then have "k < du_generation ?e" using lt by blast
    then show "k < du_generation d'" using p(2) by simp
    fix km assume "entry_key y = Some km"
    then show "generation_keys crypto cs s (unat k) = Inr km"
      using e dual_okD(4) [OF ok, of k y km] skk [of k] unfolding get by (auto split: if_splits)
  qed
  moreover have "dual_opens g d d'"
  proof -
    have gk: "\<not> dual_spent g d" using leD [OF g] by (simp add: dual_spent_def)
    have "dual_spent g d'" using p(2) p(4) [where g = g] get [of g] r(2) by (auto simp: dual_spent_def word_less_nat_alt)
    moreover have "?h \<le> du_generation d'" using p(2) hg r(2) by (simp add: word_le_nat_alt)
    moreover have "du_get d' k = du_get d k \<or> du_get d' k = None \<and> k < pruned_below d'" if "k < ?h" for k
      using that g p(4) [where g = k] unfolding get by (auto split: if_splits)
    moreover have "case du_get d' k of None \<Rightarrow> k < pruned_below d' | Some e \<Rightarrow> is_retained_for_decryption e"
      if hk: "?h \<le> k" "k < du_generation d'" for k
    proof -
      have "k = g \<or> k < g" using hk(2) p(2) r(2) by (auto simp: word_less_nat_alt less_Suc_eq intro: u32_eqI)
      then have "\<exists>e. du_get ?e k = Some (RetainedForDecryption e)" using hk(1) unfolding get by auto
      then show ?thesis using p(4) [where g = k] by auto
    qed
    moreover have "pruned_below d \<le> pruned_below d'" using p(3) by simp
    ultimately show ?thesis using gk unfolding dual_opens_def by blast
  qed
  ultimately show ?thesis using x p(5) by blast
qed


lemma dual_decrypt_effect:
  assumes ok: "dual_ok crypto cs s d" and st: "dual_secret_for_decryption cs crypto g cfg d = (r, d')"
  shows "case r of
      Inl f \<Rightarrow> d' = d \<and> dual_peek cs crypto g cfg d = Inl f
    | Inr OwnMessageConfirmed \<Rightarrow> d' = d \<and> g < du_generation d \<and> du_get d g = None \<and> pruned_below d \<le> g
    | Inr (AvailableSecret km) \<Rightarrow> generation_keys crypto cs s (unat g) = Inr km \<and> dual_ok crypto cs s d' \<and>
        dual_opens g d d' \<and> length (retained_generations d') \<le> unat (out_of_order_tolerance cfg)"
proof (cases "dual_peek cs crypto g cfg d")
  case (Inl f)
  then show ?thesis using st by (auto simp: dual_secret_for_decryption_def)
next
  case (Inr x)
  show ?thesis
  proof (cases "du_generation d \<le> g")
    case True
    then have hg: "unat (du_generation d) \<le> unat g" "unat (g - du_generation d) = unat g - unat (du_generation d)"
      by (simp_all add: word_le_nat_alt unat_sub_u32)
    from Inr True obtain r1 sk where sk: "dual_skip_generations crypto cs (unat g - unat (du_generation d)) (du_head d) [] = Inr (r1, sk)"
        "(case ratchet_forward crypto cs r1 of (Inl f, _) \<Rightarrow> Inl f
          | (Inr (_, km), r2) \<Rightarrow> Inr (AvailableSecret km, Some (DualForward (du_generation d) r2 sk))) = Inr x"
      unfolding dual_peek_def Let_def hg(2) by (auto simp: and_then_Inr split: if_splits)
    from sk(2) obtain g' km r2 where fw: "ratchet_forward crypto cs r1 = (Inr (g', km), r2)"
        "x = (AvailableSecret km, Some (DualForward (du_generation d) r2 sk))"
      by (auto split: sum.splits prod.splits)
    have s1: "unat (rs_generation r1) = unat g" "ratchet_at crypto cs s r1" "length sk = unat g - unat (du_generation d)"
        "\<forall>k < length sk. generation_keys crypto cs s (unat (du_generation d) + k) = Inr (sk ! k)"
      using dual_skip_generations_Inr [OF dual_okD(1) [OF ok] sk(1)] hg(1) by auto
    note f1 = ratchet_forward_Inr [OF s1(2) fw(1)]
    have g': "unat g' = unat g" using f1(1) s1(1) by simp
    obtain y d'' where c: "dual_consume (DualForward (du_generation d) r2 sk) cfg d = (y, d'')" by fastforce
    have r2: "unat (rs_generation r2) = unat g + 1" using f1(2) g' by simp
    note o = dual_open_forward [OF ok True f1(3) r2 s1(3,4) c]
    then have "r = Inr (AvailableSecret km)" "d' = d''"
      using st c by (auto simp: dual_secret_for_decryption_def Inr fw(2))
    then show ?thesis using o f1(4) g' by simp
  next
    case False
    then have lt: "g < du_generation d" by simp
    show ?thesis
    proof (cases "du_get d g")
      case None
      then have "x = (OwnMessageConfirmed, None)" "pruned_below d \<le> g"
        using Inr False unfolding dual_peek_def Let_def missing_past_secret_def by (auto split: if_splits)
      then show ?thesis using st None lt by (auto simp: dual_secret_for_decryption_def Inr)
    next
      case (Some e)
      then obtain km where e: "entry_key e = Some km" "x = (AvailableSecret km, Some (DualPast g))"
        using Inr False unfolding dual_peek_def Let_def by (auto simp: outcome_simps split: if_splits)
      let ?d = "prune_past_secrets cfg (d\<lparr>du_past_secrets := btm_insert g (RetainedForDecryption Consumed) (du_past_secrets d)\<rparr>)"
      have "peek_for_decryption e = Inr km" using e(1) by (simp add: outcome_simps)
      then have "dual_consume (DualPast g) cfg d = (Inr (), ?d)"
        by (simp add: dual_consume_def Some take_for_decryption_def)
      then have "r = Inr (AvailableSecret km)" "d' = ?d"
        using st by (auto simp: dual_secret_for_decryption_def Inr e(2))
      then show ?thesis using dual_open_past [OF ok lt Some e(1), of d' cfg] dual_okD(4) [OF ok Some e(1)] by simp
    qed
  qed
qed

lemma dual_skip_generations_total:
  assumes "hkdf_lengths crypto" "hkdf_total crypto" and "ratchet_at crypto cs s r"
    and "unat (rs_generation r) + n \<le> 2 ^ 32 - 1"
  shows "\<exists>x. dual_skip_generations crypto cs n r acc = Inr x"
  using assms(3,4)
proof (induction n arbitrary: r acc)
  case (Suc n)
  then have "rs_generation r \<noteq> U32_MAX" using u32_eq_MAX [of "rs_generation r"] by auto
  then obtain km r' where f: "ratchet_forward crypto cs r = (Inr (rs_generation r, km), r')"
    by (rule ratchet_forward_succeeds [OF assms(1,2)])
  note fw = ratchet_forward_Inr [OF Suc.prems(1) f]
  show ?case using Suc.IH [OF fw(3)] fw(2) Suc.prems(2) by (simp add: f)
qed simp

text \<open>With a backend that does not fail, these are the only errors.\<close>

lemma dual_peek_Inl:
  assumes h: "hkdf_lengths crypto" "hkdf_total crypto" and ok: "dual_ok crypto cs s d"
    and p: "dual_peek cs crypto g cfg d = Inl f"
  shows "f \<in> Throws ` {TooDistantInTheFuture, RatchetTooLong, TooDistantInThePast, SecretReuseError}"
proof (cases "du_generation d \<le> g \<and> \<not> too_distant_in_the_future (du_generation d) g cfg")
  case True
  let ?h = "unat (du_generation d)"
  have hg: "?h \<le> unat g" "unat (g - du_generation d) = unat g - ?h"
    using True by (simp_all add: word_le_nat_alt unat_sub_u32)
  have "?h + (unat g - ?h) \<le> 2 ^ 32 - 1" using hg(1) u32_le_MAX [of g] by simp
  then obtain r1 sk where sk: "dual_skip_generations crypto cs (unat g - ?h) (du_head d) [] = Inr (r1, sk)"
    using dual_skip_generations_total [OF h dual_okD(1) [OF ok]] by (metis surj_pair)
  have k: "(case ratchet_forward crypto cs r1 of (Inl f, _) \<Rightarrow> Inl f
      | (Inr (_, km), r2) \<Rightarrow> Inr (AvailableSecret km, Some (DualForward (du_generation d) r2 sk))) = Inl f"
    using p True unfolding dual_peek_def Let_def hg(2) by (simp add: sk)
  have "rs_generation r1 = U32_MAX"
  proof (rule ccontr)
    assume "rs_generation r1 \<noteq> U32_MAX"
    then obtain km r' where "ratchet_forward crypto cs r1 = (Inr (rs_generation r1, km), r')"
      by (rule ratchet_forward_succeeds [OF h])
    then show False using k by simp
  qed
  then show ?thesis using k ratchet_forward_limit [of r1] by auto
next
  case False
  show ?thesis
  proof (cases "du_get d g")
    case None
    then show ?thesis using p False unfolding dual_peek_def Let_def missing_past_secret_def
      by (auto simp: outcome_simps split: if_splits)
  next
    case (Some e)
    then show ?thesis using p False unfolding dual_peek_def Let_def
      by (cases e rule: peek_for_decryption.cases) (auto split: if_splits)
  qed
qed

lemma dual_encrypt_Inr:
  assumes "dual_ok crypto cs s d" and "dual_secret_for_encryption cs crypto d = (Inr (g, km), d')"
  shows "g = du_generation d" "generation_keys crypto cs s (unat g) = Inr km" "dual_ok crypto cs s d'"
    "unat (du_generation d') = Suc (unat g)" "pruned_below d' = pruned_below d"
    "du_get d' k = (if k = g then Some (AwaitingConfirmation km) else du_get d k)"
proof -
  from assms(2) obtain g' r where fw: "ratchet_forward crypto cs (du_head d) = (Inr (g', km), r)" "g = du_generation d"
      "d' = d\<lparr>du_head := r, du_past_secrets := btm_insert g (AwaitingConfirmation km) (du_past_secrets d)\<rparr>"
    by (auto simp: dual_secret_for_encryption_def Let_def split: prod.splits sum.splits)
  note f = ratchet_forward_Inr [OF dual_okD(1) [OF assms(1)] fw(1)]
  show "g = du_generation d" "generation_keys crypto cs s (unat g) = Inr km"
    "unat (du_generation d') = Suc (unat g)" "pruned_below d' = pruned_below d"
    using f fw by simp_all
  show get: "du_get d' k = (if k = g then Some (AwaitingConfirmation km) else du_get d k)" for k
    using dual_okD(2) [OF assms(1)] by (simp add: fw(3) btm_get_insert)
  show "dual_ok crypto cs s d'"
    unfolding dual_ok_def
  proof (intro conjI allI impI)
    show "ratchet_at crypto cs s (du_head d')" "btm_ok (du_past_secrets d')"
      using f dual_okD(2) [OF assms(1)] fw by (simp_all add: btm_ok_insert)
    fix k e assume e: "du_get d' k = Some e"
    show "k < du_generation d'"
      using e f fw(2,3) get [of k] dual_okD(3) [OF assms(1), of k e] by (auto simp: word_less_nat_alt split: if_splits)
    fix km' assume "entry_key e = Some km'"
    then show "generation_keys crypto cs s (unat k) = Inr km'"
      using e f fw(2) get [of k] dual_okD(4) [OF assms(1), of k e km'] by (auto split: if_splits)
  qed
qed


lemma dual_encrypt_Inl:
  assumes "dual_ok crypto cs s d" and "dual_secret_for_encryption cs crypto d = (Inl f, d')"
  shows "d' = d \<or> f = Panics \<and> dual_ok crypto cs s d' \<and> du_past_secrets d' = du_past_secrets d \<and>
    du_generation d < du_generation d'"
proof -
  from assms(2) obtain r where fw: "ratchet_forward crypto cs (du_head d) = (Inl f, r)" "d' = d\<lparr>du_head := r\<rparr>"
    by (auto simp: dual_secret_for_encryption_def Let_def split: prod.splits sum.splits)
  from ratchet_forward_Inl [OF dual_okD(1) [OF assms(1)] fw(1)] show ?thesis
  proof
    assume "f = Panics \<and> ratchet_at crypto cs s r \<and> unat (rs_generation r) = Suc (unat (du_generation d))"
    then have r: "f = Panics" "ratchet_at crypto cs s r" "du_generation d < rs_generation r"
      by (auto simp: word_less_nat_alt)
    then have "dual_ok crypto cs s d'"
      using assms(1) fw(2) less_trans [of _ "du_generation d" "rs_generation r"] unfolding dual_ok_def by auto
    then show ?thesis using r fw(2) by simp
  qed (simp add: fw(2))
qed

lemma delete_effect:
  assumes "dual_ok crypto cs s d" and "d' = delete_secret_for_generation g d"
  shows "dual_ok crypto cs s d'" "du_head d' = du_head d" "pruned_below d' = pruned_below d"
    "du_get d' k = (case du_get d k of Some (AwaitingConfirmation km) \<Rightarrow> if k = g then None else du_get d k | x \<Rightarrow> x)"
proof -
  have ok: "btm_ok (du_past_secrets d)" using assms(1) by (rule dual_okD)
  show h: "du_head d' = du_head d" "pruned_below d' = pruned_below d"
    using assms(2) by (auto simp: delete_secret_for_generation_def split: option.splits DualUsePastSecret.splits)
  have g: "du_get d' k = (case du_get d k of Some (AwaitingConfirmation km) \<Rightarrow> if k = g then None else du_get d k | x \<Rightarrow> x)" for k
    using assms(2) ok dual_okD(3) [OF assms(1), of g]
    by (auto simp: delete_secret_for_generation_def btm_get_remove not_le [symmetric] split: option.splits DualUsePastSecret.splits)
  then show "du_get d' k = (case du_get d k of Some (AwaitingConfirmation km) \<Rightarrow> if k = g then None else du_get d k | x \<Rightarrow> x)" .
  have sub: "du_get d k = Some e" if "du_get d' k = Some e" for k e
    using that g [of k] by (auto split: option.splits DualUsePastSecret.splits if_splits)
  have "btm_ok (du_past_secrets d')"
    using assms(2) ok by (auto simp: delete_secret_for_generation_def btm_ok_remove split: option.splits DualUsePastSecret.splits)
  then show "dual_ok crypto cs s d'"
    using dual_okD [OF assms(1)] sub h unfolding dual_ok_def by metis
qed

section \<open>Runs of a dual-use ratchet\<close>

text \<open>
  The operations of a dual-use ratchet, in the order in which the clients that share the member
  happen to use them: sending, the delivery service confirming a sent message, and opening a
  message of the member.
\<close>

datatype DualOp = Encrypt | Confirm Generation | Decrypt Generation SenderRatchetConfiguration

datatype DualResult = Emitted Generation RatchetKeyMaterial | Confirmed | Opened DecryptionSecret

fun dual_step :: "OpenMlsCrypto \<Rightarrow> Ciphersuite \<Rightarrow> DualOp \<Rightarrow> (DualUseRatchet, DualResult, SecretTreeError) mutator" where
  "dual_step crypto cs Encrypt d =
     (case dual_secret_for_encryption cs crypto d of
        (Inl f, d') \<Rightarrow> (Inl f, d') | (Inr (g, km), d') \<Rightarrow> (Inr (Emitted g km), d'))"
| "dual_step crypto cs (Confirm g) d = (Inr Confirmed, delete_secret_for_generation g d)"
| "dual_step crypto cs (Decrypt g cfg) d =
     (case dual_secret_for_decryption cs crypto g cfg d of
        (Inl f, d') \<Rightarrow> (Inl f, d') | (Inr x, d') \<Rightarrow> (Inr (Opened x), d'))"

fun opened :: "DualOp \<Rightarrow> (DualResult, SecretTreeError) outcome \<Rightarrow> Generation option" where
  "opened (Decrypt g _) (Inr (Opened (AvailableSecret _))) = Some g"
| "opened _ _ = None"

fun emitted :: "DualOp \<Rightarrow> (DualResult, SecretTreeError) outcome \<Rightarrow> Generation option" where
  "emitted _ (Inr (Emitted g _)) = Some g"
| "emitted _ _ = None"

text \<open>The cases of a step, as the proofs about runs use them.\<close>

lemma dual_step_cases:
  assumes ok: "dual_ok crypto cs s d" and st: "dual_step crypto cs op d = (r, d')"
  obtains (emit) km where "op = Encrypt" "r = Inr (Emitted (du_generation d) km)"
      "dual_secret_for_encryption cs crypto d = (Inr (du_generation d, km), d')"
  | (panic) "r = Inl Panics" "op = Encrypt" "dual_secret_for_encryption cs crypto d = (Inl Panics, d')"
      "dual_ok crypto cs s d'" "du_past_secrets d' = du_past_secrets d" "du_generation d < du_generation d'"
  | (confirm) g where "op = Confirm g" "r = Inr Confirmed" "d' = delete_secret_for_generation g d"
  | (open_key) g cfg km where "op = Decrypt g cfg" "r = Inr (Opened (AvailableSecret km))"
      "generation_keys crypto cs s (unat g) = Inr km" "dual_ok crypto cs s d'" "dual_opens g d d'"
  | (own) g cfg where "op = Decrypt g cfg" "r = Inr (Opened OwnMessageConfirmed)" "d' = d"
      "g < du_generation d" "du_get d g = None" "pruned_below d \<le> g"
  | (fail) f where "r = Inl f" "d' = d"
proof (cases op)
  case Encrypt
  show thesis
  proof (cases "dual_secret_for_encryption cs crypto d")
    case (Pair x e)
    then show thesis
    proof (cases x)
      case (Inl f)
      with Pair st Encrypt have "r = Inl f" "e = d'" by simp_all
      with Pair Inl show thesis using dual_encrypt_Inl [OF ok, of f d'] panic [OF _ Encrypt] fail [of f] by blast
    next
      case (Inr y)
      then obtain km where "y = (du_generation d, km)" using dual_encrypt_Inr(1) [OF ok] Pair by (cases y) auto
      with Pair Inr st Encrypt show thesis using emit [OF Encrypt, of km] by simp
    qed
  qed
next
  case (Confirm g)
  then show thesis using st confirm by auto
next
  case (Decrypt g cfg)
  obtain x e where x: "dual_secret_for_decryption cs crypto g cfg d = (x, e)" by fastforce
  show thesis
  proof (cases x)
    case (Inl f)
    then show thesis using dual_decrypt_effect [OF ok x] st Decrypt x fail [of f] by simp
  next
    case (Inr y)
    have e: "r = Inr (Opened y)" "d' = e" using st Decrypt x Inr by simp_all
    show thesis
    proof (cases y)
      case (AvailableSecret km)
      then have "generation_keys crypto cs s (unat g) = Inr km" "dual_ok crypto cs s d'" "dual_opens g d d'"
        using dual_decrypt_effect [OF ok x] e Inr by simp_all
      with open_key [OF Decrypt] e AvailableSecret show thesis by blast
    next
      case OwnMessageConfirmed
      then have "d' = d" "g < du_generation d" "du_get d g = None" "pruned_below d \<le> g"
        using dual_decrypt_effect [OF ok x] e Inr by simp_all
      with own [OF Decrypt] e OwnMessageConfirmed show thesis by blast
    qed
  qed
qed

lemma dual_step_ok: "dual_ok crypto cs s d \<Longrightarrow> dual_ok crypto cs s (snd (dual_step crypto cs op d))"
proof -
  assume ok: "dual_ok crypto cs s d"
  obtain r d' where st: "dual_step crypto cs op d = (r, d')" by fastforce
  have "dual_ok crypto cs s d'"
    using ok st
  proof (cases rule: dual_step_cases)
    case emit
    then show ?thesis by (blast intro: dual_encrypt_Inr(3) [OF ok])
  next
    case confirm
    then show ?thesis by (blast intro: delete_effect(1) [OF ok])
  qed (use ok in simp_all)
  then show ?thesis by (simp add: st)
qed

lemma dual_step_generation:
  assumes ok: "dual_ok crypto cs s d" shows "du_generation d \<le> du_generation (snd (dual_step crypto cs op d))"
proof -
  obtain r d' where st: "dual_step crypto cs op d = (r, d')" by fastforce
  have "du_generation d \<le> du_generation d'"
    using ok st
  proof (cases rule: dual_step_cases)
    case emit
    then show ?thesis using dual_encrypt_Inr(4) [OF ok emit(3)] by (simp add: word_le_nat_alt)
  next
    case confirm
    then show ?thesis using delete_effect(2) [OF ok confirm(3)] by simp
  qed (simp_all add: dual_opensD(3))
  then show ?thesis by (simp add: st)
qed

lemma dual_stays_spent:
  assumes ok: "dual_ok crypto cs s d" and sp: "dual_spent k d"
  shows "dual_spent k (snd (dual_step crypto cs op d))"
proof -
  obtain r d' where st: "dual_step crypto cs op d = (r, d')" by fastforce
  have k: "k < du_generation d'" using sp dual_step_generation [OF ok, of op] st by (auto simp: dual_spent_def)
  have "\<forall>e. du_get d' k = Some e \<longrightarrow> entry_key e = None"
    using ok st
  proof (cases rule: dual_step_cases)
    case emit
    then show ?thesis using dual_encrypt_Inr(6) [OF ok emit(3), where k = k] sp by (auto simp: dual_spent_def split: if_splits)
  next
    case (confirm g)
    then show ?thesis using delete_effect(4) [OF ok confirm(3), of k] sp
      by (auto simp: dual_spent_def split: option.splits DualUsePastSecret.splits if_splits)
  next
    case (open_key g)
    have "du_get d' k = du_get d k \<or> du_get d' k = Some (RetainedForDecryption Consumed) \<or> du_get d' k = None"
      using dual_opensD(5) [OF open_key(5), of k] sp unfolding dual_spent_def by auto
    then show ?thesis using sp by (auto simp: dual_spent_def)
  qed (use sp in \<open>auto simp: dual_spent_def\<close>)
  then show ?thesis using k st by (simp add: dual_spent_def)
qed

interpretation dual_dec: one_time "dual_step crypto cs" "dual_ok crypto cs s" opened dual_spent for crypto cs s
proof unfold_locales
  fix d op k
  assume ok: "dual_ok crypto cs s d"
  obtain r d' where st: "dual_step crypto cs op d = (r, d')" by fastforce
  show "dual_ok crypto cs s (snd (dual_step crypto cs op d))" using ok by (rule dual_step_ok)
  show "opened op (fst (dual_step crypto cs op d)) = Some k \<Longrightarrow>
      \<not> dual_spent k d \<and> dual_spent k (snd (dual_step crypto cs op d))"
    unfolding st fst_conv snd_conv using ok st
    by (cases rule: dual_step_cases) (simp_all add: dual_opensD(1,2) del: split_paired_All split_paired_Ex)
  show "dual_spent k d \<Longrightarrow> dual_spent k (snd (dual_step crypto cs op d))" using ok by (rule dual_stays_spent)
qed

interpretation dual_enc: one_time "dual_step crypto cs" "dual_ok crypto cs s" emitted "\<lambda>g d. g < du_generation d"
  for crypto cs s
proof unfold_locales
  fix d op k
  assume ok: "dual_ok crypto cs s d"
  obtain r d' where st: "dual_step crypto cs op d = (r, d')" by fastforce
  show "emitted op (fst (dual_step crypto cs op d)) = Some k \<Longrightarrow>
      \<not> k < du_generation d \<and> k < du_generation (snd (dual_step crypto cs op d))"
    unfolding st fst_conv snd_conv using ok st
    by (cases rule: dual_step_cases) (simp_all add: word_less_nat_alt dual_encrypt_Inr(4) [OF ok])
  show "k < du_generation d \<Longrightarrow> k < du_generation (snd (dual_step crypto cs op d))"
    using dual_step_generation [OF ok, of op] by auto
qed


text \<open>
  What a run tells about a generation: that it was sent, and that its confirmation followed.
\<close>

definition own_sent :: "(DualResult, SecretTreeError) outcome list \<Rightarrow> Generation \<Rightarrow> bool" where
  "own_sent rs g \<longleftrightarrow> (\<exists>a < length rs. \<exists>km. rs ! a = Inr (Emitted g km))"

definition own_confirmed :: "DualOp list \<Rightarrow> (DualResult, SecretTreeError) outcome list \<Rightarrow> Generation \<Rightarrow> bool" where
  "own_confirmed ops rs g \<longleftrightarrow> (\<exists>b < length ops. ops ! b = Confirm g \<and> own_sent (take b rs) g)"

definition history_ok :: "DualOp list \<Rightarrow> (DualResult, SecretTreeError) outcome list \<Rightarrow> DualUseRatchet \<Rightarrow> bool" where
  "history_ok ops rs d \<longleftrightarrow>
     (\<forall>k < du_generation d. pruned_below d \<le> k \<longrightarrow> du_get d k = None \<longrightarrow> own_confirmed ops rs k) \<and>
     (\<forall>k km. du_get d k = Some (AwaitingConfirmation km) \<longrightarrow> own_sent rs k)"

lemma own_sent_append [intro]: "own_sent rs g \<Longrightarrow> own_sent (rs @ [r]) g"
  unfolding own_sent_def by (metis length_append_singleton less_SucI nth_append)

lemma own_sent_last [simp]: "own_sent (rs @ [Inr (Emitted g km)]) g"
  by (auto simp: own_sent_def intro!: exI [of _ "length rs"])

lemma own_confirmed_append [intro]: "length ops = length rs \<Longrightarrow> own_confirmed ops rs g \<Longrightarrow> own_confirmed (ops @ [op]) (rs @ [r]) g"
  unfolding own_confirmed_def by (metis append.right_neutral diff_is_0_eq' length_append_singleton less_SucI less_imp_le nth_append take0 take_append)

lemma own_confirmed_last: "length ops = length rs \<Longrightarrow> own_sent rs g \<Longrightarrow> own_confirmed (ops @ [Confirm g]) (rs @ [r]) g"
  unfolding own_confirmed_def by (auto simp: nth_append intro!: exI [of _ "length ops"])

lemma history_step:
  assumes ok: "dual_ok crypto cs s d" and st: "dual_step crypto cs op d = (r, d')" and np: "r \<noteq> Inl Panics"
    and h: "history_ok ops rs d" and len: "length ops = length rs"
  shows "history_ok (ops @ [op]) (rs @ [r]) d'"
  using ok st
proof (cases rule: dual_step_cases)
  case (emit km)
  note e = dual_encrypt_Inr [OF ok emit(3)]
  have "k < du_generation d" if "k < du_generation d'" "k \<noteq> du_generation d" for k
    using that e(4) by (auto simp: word_less_nat_alt less_Suc_eq intro: u32_eqI)
  then show ?thesis using h len e(5) emit(2) unfolding history_ok_def e(6) by auto
next
  case (confirm g)
  note c = delete_effect [OF ok confirm(3)]
  show ?thesis unfolding history_ok_def
  proof (intro conjI allI impI)
    fix k assume k: "k < du_generation d'" "pruned_below d' \<le> k" "du_get d' k = None"
    show "own_confirmed (ops @ [op]) (rs @ [r]) k"
    proof (cases "du_get d k")
      case None
      then show ?thesis using h k c(2,3) len by (auto simp: history_ok_def)
    next
      case (Some e)
      then obtain km where "e = AwaitingConfirmation km" "k = g"
        using k(3) c(4) [of k] by (auto split: DualUsePastSecret.splits if_splits)
      then show ?thesis using h Some own_confirmed_last [OF len, of g r] confirm(1) by (auto simp: history_ok_def)
    qed
  next
    fix k km assume "du_get d' k = Some (AwaitingConfirmation km)"
    then have "du_get d k = Some (AwaitingConfirmation km)"
      using c(4) [of k] by (auto split: option.splits DualUsePastSecret.splits if_splits)
    then show "own_sent (rs @ [r]) k" using h by (auto simp: history_ok_def)
  qed
next
  case (open_key g cfg km)
  note o = dual_opensD [OF open_key(5)]
  show ?thesis unfolding history_ok_def
  proof (intro conjI allI impI)
    fix k assume k: "k < du_generation d'" "pruned_below d' \<le> k" "du_get d' k = None"
    have "k < du_generation d" using o(6) [of k] k by (cases "k < du_generation d") (auto simp: not_less)
    moreover from this have "du_get d k = None" using o(5) [of k] k by auto
    ultimately show "own_confirmed (ops @ [op]) (rs @ [r]) k"
      using h len k(2) o(4) by (auto simp: history_ok_def)
  next
    fix k km assume a: "du_get d' k = Some (AwaitingConfirmation km)"
    then have "k < du_generation d'" by (rule dual_okD(3) [OF open_key(4)])
    then have "k < du_generation d" using o(6) [of k] a by (cases "k < du_generation d") (auto simp: not_less)
    then have "du_get d k = Some (AwaitingConfirmation km)" using o(5) [of k] a by auto
    then show "own_sent (rs @ [r]) k" using h by (auto simp: history_ok_def)
  qed
qed (use np h len in \<open>auto simp: history_ok_def\<close>)

lemma history_run:
  assumes "Inl Panics \<notin> set (fst (run_ops (dual_step crypto cs) ops (dual_use_new s)))"
  shows "history_ok ops (fst (run_ops (dual_step crypto cs) ops (dual_use_new s)))
    (snd (run_ops (dual_step crypto cs) ops (dual_use_new s)))"
  using assms
proof (induction ops rule: rev_induct)
  case Nil
  show ?case by (simp add: history_ok_def dual_use_new_def initial_ratchet_secret_def)
next
  case (snoc op ops)
  let ?run = "run_ops (dual_step crypto cs) ops (dual_use_new s)"
  have ok: "dual_ok crypto cs s (snd ?run)" by (rule dual_dec.inv_run) simp
  obtain r d' where st: "dual_step crypto cs op (snd ?run) = (r, d')" by fastforce
  have "history_ok ops (fst ?run) (snd ?run)" "r \<noteq> Inl Panics"
    using snoc st by (auto simp: run_ops_append)
  from history_step [OF ok st this(2,1)] show ?case by (simp add: run_ops_append st length_run_ops)
qed


text \<open>
  C19: a client is told that a message is its member's own confirmed message only if that is so:
  in every run without a panic, the answer for generation \<open>g\<close> is preceded by a send of
  generation \<open>g\<close> and, after that, by its confirmation.
\<close>

theorem own_message_confirmed_sound:
  assumes "fst (run_ops (dual_step crypto cs) ops (dual_use_new s)) = rs" and "Inl Panics \<notin> set rs"
    and "i < length ops" and "ops ! i = Decrypt g cfg" and "rs ! i = Inr (Opened OwnMessageConfirmed)"
  shows "\<exists>a b km. a < b \<and> b < i \<and> rs ! a = Inr (Emitted g km) \<and> ops ! b = Confirm g"
proof -
  let ?run = "run_ops (dual_step crypto cs) (take i ops) (dual_use_new s)"
  have split: "ops = take i ops @ ops ! i # drop (Suc i) ops" using assms(3) by (rule id_take_nth_drop)
  have len: "length (fst ?run) = i" using assms(3) by (simp add: length_run_ops)
  have rs: "rs = fst ?run @ fst (run_ops (dual_step crypto cs) (ops ! i # drop (Suc i) ops) (snd ?run))"
    using assms(1) split run_ops_append(1) by metis
  then have i: "rs ! i = fst (dual_step crypto cs (ops ! i) (snd ?run))" using len by (simp add: nth_append del: length_take)
  have hist: "history_ok (take i ops) (fst ?run) (snd ?run)" using assms(2) rs by (intro history_run) auto
  have ok: "dual_ok crypto cs s (snd ?run)" by (rule dual_dec.inv_run) simp
  obtain d' where "dual_step crypto cs (ops ! i) (snd ?run) = (rs ! i, d')" using i by (metis prod.collapse)
  with ok have "g < du_generation (snd ?run)" "du_get (snd ?run) g = None" "pruned_below (snd ?run) \<le> g"
    by (cases rule: dual_step_cases; use assms(4,5) in auto)+
  then have "own_confirmed (take i ops) (fst ?run) g" using hist by (simp add: history_ok_def)
  then obtain a b km where ab: "b < i" "ops ! b = Confirm g" "a < b" "fst ?run ! a = Inr (Emitted g km)"
    using len by (auto simp: own_confirmed_def own_sent_def)
  moreover have "rs ! a = Inr (Emitted g km)" using ab len rs by (simp add: nth_append)
  ultimately show ?thesis by blast
qed

text \<open>Both theorems at a short run: one message is sent, confirmed, and then opened.\<close>

abbreviation sample_run :: "DualOp list" where
  "sample_run \<equiv> [Encrypt, Confirm 0, Decrypt 0 default_configuration]"

lemma sample_run_results:
  "\<exists>km. fst (run_ops (dual_step toy_crypto suite1) sample_run (dual_use_new (Secret [1]))) =
     [Inr (Emitted 0 km), Inr Confirmed, Inr (Opened OwnMessageConfirmed)]"
proof -
  let ?h = "initial_ratchet_secret (Secret [1])"
  obtain g km r where fw: "ratchet_forward toy_crypto suite1 ?h = (Inr (g, km), r)"
    by (rule ratchet_forward_succeeds [OF toy_crypto_ok(1,2), of ?h suite1]) (auto simp: initial_ratchet_secret_def U32_MAX_def)
  have "rs_generation r = 1"
    using ratchet_forward_Inr(1,2) [OF ratchet_at_initial fw] by (auto simp: initial_ratchet_secret_def intro: u32_eqI)
  then show ?thesis
    by (simp add: fw [unfolded initial_ratchet_secret_def] dual_use_new_def dual_secret_for_encryption_def initial_ratchet_secret_def
        delete_secret_for_generation_def dual_secret_for_decryption_def dual_peek_def missing_past_secret_def
        too_distant_in_the_future_iff default_configuration_def btm_get_insert btm_get_remove btm_ok_insert)
qed


theorem own_message_confirmed_sound_witness:
  "\<exists>a b km. a < b \<and> b < 2 \<and> sample_run ! b = Confirm 0 \<and>
     fst (run_ops (dual_step toy_crypto suite1) sample_run (dual_use_new (Secret [1]))) ! a = Inr (Emitted 0 km)"
proof -
  obtain km where r: "fst (run_ops (dual_step toy_crypto suite1) sample_run (dual_use_new (Secret [1]))) =
     [Inr (Emitted 0 km), Inr Confirmed, Inr (Opened OwnMessageConfirmed)]" using sample_run_results by blast
  from own_message_confirmed_sound [OF r, of 2 0 default_configuration] r show ?thesis by auto
qed

end
