(* ===== verification/SecretTree.thy ===== *)
theory SecretTree
  imports DualUseRatchet TreeMath
begin

text \<open>
  The secret tree of an epoch (\<^verbatim>\<open>tree/secret_tree.rs\<close>): the encryption secret at the root is
  expanded on demand down to the leaves, whose secrets start the ratchets of the members.  The
  feature \<^verbatim>\<open>virtual-clients-draft\<close> is the flag \<open>vc\<close>.
\<close>

section \<open>The tree\<close>

datatype SecretType = HandshakeSecret | ApplicationSecret

datatype ContentType = Application | Proposal | Commit

fun secret_type_from :: "ContentType \<Rightarrow> SecretType" where
  "secret_type_from Application = ApplicationSecret"
| "secret_type_from Commit = HandshakeSecret"
| "secret_type_from Proposal = HandshakeSecret"

datatype SecretTreeNode = SecretTreeNode (node_secret: Secret)

record SecretTree =
  own_index :: LeafNodeIndex
  leaf_nodes :: "SecretTreeNode option list"
  parent_nodes :: "SecretTreeNode option list"
  handshake_sender_ratchets :: "SenderRatchet option list"
  application_sender_ratchets :: "SenderRatchet option list"
  st_size :: TreeSize

datatype PeekedRatchetGeneration =
    PeekedDecryption PeekedGeneration
  | PeekedDualUse PeekedDualUseGeneration

record PendingRatchetUpdate =
  pru_index :: LeafNodeIndex
  pru_secret_type :: SecretType
  pru_peeked :: PeekedRatchetGeneration

fun get_node :: "SecretTree \<Rightarrow> TreeNodeIndex \<Rightarrow> (SecretTreeNode option, SecretTreeError) outcome" where
  "get_node self (Leaf i) = ok_or (vec_get (leaf_nodes self) (leaf_usize i)) IndexOutOfBounds"
| "get_node self (Parent i) = ok_or (vec_get (parent_nodes self) (parent_usize i)) IndexOutOfBounds"

fun set_node :: "TreeNodeIndex \<Rightarrow> SecretTreeNode option \<Rightarrow> (SecretTree, unit, SecretTreeError) mutator" where
  "set_node (Leaf i) n self =
     (if leaf_usize i < length (leaf_nodes self)
      then (Inr (), self\<lparr>leaf_nodes := (leaf_nodes self)[leaf_usize i := n]\<rparr>)
      else (throw IndexOutOfBounds, self))"
| "set_node (Parent i) n self =
     (if parent_usize i < length (parent_nodes self)
      then (Inr (), self\<lparr>parent_nodes := (parent_nodes self)[parent_usize i := n]\<rparr>)
      else (throw IndexOutOfBounds, self))"

definition secret_tree_new :: "Secret \<Rightarrow> TreeSize \<Rightarrow> LeafNodeIndex \<Rightarrow> SecretTree" where
  "secret_tree_new encryption_secret sz own =
     (let leaf_count = unat (size_leaf_count sz);
          self = \<lparr>own_index = own,
            leaf_nodes = replicate leaf_count None,
            parent_nodes = replicate leaf_count None,
            handshake_sender_ratchets = replicate leaf_count None,
            application_sender_ratchets = replicate leaf_count None,
            st_size = sz\<rparr>
      in snd (set_node (root sz) (Some (SecretTreeNode encryption_secret)) self))"

fun sender_ratchets :: "SecretType \<Rightarrow> SecretTree \<Rightarrow> SenderRatchet option list" where
  "sender_ratchets HandshakeSecret self = handshake_sender_ratchets self"
| "sender_ratchets ApplicationSecret self = application_sender_ratchets self"

fun set_sender_ratchets :: "SecretType \<Rightarrow> SenderRatchet option list \<Rightarrow> SecretTree \<Rightarrow> SecretTree" where
  "set_sender_ratchets HandshakeSecret rs self = self\<lparr>handshake_sender_ratchets := rs\<rparr>"
| "set_sender_ratchets ApplicationSecret rs self = self\<lparr>application_sender_ratchets := rs\<rparr>"

definition ratchet_opt :: "LeafNodeIndex \<Rightarrow> SecretType \<Rightarrow> SecretTree \<Rightarrow> (SenderRatchet option, SecretTreeError) outcome" where
  "ratchet_opt index secret_type self =
     ok_or (vec_get (sender_ratchets secret_type self) (leaf_usize index)) IndexOutOfBounds"

text \<open>
  A mutable reference to a ratchet and its use: the operation runs on the ratchet in place and
  what it leaves there is stored, also when it fails.
\<close>

definition ratchet_mut ::
  "LeafNodeIndex \<Rightarrow> SecretType \<Rightarrow> (SenderRatchet, 'a, SecretTreeError) mutator \<Rightarrow> (SecretTree, 'a, SecretTreeError) mutator" where
  "ratchet_mut index secret_type op self =
     (case vec_get (sender_ratchets secret_type self) (leaf_usize index) of
        Some (Some r) \<Rightarrow>
          (let (x, r') = op r in
           (x, set_sender_ratchets secret_type
                 ((sender_ratchets secret_type self)[leaf_usize index := Some r']) self))
      | _ \<Rightarrow> (throw IndexOutOfBounds, self))"

definition derive_child_secrets ::
  "OpenMlsCrypto \<Rightarrow> Ciphersuite \<Rightarrow> Secret \<Rightarrow> (Secret \<times> Secret, CryptoError) outcome" where
  "derive_child_secrets crypto cs parent_secret =
     and_then (kdf_expand_label crypto cs parent_secret ''tree'' (str_bytes ''left'') (hash_length cs)) (\<lambda>l.
     and_then (kdf_expand_label crypto cs parent_secret ''tree'' (str_bytes ''right'') (hash_length cs)) (\<lambda>r.
       Inr (l, r)))"

definition derive_down ::
  "Ciphersuite \<Rightarrow> OpenMlsCrypto \<Rightarrow> ParentNodeIndex \<Rightarrow> (SecretTree, unit, SecretTreeError) mutator" where
  "derive_down cs crypto index_in_tree self =
     (case get_node self (Parent index_in_tree) of
        Inl f \<Rightarrow> (Inl f, self)
      | Inr None \<Rightarrow> (throw LibraryError, self)
      | Inr (Some n) \<Rightarrow>
          (case map_err CryptoErr (derive_child_secrets crypto cs (node_secret n)) of
             Inl f \<Rightarrow> (Inl f, self)
           | Inr (left_secret, right_secret) \<Rightarrow>
               m_then (set_node (left index_in_tree) (Some (SecretTreeNode left_secret))) (\<lambda>_.
               m_then (set_node (right index_in_tree) (Some (SecretTreeNode right_secret))) (\<lambda>_.
                 set_node (Parent index_in_tree) None)) self))"

text \<open>The parents from the leaf up to and including the first one that holds a secret.\<close>

fun empty_nodes :: "SecretTree \<Rightarrow> ParentNodeIndex list \<Rightarrow> (ParentNodeIndex list, SecretTreeError) outcome" where
  "empty_nodes self [] = Inr []"
| "empty_nodes self (p # ps) =
     and_then (get_node self (Parent p)) (\<lambda>n.
       if n \<noteq> None then Inr [p] else and_then (empty_nodes self ps) (\<lambda>qs. Inr (p # qs)))"

definition derive_leaf ::
  "Ciphersuite \<Rightarrow> OpenMlsCrypto \<Rightarrow> LeafNodeIndex \<Rightarrow> (SecretTree, unit, SecretTreeError) mutator" where
  "derive_leaf cs crypto index self =
     (case and_then (terminating (direct_path index (st_size self))) (empty_nodes self) of
        Inl f \<Rightarrow> (Inl f, self)
      | Inr nodes \<Rightarrow> m_for (derive_down cs crypto) (rev nodes) self)"

definition new_ratchet :: "bool \<Rightarrow> bool \<Rightarrow> Secret \<Rightarrow> SenderRatchet" where
  "new_ratchet vc own s =
     (if own then
        if vc then DualUse (dual_use_new s) else EncryptionRatchet (initial_ratchet_secret s)
      else DecRatchet (decryption_ratchet_new s))"

definition start_ratchets ::
  "bool \<Rightarrow> Ciphersuite \<Rightarrow> OpenMlsCrypto \<Rightarrow> LeafNodeIndex \<Rightarrow> (SecretTree, unit, SecretTreeError) mutator" where
  "start_ratchets vc cs crypto index self =
     (case get_node self (Leaf index) of
        Inl f \<Rightarrow> (Inl f, self)
      | Inr None \<Rightarrow> (throw LibraryError, self)
      | Inr (Some n) \<Rightarrow>
          (case map_err CryptoErr
             (and_then (kdf_expand_label crypto cs (node_secret n) ''handshake'' [] (hash_length cs)) (\<lambda>h.
              and_then (kdf_expand_label crypto cs (node_secret n) ''application'' [] (hash_length cs)) (\<lambda>a.
                Inr (h, a)))) of
             Inl f \<Rightarrow> (Inl f, self)
           | Inr (h, a) \<Rightarrow>
               if leaf_usize index < length (handshake_sender_ratchets self) then
                 (let self = self\<lparr>handshake_sender_ratchets :=
                        (handshake_sender_ratchets self)[leaf_usize index := Some (new_ratchet vc (index = own_index self) h)]\<rparr>
                  in if leaf_usize index < length (application_sender_ratchets self) then
                       (let self = self\<lparr>application_sender_ratchets :=
                              (application_sender_ratchets self)[leaf_usize index := Some (new_ratchet vc (index = own_index self) a)]\<rparr>
                        in set_node (Leaf index) None self)
                     else (throw IndexOutOfBounds, self))
               else (throw IndexOutOfBounds, self)))"

definition initialize_sender_ratchets ::
  "bool \<Rightarrow> Ciphersuite \<Rightarrow> OpenMlsCrypto \<Rightarrow> LeafNodeIndex \<Rightarrow> (SecretTree, unit, SecretTreeError) mutator" where
  "initialize_sender_ratchets vc cs crypto index self =
     (if leaf_u32 index \<ge> size_leaf_count (st_size self) then (throw IndexOutOfBounds, self)
      else
        case and_then (ratchet_opt index HandshakeSecret self) (\<lambda>h.
             if h \<noteq> None then and_then (ratchet_opt index ApplicationSecret self) (\<lambda>a. Inr (a \<noteq> None))
             else Inr False) of
          Inl f \<Rightarrow> (Inl f, self)
        | Inr True \<Rightarrow> (Inr (), self)
        | Inr False \<Rightarrow>
            (case get_node self (Leaf index) of
               Inl f \<Rightarrow> (Inl f, self)
             | Inr None \<Rightarrow> m_then (derive_leaf cs crypto index) (\<lambda>_. start_ratchets vc cs crypto index) self
             | Inr (Some _) \<Rightarrow> start_ratchets vc cs crypto index self))"

definition ensure_ratchets ::
  "bool \<Rightarrow> Ciphersuite \<Rightarrow> OpenMlsCrypto \<Rightarrow> LeafNodeIndex \<Rightarrow> SecretType \<Rightarrow> (SecretTree, unit, SecretTreeError) mutator" where
  "ensure_ratchets vc cs crypto index secret_type self =
     (case ratchet_opt index secret_type self of
        Inl f \<Rightarrow> (Inl f, self)
      | Inr None \<Rightarrow> initialize_sender_ratchets vc cs crypto index self
      | Inr (Some _) \<Rightarrow> (Inr (), self))"

fun peek_ratchet ::
  "Ciphersuite \<Rightarrow> OpenMlsCrypto \<Rightarrow> Generation \<Rightarrow> SenderRatchetConfiguration \<Rightarrow> SenderRatchet \<Rightarrow>
     (DecryptionSecret \<times> PeekedRatchetGeneration option, SecretTreeError) outcome" where
  "peek_ratchet cs crypto g cfg (EncryptionRatchet _) = throw RatchetTypeError"
| "peek_ratchet cs crypto g cfg (DecRatchet r) =
     and_then (peek cs crypto g cfg r) (\<lambda>(km, p). Inr (AvailableSecret km, Some (PeekedDecryption p)))"
| "peek_ratchet cs crypto g cfg (DualUse r) =
     and_then (dual_peek cs crypto g cfg r) (\<lambda>(s, p). Inr (s, map_option PeekedDualUse p))"

definition prepare_decryption ::
  "bool \<Rightarrow> Ciphersuite \<Rightarrow> OpenMlsCrypto \<Rightarrow> LeafNodeIndex \<Rightarrow> SecretType \<Rightarrow> Generation \<Rightarrow> SenderRatchetConfiguration \<Rightarrow>
     (SecretTree, DecryptionSecret \<times> PendingRatchetUpdate option, SecretTreeError) mutator" where
  "prepare_decryption vc cs crypto index secret_type generation configuration self =
     (if leaf_u32 index \<ge> size_leaf_count (st_size self) then (throw IndexOutOfBounds, self)
      else
        m_then (ensure_ratchets vc cs crypto index secret_type) (\<lambda>_.
        m_then (ratchet_mut index secret_type (\<lambda>r. (peek_ratchet cs crypto generation configuration r, r))) (\<lambda>(s, peeked) self.
          (Inr (s, map_option (\<lambda>p. \<lparr>pru_index = index, pru_secret_type = secret_type, pru_peeked = p\<rparr>) peeked), self))) self)"

fun consume_ratchet ::
  "PeekedRatchetGeneration \<Rightarrow> SenderRatchetConfiguration \<Rightarrow> (SenderRatchet, unit, SecretTreeError) mutator" where
  "consume_ratchet (PeekedDecryption p) cfg (DecRatchet r) =
     (let (x, r') = consume p cfg r in (x, DecRatchet r'))"
| "consume_ratchet (PeekedDualUse p) cfg (DualUse r) =
     (let (x, r') = dual_consume p cfg r in (x, DualUse r'))"
| "consume_ratchet _ cfg r = (throw RatchetTypeError, r)"

definition apply_decryption_update ::
  "PendingRatchetUpdate \<Rightarrow> SenderRatchetConfiguration \<Rightarrow> (SecretTree, unit, SecretTreeError) mutator" where
  "apply_decryption_update update configuration =
     ratchet_mut (pru_index update) (pru_secret_type update) (consume_ratchet (pru_peeked update) configuration)"

definition tree_secret_for_decryption ::
  "bool \<Rightarrow> Ciphersuite \<Rightarrow> OpenMlsCrypto \<Rightarrow> LeafNodeIndex \<Rightarrow> SecretType \<Rightarrow> Generation \<Rightarrow> SenderRatchetConfiguration \<Rightarrow>
     (SecretTree, DecryptionSecret, SecretTreeError) mutator" where
  "tree_secret_for_decryption vc cs crypto index secret_type generation configuration =
     m_then (prepare_decryption vc cs crypto index secret_type generation configuration) (\<lambda>(s, update).
       case update of
         None \<Rightarrow> (\<lambda>self. (Inr s, self))
       | Some u \<Rightarrow> m_then (apply_decryption_update u configuration) (\<lambda>_ self. (Inr s, self)))"

fun encrypt_ratchet ::
  "Ciphersuite \<Rightarrow> OpenMlsCrypto \<Rightarrow> (SenderRatchet, Generation \<times> RatchetKeyMaterial, SecretTreeError) mutator" where
  "encrypt_ratchet cs crypto (DecRatchet r) = (throw RatchetTypeError, DecRatchet r)"
| "encrypt_ratchet cs crypto (EncryptionRatchet r) =
     (let (x, r') = ratchet_forward crypto cs r in (x, EncryptionRatchet r'))"
| "encrypt_ratchet cs crypto (DualUse r) =
     (let (x, r') = dual_secret_for_encryption cs crypto r in (x, DualUse r'))"

definition tree_secret_for_encryption ::
  "bool \<Rightarrow> Ciphersuite \<Rightarrow> OpenMlsCrypto \<Rightarrow> LeafNodeIndex \<Rightarrow> SecretType \<Rightarrow>
     (SecretTree, Generation \<times> RatchetKeyMaterial, SecretTreeError) mutator" where
  "tree_secret_for_encryption vc cs crypto index secret_type =
     m_then (ensure_ratchets vc cs crypto index secret_type) (\<lambda>_.
       ratchet_mut index secret_type (encrypt_ratchet cs crypto))"

fun delete_ratchet_secret :: "Generation \<Rightarrow> (SenderRatchet, unit, SecretTreeError) mutator" where
  "delete_ratchet_secret g (DualUse r) = (Inr (), DualUse (delete_secret_for_generation g r))"
| "delete_ratchet_secret g r = (throw RatchetTypeError, r)"

definition delete_own_secret_for_generation ::
  "SecretType \<Rightarrow> Generation \<Rightarrow> (SecretTree, unit, SecretTreeError) mutator" where
  "delete_own_secret_for_generation secret_type generation self =
     ratchet_mut (own_index self) secret_type (delete_ratchet_secret generation) self"


section \<open>Nodes and shape\<close>

declare get_node.simps [simp del] set_node.simps [simp del] sender_ratchets.simps [simp del] node.simps [simp del]

definition node_value :: "SecretTree \<Rightarrow> TreeNodeIndex \<Rightarrow> Secret option" where
  "node_value st n = (case get_node st n of Inr (Some x) \<Rightarrow> Some (node_secret x) | _ \<Rightarrow> None)"

abbreviation nv :: "SecretTree \<Rightarrow> nat \<Rightarrow> nat \<Rightarrow> Secret option" where
  "nv st k j \<equiv> node_value st (node k j)"

definition tree_shape :: "nat \<Rightarrow> SecretTree \<Rightarrow> bool" where
  "tree_shape d st \<longleftrightarrow> d \<le> 29 \<and> st_size st = full_size d \<and> length (leaf_nodes st) = 2 ^ d \<and>
     length (parent_nodes st) = 2 ^ d \<and> (\<forall>ty. length (sender_ratchets ty st) = 2 ^ d)"

definition same_ratchets :: "SecretTree \<Rightarrow> SecretTree \<Rightarrow> bool" where
  "same_ratchets st st' \<longleftrightarrow> own_index st' = own_index st \<and> (\<forall>ty. sender_ratchets ty st' = sender_ratchets ty st)"

lemma leaf_usize_lnode:
  assumes "j < 2 ^ d" and "d \<le> 29" shows "leaf_usize (lnode j) = j"
proof -
  have "(2::nat) ^ d \<le> 2 ^ 29" by (rule power_increasing) (use assms(2) in auto)
  then show ?thesis using assms(1) by (simp add: leaf_usize_def lnode_def unat_of_nat_u32)
qed

lemma parent_usize_pnode:
  assumes "in_depth d (Suc k) j" and "d \<le> 29"
  shows "parent_usize (pnode k j) = node_at k j" "node_at k j < 2 ^ d"
proof -
  have "(2::nat) ^ d \<le> 2 ^ 29" by (rule power_increasing) (use assms(2) in auto)
  moreover show "node_at k j < 2 ^ d" using node_at_bound [OF assms(1)] by (simp add: node_at_Suc)
  ultimately show "parent_usize (pnode k j) = node_at k j"
    by (simp add: parent_usize_def pnode_def unat_of_nat_u32)
qed

lemma get_node_in:
  assumes "tree_shape d st" and "in_depth d k j"
  shows "get_node st (node k j) = Inr (map_option SecretTreeNode (nv st k j))"
proof (cases k)
  case 0
  then have "j < 2 ^ d" using assms(2) by (simp add: in_depth_def)
  then have "vec_get (leaf_nodes st) (leaf_usize (lnode j)) \<noteq> None"
    using assms(1) by (simp add: tree_shape_def leaf_usize_lnode [of j d] vec_get_def)
  then show ?thesis using 0 by (auto simp: node_value_def get_node.simps node.simps split: option.split)
next
  case (Suc m)
  then have "vec_get (parent_nodes st) (parent_usize (pnode m j)) \<noteq> None"
    using assms by (simp add: tree_shape_def parent_usize_pnode [of d m j] vec_get_def)
  then show ?thesis using Suc by (auto simp: node_value_def get_node.simps node.simps split: option.split)
qed

lemma set_node_in:
  assumes sh: "tree_shape d st" and n: "in_depth d k j"
  obtains st' where "set_node (node k j) x st = (Inr (), st')" "tree_shape d st'" "same_ratchets st st'"
    "\<And>k' j'. in_depth d k' j' \<Longrightarrow>
       nv st' k' j' = (if k' = k \<and> j' = j then map_option node_secret x else nv st k' j')"
proof (cases k)
  case 0
  let ?st = "st\<lparr>leaf_nodes := (leaf_nodes st)[j := x]\<rparr>"
  have d: "d \<le> 29" "length (leaf_nodes st) = 2 ^ d" using sh by (auto simp: tree_shape_def)
  have j: "j < 2 ^ d" "leaf_usize (lnode j) = j" using n 0 d(1) leaf_usize_lnode [of j d] by (auto simp: in_depth_def)
  have "nv ?st k' j' = (if k' = k \<and> j' = j then map_option node_secret x else nv st k' j')"
    if a: "in_depth d k' j'" for k' j'
  proof (cases k')
    case [simp]: 0
    have "leaf_usize (lnode j') = j'" using a leaf_usize_lnode [of j' d] d(1) by (simp add: in_depth_def)
    then show ?thesis using \<open>k = 0\<close> j d by (auto simp: node_value_def get_node.simps node.simps vec_simps split: option.split)
  qed (use 0 in \<open>simp add: node_value_def get_node.simps node.simps\<close>)
  moreover have "sender_ratchets ty ?st = sender_ratchets ty st" for ty by (cases ty) (auto simp: sender_ratchets.simps)
  ultimately show thesis using that [of ?st] 0 j sh
    by (simp add: tree_shape_def same_ratchets_def set_node.simps node.simps)
next
  case (Suc m)
  let ?i = "node_at m j"
  let ?st = "st\<lparr>parent_nodes := (parent_nodes st)[?i := x]\<rparr>"
  have d: "d \<le> 29" "length (parent_nodes st) = 2 ^ d" using sh by (auto simp: tree_shape_def)
  note p = parent_usize_pnode [OF n [unfolded Suc] d(1)]
  have "nv ?st k' j' = (if k' = k \<and> j' = j then map_option node_secret x else nv st k' j')"
    if a: "in_depth d k' j'" for k' j'
  proof (cases k')
    case [simp]: (Suc m')
    have "parent_usize (pnode m' j') = node_at m' j'" using parent_usize_pnode(1) a d(1) by simp
    moreover have "node_at m' j' = ?i \<longleftrightarrow> m' = m \<and> j' = j" by (simp add: node_at_inj)
    ultimately show ?thesis using \<open>k = Suc m\<close> p d by (auto simp: node_value_def get_node.simps node.simps vec_simps split: option.split)
  qed (use Suc in \<open>simp add: node_value_def get_node.simps node.simps\<close>)
  moreover have "sender_ratchets ty ?st = sender_ratchets ty st" for ty by (cases ty) (auto simp: sender_ratchets.simps)
  ultimately show thesis using that [of ?st] Suc p sh
    by (simp add: tree_shape_def same_ratchets_def set_node.simps node.simps)
qed

lemma same_ratchets_trans: "same_ratchets st st' \<Longrightarrow> same_ratchets st' st'' \<Longrightarrow> same_ratchets st st''"
  by (simp add: same_ratchets_def)

lemma same_ratchets_refl [simp]: "same_ratchets st st"
  by (simp add: same_ratchets_def)

text \<open>The backend fails on a derivation of the tree.\<close>

definition kdf_fails :: "OpenMlsCrypto \<Rightarrow> Ciphersuite \<Rightarrow> bool" where
  "kdf_fails crypto cs \<longleftrightarrow> (\<exists>s label context f. length label < 1000 \<and> length context < 2 ^ 30 \<and>
     kdf_expand_label crypto cs s label context (hash_length cs) = Inl f)"

lemma derive_child_secrets_fails: "derive_child_secrets crypto cs s = Inl f \<Longrightarrow> kdf_fails crypto cs"
  unfolding derive_child_secrets_def kdf_fails_def and_then_Inl
  by (elim disjE exE conjE; intro exI conjI; assumption?) (auto simp: str_bytes_def)

lemma derive_down_in:
  assumes sh: "tree_shape d st" and n: "in_depth d (Suc k) j" and s: "nv st (Suc k) j = Some s"
    and dd: "derive_down cs crypto (pnode k j) st = (x, st')"
  shows "case x of Inl f \<Rightarrow> st' = st \<and> kdf_fails crypto cs
    | Inr _ \<Rightarrow> \<exists>l r. derive_child_secrets crypto cs s = Inr (l, r) \<and> tree_shape d st' \<and> same_ratchets st st' \<and>
        (\<forall>k' j'. in_depth d k' j' \<longrightarrow> nv st' k' j' =
           (if k' = k \<and> j' = 2 * j then Some l else if k' = k \<and> j' = 2 * j + 1 then Some r
            else if k' = Suc k \<and> j' = j then None else nv st k' j'))"
proof -
  have d: "d \<le> 30" using sh by (simp add: tree_shape_def)
  have g: "get_node st (Parent (pnode k j)) = Inr (Some (SecretTreeNode s))"
    using get_node_in [OF sh n] s by (simp add: node.simps)
  show ?thesis
  proof (cases "derive_child_secrets crypto cs s")
    case (Inl f)
    then show ?thesis using dd derive_child_secrets_fails [OF Inl] by (auto simp: derive_down_def g)
  next
    case (Inr lr)
    obtain l r where lr: "lr = (l, r)" by fastforce
    have c: "in_depth d k (2 * j)" "in_depth d k (2 * j + 1)"
      using in_depth_child [OF n, of 0] in_depth_child [OF n, of 1] by simp_all
    obtain s1 where s1: "set_node (node k (2 * j)) (Some (SecretTreeNode l)) st = (Inr (), s1)" "tree_shape d s1" "same_ratchets st s1"
      "\<And>k' j'. in_depth d k' j' \<Longrightarrow> nv s1 k' j' = (if k' = k \<and> j' = 2 * j then map_option node_secret (Some (SecretTreeNode l)) else nv st k' j')"
      using set_node_in [OF sh c(1)] by metis
    obtain s2 where s2: "set_node (node k (2 * j + 1)) (Some (SecretTreeNode r)) s1 = (Inr (), s2)" "tree_shape d s2" "same_ratchets s1 s2"
      "\<And>k' j'. in_depth d k' j' \<Longrightarrow> nv s2 k' j' = (if k' = k \<and> j' = 2 * j + 1 then map_option node_secret (Some (SecretTreeNode r)) else nv s1 k' j')"
      using set_node_in [OF s1(2) c(2)] by metis
    obtain s3 where s3: "set_node (node (Suc k) j) None s2 = (Inr (), s3)" "tree_shape d s3" "same_ratchets s2 s3"
      "\<And>k' j'. in_depth d k' j' \<Longrightarrow> nv s3 k' j' = (if k' = Suc k \<and> j' = j then map_option node_secret None else nv s2 k' j')"
      using set_node_in [OF s2(2) n] by metis
    have "x = Inr () \<and> st' = s3"
      using dd s1(1) s2(1) s3(1)
      by (simp add: derive_down_def g Inr lr m_then_def left_pnode [OF n d] right_pnode [OF n d] node.simps)
    moreover have "same_ratchets st s3" using s1(3) s2(3) s3(3) same_ratchets_trans by blast
    ultimately show ?thesis using Inr lr s1(4) s2(4) s3(2,4) by auto
  qed
qed

section \<open>The invariant\<close>

text \<open>
  The secret that the encryption secret determines for the node at position \<open>j\<close>, \<open>n\<close> levels
  below the root, and the one that starts a ratchet of leaf \<open>i\<close>.
\<close>

fun path_secret :: "OpenMlsCrypto \<Rightarrow> Ciphersuite \<Rightarrow> Secret \<Rightarrow> nat \<Rightarrow> nat \<Rightarrow> (Secret, CryptoError) outcome" where
  "path_secret crypto cs enc 0 j = Inr enc"
| "path_secret crypto cs enc (Suc n) j =
     and_then (path_secret crypto cs enc n (j div 2)) (\<lambda>s.
     and_then (derive_child_secrets crypto cs s) (\<lambda>(l, r). Inr (if even j then l else r)))"

fun ratchet_label :: "SecretType \<Rightarrow> string" where
  "ratchet_label HandshakeSecret = ''handshake''"
| "ratchet_label ApplicationSecret = ''application''"

definition leaf_secret ::
  "OpenMlsCrypto \<Rightarrow> Ciphersuite \<Rightarrow> Secret \<Rightarrow> nat \<Rightarrow> nat \<Rightarrow> SecretType \<Rightarrow> (Secret, CryptoError) outcome" where
  "leaf_secret crypto cs enc d i ty =
     and_then (path_secret crypto cs enc d i) (\<lambda>s.
       kdf_expand_label crypto cs s (ratchet_label ty) [] (hash_length cs))"

fun sender_ok :: "OpenMlsCrypto \<Rightarrow> Ciphersuite \<Rightarrow> bool \<Rightarrow> bool \<Rightarrow> Secret \<Rightarrow> SenderRatchet \<Rightarrow> bool" where
  "sender_ok crypto cs vc own s (EncryptionRatchet r) \<longleftrightarrow> own \<and> \<not> vc \<and> ratchet_at crypto cs s r"
| "sender_ok crypto cs vc own s (DecRatchet r) \<longleftrightarrow> \<not> own \<and> ratchet_ok crypto cs s r"
| "sender_ok crypto cs vc own s (DualUse r) \<longleftrightarrow> own \<and> vc \<and> dual_ok crypto cs s r"

text \<open>
  The levels at which the path of leaf \<open>i\<close> holds a secret.  As long as the ratchets of the leaf
  are not initialised there is exactly one, afterwards there is none.
\<close>

definition cover :: "nat \<Rightarrow> SecretTree \<Rightarrow> nat \<Rightarrow> nat set" where
  "cover d st i = {k. k \<le> d \<and> nv st k (i div 2 ^ k) \<noteq> None}"

definition nodes_ok :: "OpenMlsCrypto \<Rightarrow> Ciphersuite \<Rightarrow> Secret \<Rightarrow> nat \<Rightarrow> SecretTree \<Rightarrow> bool" where
  "nodes_ok crypto cs enc d st \<longleftrightarrow>
     (\<forall>k j s. in_depth d k j \<longrightarrow> nv st k j = Some s \<longrightarrow> path_secret crypto cs enc (d - k) j = Inr s)"

definition leaves_ok :: "nat \<Rightarrow> SecretTree \<Rightarrow> bool" where
  "leaves_ok d st \<longleftrightarrow> (\<forall>i < 2 ^ d.
     (if sender_ratchets HandshakeSecret st ! i = None
      then sender_ratchets ApplicationSecret st ! i = None \<and> (\<exists>k. cover d st i = {k})
      else sender_ratchets ApplicationSecret st ! i \<noteq> None \<and> cover d st i = {}))"

definition ratchets_ok :: "OpenMlsCrypto \<Rightarrow> Ciphersuite \<Rightarrow> bool \<Rightarrow> Secret \<Rightarrow> nat \<Rightarrow> SecretTree \<Rightarrow> bool" where
  "ratchets_ok crypto cs vc enc d st \<longleftrightarrow>
     (\<forall>ty i r. i < 2 ^ d \<longrightarrow> sender_ratchets ty st ! i = Some r \<longrightarrow>
        (\<exists>s. leaf_secret crypto cs enc d i ty = Inr s \<and> sender_ok crypto cs vc (lnode i = own_index st) s r))"

definition tree_ok :: "OpenMlsCrypto \<Rightarrow> Ciphersuite \<Rightarrow> bool \<Rightarrow> Secret \<Rightarrow> nat \<Rightarrow> SecretTree \<Rightarrow> bool" where
  "tree_ok crypto cs vc enc d st \<longleftrightarrow>
     tree_shape d st \<and> nodes_ok crypto cs enc d st \<and> leaves_ok d st \<and> ratchets_ok crypto cs vc enc d st"

lemma ratchets_ok_same: "same_ratchets st st' \<Longrightarrow> ratchets_ok crypto cs vc enc d st \<Longrightarrow> ratchets_ok crypto cs vc enc d st'"
  unfolding ratchets_ok_def same_ratchets_def by simp

lemma div_pow_Suc: "(i::nat) div 2 ^ Suc k = i div 2 ^ k div 2"
  by (metis div_mult2_eq mult.commute power_Suc)

lemma cover_nv: "k \<in> cover d st i \<longleftrightarrow> k \<le> d \<and> nv st k (i div 2 ^ k) \<noteq> None"
  by (simp add: cover_def)

lemma cover_derive_down:
  assumes i: "i < 2 ^ d" and k: "Suc k \<le> d"
    and nv': "\<forall>k' j'. in_depth d k' j' \<longrightarrow> nv st' k' j' =
           (if k' = k \<and> j' = 2 * j then Some l else if k' = k \<and> j' = 2 * j + 1 then Some r
            else if k' = Suc k \<and> j' = j then None else nv st k' j')"
  shows "cover d st' i = (if i div 2 ^ Suc k = j then insert k (cover d st i - {Suc k}) else cover d st i)"
proof -
  have half: "i div 2 ^ Suc k = j \<longleftrightarrow> i div 2 ^ k = 2 * j \<or> i div 2 ^ k = 2 * j + 1"
    unfolding div_pow_Suc by arith
  have "k' \<in> cover d st' i \<longleftrightarrow> k' \<in> (if i div 2 ^ Suc k = j then insert k (cover d st i - {Suc k}) else cover d st i)" for k'
  proof (cases "k' \<le> d")
    case True
    then have "nv st' k' (i div 2 ^ k') =
        (if k' = k \<and> i div 2 ^ k' = 2 * j then Some l else if k' = k \<and> i div 2 ^ k' = 2 * j + 1 then Some r
         else if k' = Suc k \<and> i div 2 ^ k' = j then None else nv st k' (i div 2 ^ k'))"
      using nv' in_depth_leaf [OF True i] by blast
    then show ?thesis using True half by (cases "k' = k"; cases "k' = Suc k") (auto simp: cover_nv)
  qed (use k in \<open>auto simp: cover_nv\<close>)
  then show ?thesis by blast
qed

lemma path_secret_child:
  assumes "path_secret crypto cs enc (d - Suc k) j = Inr s" and "Suc k \<le> d"
    and "derive_child_secrets crypto cs s = Inr (l, r)"
  shows "path_secret crypto cs enc (d - k) (2 * j) = Inr l" "path_secret crypto cs enc (d - k) (2 * j + 1) = Inr r"
proof -
  have "d - k = Suc (d - Suc k)" using assms(2) by simp
  then show "path_secret crypto cs enc (d - k) (2 * j) = Inr l" "path_secret crypto cs enc (d - k) (2 * j + 1) = Inr r"
    using assms(1,3) by simp_all
qed

lemma derive_down_ok:
  assumes ok: "tree_ok crypto cs vc enc d st" and i: "i < 2 ^ d" and c: "cover d st i = {Suc k}"
    and dd: "derive_down cs crypto (pnode k (i div 2 ^ Suc k)) st = (x, st')"
  shows "tree_ok crypto cs vc enc d st' \<and> same_ratchets st st' \<and> (x = Inr () \<longrightarrow> cover d st' i = {k}) \<and> (x = Inr () \<or> kdf_fails crypto cs)"
proof -
  let ?j = "i div 2 ^ Suc k"
  have sh: "tree_shape d st" and nodes: "nodes_ok crypto cs enc d st" and leaves: "leaves_ok d st"
    and rat: "ratchets_ok crypto cs vc enc d st" using ok by (auto simp: tree_ok_def)
  have k: "Suc k \<le> d" using c cover_nv [of "Suc k" d st i] by simp
  obtain s where s: "nv st (Suc k) ?j = Some s" using c cover_nv [of "Suc k" d st i] by auto
  have n: "in_depth d (Suc k) ?j" by (rule in_depth_leaf [OF k i])
  note e = derive_down_in [OF sh n s dd]
  show ?thesis
  proof (cases x)
    case (Inl f)
    then show ?thesis using e ok by simp
  next
    case (Inr u)
    then obtain l r where lr: "derive_child_secrets crypto cs s = Inr (l, r)" and sh': "tree_shape d st'" and same: "same_ratchets st st'"
      and nv': "\<forall>k' j'. in_depth d k' j' \<longrightarrow> nv st' k' j' =
           (if k' = k \<and> j' = 2 * ?j then Some l else if k' = k \<and> j' = 2 * ?j + 1 then Some r
            else if k' = Suc k \<and> j' = ?j then None else nv st k' j')"
      using e by auto
    have p: "path_secret crypto cs enc (d - Suc k) ?j = Inr s" using nodes n s by (auto simp: nodes_ok_def)
    have "nodes_ok crypto cs enc d st'"
      unfolding nodes_ok_def
    proof (intro allI impI)
      fix k' j' t assume a: "in_depth d k' j'" "nv st' k' j' = Some t"
      show "path_secret crypto cs enc (d - k') j' = Inr t"
        using nv' [rule_format, OF a(1)] a path_secret_child [OF p k lr] nodes
        by (auto simp: nodes_ok_def split: if_splits)
    qed
    moreover have cov: "cover d st' i' = (if i' div 2 ^ Suc k = ?j then insert k (cover d st i' - {Suc k}) else cover d st i')"
      if "i' < 2 ^ d" for i' by (rule cover_derive_down [OF that k nv'])
    moreover have below: "cover d st i' = {Suc k}" "sender_ratchets HandshakeSecret st ! i' = None"
      if "i' < 2 ^ d" "i' div 2 ^ Suc k = ?j" for i'
    proof -
      have "Suc k \<in> cover d st i'" using s k that(2) by (simp add: cover_nv)
      then show "sender_ratchets HandshakeSecret st ! i' = None" "cover d st i' = {Suc k}"
        using leaves that(1) unfolding leaves_ok_def by (auto split: if_splits)
    qed
    moreover have "leaves_ok d st'"
      unfolding leaves_ok_def
    proof (intro allI impI)
      fix i' :: nat assume i': "i' < 2 ^ d"
      show "if sender_ratchets HandshakeSecret st' ! i' = None
        then sender_ratchets ApplicationSecret st' ! i' = None \<and> (\<exists>k. cover d st' i' = {k})
        else sender_ratchets ApplicationSecret st' ! i' \<noteq> None \<and> cover d st' i' = {}"
        using leaves [unfolded leaves_ok_def, rule_format, OF i'] cov [OF i'] below [OF i'] same
        by (cases "i' div 2 ^ Suc k = ?j") (auto simp: same_ratchets_def)
    qed
    moreover have "ratchets_ok crypto cs vc enc d st'" using ratchets_ok_same [OF same rat] .
    ultimately show ?thesis using sh' same cov [OF i] c Inr by (simp add: tree_ok_def)
  qed
qed

lemma derive_loop_ok:
  assumes "tree_ok crypto cs vc enc d st" and "i < 2 ^ d" and "cover d st i = {m}"
    and "m_for (derive_down cs crypto) (rev (map (\<lambda>k. pnode k (i div 2 ^ Suc k)) [0..<m])) st = (x, st')"
  shows "tree_ok crypto cs vc enc d st' \<and> same_ratchets st st' \<and> (x = Inr () \<longrightarrow> cover d st' i = {0}) \<and> (x = Inr () \<or> kdf_fails crypto cs)"
  using assms(1,3,4)
proof (induction m arbitrary: st)
  case (Suc k)
  obtain y s1 where dd: "derive_down cs crypto (pnode k (i div 2 ^ Suc k)) st = (y, s1)" by fastforce
  note e = derive_down_ok [OF Suc.prems(1) assms(2) Suc.prems(2) dd]
  show ?case
  proof (cases y)
    case (Inl f)
    then show ?thesis using Suc.prems(3) e dd by (auto simp: m_then_def)
  next
    case (Inr u)
    then have "m_for (derive_down cs crypto) (rev (map (\<lambda>k. pnode k (i div 2 ^ Suc k)) [0..<k])) s1 = (x, st')"
      using Suc.prems(3) dd by (simp add: m_then_def)
    then show ?thesis using Suc.IH [of s1] e Inr same_ratchets_trans by auto
  qed
qed simp

lemma empty_nodes_eq:
  assumes sh: "tree_shape d st" and i: "i < 2 ^ d" and c: "cover d st i = {m}" and "n < m"
  shows "empty_nodes st (map (\<lambda>k. pnode k (i div 2 ^ Suc k)) [n..<d]) = Inr (map (\<lambda>k. pnode k (i div 2 ^ Suc k)) [n..<m])"
  using \<open>n < m\<close>
proof (induction "m - n" arbitrary: n)
  case (Suc l)
  have m: "m \<le> d" using c cover_nv [of m d st i] by simp
  have g: "get_node st (Parent (pnode n (i div 2 ^ Suc n))) = Inr (map_option SecretTreeNode (nv st (Suc n) (i div 2 ^ Suc n)))"
    using get_node_in [OF sh in_depth_leaf [of "Suc n" d i]] Suc.prems m i by (simp add: node.simps)
  have "nv st (Suc n) (i div 2 ^ Suc n) \<noteq> None \<longleftrightarrow> Suc n = m"
    using c cover_nv [of "Suc n" d st i] Suc.prems m by auto
  moreover have "[n..<d] = n # [Suc n..<d]" "[n..<m] = n # [Suc n..<m]" using Suc.prems m by (auto simp: upt_conv_Cons)
  moreover have "Suc n < m \<Longrightarrow> empty_nodes st (map (\<lambda>k. pnode k (i div 2 ^ Suc k)) [Suc n..<d]) = Inr (map (\<lambda>k. pnode k (i div 2 ^ Suc k)) [Suc n..<m])"
    using Suc.hyps(1) [of "Suc n"] Suc.hyps(2) by simp
  ultimately show ?case using g Suc.prems by (cases "Suc n = m") auto
qed simp

lemma new_ratchet_ok: "sender_ok crypto cs vc own s (new_ratchet vc own s)"
  by (simp add: new_ratchet_def)

lemma sender_ratchets_fields:
  "sender_ratchets ty (st\<lparr>handshake_sender_ratchets := h\<rparr>) = (if ty = HandshakeSecret then h else sender_ratchets ty st)"
  "sender_ratchets ty (st\<lparr>application_sender_ratchets := a\<rparr>) = (if ty = ApplicationSecret then a else sender_ratchets ty st)"
  by (cases ty; simp add: sender_ratchets.simps)+

lemma sender_ratchets_set [simp]:
  "sender_ratchets ty' (set_sender_ratchets ty rs st) = (if ty' = ty then rs else sender_ratchets ty' st)"
  "own_index (set_sender_ratchets ty rs st) = own_index st"
  "node_value (set_sender_ratchets ty rs st) n = node_value st n"
  "leaf_nodes (set_sender_ratchets ty rs st) = leaf_nodes st" "parent_nodes (set_sender_ratchets ty rs st) = parent_nodes st"
  "st_size (set_sender_ratchets ty rs st) = st_size st"
  by (cases ty; cases ty'; cases n; simp add: node_value_def get_node.simps sender_ratchets.simps)+

lemma node_value_ratchets [simp]:
  "node_value (st\<lparr>handshake_sender_ratchets := h\<rparr>) n = node_value st n"
  "node_value (st\<lparr>application_sender_ratchets := h\<rparr>) n = node_value st n"
  by (cases n; simp add: node_value_def get_node.simps)+

text \<open>
  Starting the ratchets of a leaf whose secret is there: on success both ratchets are the ones
  the encryption secret determines, and no secret remains on the path of the leaf.
\<close>

lemma start_ratchets_ok:
  assumes ok: "tree_ok crypto cs vc enc d st" and i: "i < 2 ^ d" and c: "cover d st i = {0}"
    and st: "start_ratchets vc cs crypto (lnode i) st = (x, st')"
  shows "tree_ok crypto cs vc enc d st' \<and> own_index st' = own_index st \<and>
    (\<forall>ty j. j < 2 ^ d \<longrightarrow> j \<noteq> i \<longrightarrow> sender_ratchets ty st' ! j = sender_ratchets ty st ! j) \<and>
    (case x of Inl _ \<Rightarrow> st' = st \<and> kdf_fails crypto cs
     | Inr _ \<Rightarrow> \<forall>ty. \<exists>s. leaf_secret crypto cs enc d i ty = Inr s \<and>
         sender_ratchets ty st' ! i = Some (new_ratchet vc (lnode i = own_index st) s))"
proof -
  have sh: "tree_shape d st" and nodes: "nodes_ok crypto cs enc d st" and leaves: "leaves_ok d st"
    and rat: "ratchets_ok crypto cs vc enc d st" using ok by (auto simp: tree_ok_def)
  have len: "length (sender_ratchets ty st) = 2 ^ d" for ty using sh by (simp add: tree_shape_def)
  have u: "leaf_usize (lnode i) = i" using sh i leaf_usize_lnode by (auto simp: tree_shape_def)
  have n: "in_depth d 0 i" using i by (simp add: in_depth_def)
  obtain s where s: "nv st 0 i = Some s" using c cover_nv [of 0 d st i] by auto
  have g: "get_node st (Leaf (lnode i)) = Inr (Some (SecretTreeNode s))" using get_node_in [OF sh n] s by (simp add: node.simps)
  have ps: "path_secret crypto cs enc d i = Inr s"
    using nodes [unfolded nodes_ok_def, rule_format, OF n s] by simp
  show ?thesis
  proof (cases "and_then (kdf_expand_label crypto cs s ''handshake'' [] (hash_length cs)) (\<lambda>h.
              and_then (kdf_expand_label crypto cs s ''application'' [] (hash_length cs)) (\<lambda>a. Inr (h, a)))")
    case (Inl f)
    have "kdf_fails crypto cs"
      using Inl unfolding kdf_fails_def and_then_Inl by (elim disjE exE conjE; intro exI conjI; assumption?) auto
    then show ?thesis using st ok Inl by (auto simp: start_ratchets_def g)
  next
    case (Inr ha)
    then obtain h a where ha: "ha = (h, a)" "kdf_expand_label crypto cs s ''handshake'' [] (hash_length cs) = Inr h"
        "kdf_expand_label crypto cs s ''application'' [] (hash_length cs) = Inr a"
      by (auto simp: and_then_Inr)
    let ?own = "lnode i = own_index st"
    let ?s1 = "st\<lparr>handshake_sender_ratchets := (handshake_sender_ratchets st)[i := Some (new_ratchet vc ?own h)]\<rparr>"
    let ?s2 = "?s1\<lparr>application_sender_ratchets := (application_sender_ratchets st)[i := Some (new_ratchet vc ?own a)]\<rparr>"
    have sh2: "tree_shape d ?s2" using sh len [of HandshakeSecret] len [of ApplicationSecret]
      by (simp add: tree_shape_def sender_ratchets_fields sender_ratchets.simps)
    obtain s3 where s3: "set_node (node 0 i) None ?s2 = (Inr (), s3)" "tree_shape d s3" "same_ratchets ?s2 s3"
      "\<And>k' j'. in_depth d k' j' \<Longrightarrow> nv s3 k' j' = (if k' = 0 \<and> j' = i then map_option node_secret None else nv ?s2 k' j')"
      using set_node_in [OF sh2 n] by metis
    have "start_ratchets vc cs crypto (lnode i) st = set_node (node 0 i) None ?s2"
      using len [of HandshakeSecret] len [of ApplicationSecret] i by (simp add: start_ratchets_def g Inr ha(1) u sender_ratchets.simps node.simps)
    then have x: "x = Inr ()" "st' = s3" using st s3(1) by simp_all
    have nv': "nv st' k j = (if k = 0 \<and> j = i then None else nv st k j)" if "in_depth d k j" for k j
      using s3(4) [OF that] x by simp
    have ls: "leaf_secret crypto cs enc d i HandshakeSecret = Inr h" "leaf_secret crypto cs enc d i ApplicationSecret = Inr a"
      using ps ha by (simp_all add: leaf_secret_def)
    have rt: "sender_ratchets ty st' ! j = (if j = i then Some (new_ratchet vc ?own (case ty of HandshakeSecret \<Rightarrow> h | ApplicationSecret \<Rightarrow> a))
        else sender_ratchets ty st ! j)" and own: "own_index st' = own_index st" for ty j
    proof -
      have "sender_ratchets ty st' = sender_ratchets ty ?s2" and o: "own_index st' = own_index st"
        using s3(3) x by (simp_all add: same_ratchets_def)
      then show "sender_ratchets ty st' ! j = (if j = i then Some (new_ratchet vc ?own (case ty of HandshakeSecret \<Rightarrow> h | ApplicationSecret \<Rightarrow> a))
        else sender_ratchets ty st ! j)"
        using i len [of HandshakeSecret] len [of ApplicationSecret]
        by (cases ty) (simp_all add: sender_ratchets_fields sender_ratchets.simps nth_list_update)
      show "own_index st' = own_index st" by (rule o)
    qed
    have "k \<in> cover d st' j \<longleftrightarrow> k \<in> (if j = i then {} else cover d st j)" if j: "j < 2 ^ d" for j k
    proof (cases "k \<le> d")
      case True
      note n = nv' [OF in_depth_leaf [OF True j]]
      show ?thesis
      proof (cases "j = i")
        case [simp]: True
        have "nv st k (i div 2 ^ k) = None" if "k \<noteq> 0" using c that \<open>k \<le> d\<close> cover_nv [of k d st i] by auto
        then show ?thesis using n by (cases "k = 0") (simp_all add: cover_nv)
      next
        case False
        then show ?thesis using n by (cases "k = 0") (simp_all add: cover_nv)
      qed
    qed (auto simp: cover_nv)
    then have cov: "cover d st' j = (if j = i then {} else cover d st j)" if "j < 2 ^ d" for j using that by blast
    have "leaves_ok d st'"
      unfolding leaves_ok_def rt
    proof (intro allI impI)
      fix j :: nat assume j: "j < 2 ^ d"
      from leaves [unfolded leaves_ok_def, rule_format, OF j]
      show "if (if j = i then Some (new_ratchet vc ?own (case HandshakeSecret of HandshakeSecret \<Rightarrow> h | ApplicationSecret \<Rightarrow> a))
            else sender_ratchets HandshakeSecret st ! j) = None
          then (if j = i then Some (new_ratchet vc ?own (case ApplicationSecret of HandshakeSecret \<Rightarrow> h | ApplicationSecret \<Rightarrow> a))
            else sender_ratchets ApplicationSecret st ! j) = None \<and> (\<exists>k. cover d st' j = {k})
          else (if j = i then Some (new_ratchet vc ?own (case ApplicationSecret of HandshakeSecret \<Rightarrow> h | ApplicationSecret \<Rightarrow> a))
            else sender_ratchets ApplicationSecret st ! j) \<noteq> None \<and> cover d st' j = {}"
        unfolding cov [OF j] by (cases "j = i") simp_all
    qed
    moreover have "nodes_ok crypto cs enc d st'" using nodes nv' unfolding nodes_ok_def by simp
    moreover have "ratchets_ok crypto cs vc enc d st'"
      unfolding ratchets_ok_def rt own
    proof (intro allI impI)
      fix ty j r
      assume j: "j < 2 ^ d" and r: "(if j = i then Some (new_ratchet vc ?own (case ty of HandshakeSecret \<Rightarrow> h | ApplicationSecret \<Rightarrow> a))
        else sender_ratchets ty st ! j) = Some r"
      show "\<exists>s. leaf_secret crypto cs enc d j ty = Inr s \<and> sender_ok crypto cs vc (lnode j = own_index st) s r"
        using rat j r ls by (cases "j = i"; cases ty) (auto simp: ratchets_ok_def new_ratchet_ok)
    qed
    ultimately have "tree_ok crypto cs vc enc d st'" using s3(2) x by (simp add: tree_ok_def)
    moreover have "\<exists>s. leaf_secret crypto cs enc d i ty = Inr s \<and> sender_ratchets ty st' ! i = Some (new_ratchet vc ?own s)" for ty
      using ls by (cases ty) (simp_all add: rt)
    ultimately show ?thesis using own rt x by simp
  qed
qed

lemma initialize_ok:
  assumes ok: "tree_ok crypto cs vc enc d st"
    and st: "initialize_sender_ratchets vc cs crypto index st = (x, st')"
  shows "tree_ok crypto cs vc enc d st' \<and> own_index st' = own_index st \<and>
    (\<forall>ty j. j < 2 ^ d \<longrightarrow> j \<noteq> leaf_usize index \<longrightarrow> sender_ratchets ty st' ! j = sender_ratchets ty st ! j) \<and>
    (leaf_usize index < 2 ^ d \<longrightarrow> sender_ratchets ty st ! leaf_usize index = None \<longrightarrow>
      (case x of Inl _ \<Rightarrow> sender_ratchets ty st' ! leaf_usize index = None \<and> kdf_fails crypto cs
       | Inr _ \<Rightarrow> \<exists>s. leaf_secret crypto cs enc d (leaf_usize index) ty = Inr s \<and>
         sender_ratchets ty st' ! leaf_usize index = Some (new_ratchet vc (index = own_index st) s)))"
proof (cases "leaf_usize index < 2 ^ d")
  case False
  have "d \<le> 30" "st_size st = full_size d" using ok by (auto simp: tree_ok_def tree_shape_def)
  then have "size_leaf_count (st_size st) \<le> leaf_u32 index" using False leaf_in_full_size [of d index] by simp
  then have "st' = st" using st by (simp add: initialize_sender_ratchets_def)
  then show ?thesis using ok False by simp
next
  case i: True
  let ?i = "leaf_usize index"
  have sh: "tree_shape d st" and leaves: "leaves_ok d st" using ok by (auto simp: tree_ok_def)
  have d: "d \<le> 29" "st_size st = full_size d" and len: "length (sender_ratchets ty st) = 2 ^ d" for ty
    using sh by (auto simp: tree_shape_def)
  have ix: "lnode ?i = index" by (rule leaf_lnode [symmetric])
  have lt: "leaf_u32 index < size_leaf_count (st_size st)" using i leaf_in_full_size [of d index] d by simp
  have ro: "ratchet_opt index ty st = Inr (sender_ratchets ty st ! ?i)" for ty
    using i len by (simp add: ratchet_opt_def vec_get_def)
  note lf = leaves [unfolded leaves_ok_def, rule_format, OF i]
  show ?thesis
  proof (cases "sender_ratchets HandshakeSecret st ! ?i")
    case (Some r)
    then have "sender_ratchets ty st ! ?i \<noteq> None" for ty using lf by (cases ty) auto
    moreover from this [of ApplicationSecret] have "initialize_sender_ratchets vc cs crypto index st = (Inr (), st)"
      using Some lt ro by (simp add: initialize_sender_ratchets_def)
    ultimately show ?thesis using ok st by simp
  next
    case None
    then obtain k where k: "cover d st ?i = {k}" using lf by auto
    have non: "sender_ratchets ty st ! ?i = None" for ty using None lf by (cases ty) auto
    have n: "in_depth d 0 ?i" using i by (simp add: in_depth_def)
    have g: "get_node st (Leaf index) = Inr (map_option SecretTreeNode (nv st 0 ?i))"
      using get_node_in [OF sh n] ix by (simp add: node.simps)
    have init: "initialize_sender_ratchets vc cs crypto index st =
        (case nv st 0 ?i of None \<Rightarrow> m_then (derive_leaf cs crypto index) (\<lambda>_. start_ratchets vc cs crypto index) st
         | Some _ \<Rightarrow> start_ratchets vc cs crypto index st)"
      using lt ro None g by (simp add: initialize_sender_ratchets_def not_le [symmetric] split: option.split)
    obtain y s1 where y: "(if k = 0 then (Inr (), st) else derive_leaf cs crypto index st) = (y, s1)" by fastforce
    have s1: "tree_ok crypto cs vc enc d s1 \<and> same_ratchets st s1 \<and> (y = Inr () \<longrightarrow> cover d s1 ?i = {0}) \<and> (y = Inr () \<or> kdf_fails crypto cs)"
    proof (cases "k = 0")
      case False
      have "direct_path index (st_size st) = Some (map (\<lambda>k. pnode k (?i div 2 ^ Suc k)) [0..<d])"
        using direct_path_eq [of d ?i] d i ix by simp
      then have "derive_leaf cs crypto index st = m_for (derive_down cs crypto) (rev (map (\<lambda>k. pnode k (?i div 2 ^ Suc k)) [0..<k])) st"
        using empty_nodes_eq [OF sh i k, of 0] False by (simp add: derive_leaf_def)
      then show ?thesis using derive_loop_ok [OF ok i k] y False by simp
    qed (use y ok k in auto)
    have split: "initialize_sender_ratchets vc cs crypto index st =
        (case y of Inl f \<Rightarrow> (Inl f, s1) | Inr _ \<Rightarrow> start_ratchets vc cs crypto index s1)"
    proof (cases "k = 0")
      case True
      then have "nv st 0 ?i \<noteq> None" using k cover_nv [of 0 d st ?i] by simp
      then show ?thesis using True y unfolding init by auto
    next
      case False
      then have "nv st 0 ?i = None" using k cover_nv [of 0 d st ?i] by auto
      then show ?thesis using False y unfolding init by (simp add: m_then_def)
    qed
    have same: "own_index s1 = own_index st" "sender_ratchets ty s1 = sender_ratchets ty st" for ty
      using s1 by (auto simp: same_ratchets_def)
    show ?thesis
    proof (cases y)
      case (Inl f)
      then have "x = Inl f" "st' = s1" using st split by auto
      then show ?thesis using s1 same non Inl by simp
    next
      case (Inr u)
      then have st1: "start_ratchets vc cs crypto (lnode ?i) s1 = (x, st')" using st split ix by simp
      have "cover d s1 ?i = {0}" using s1 Inr by simp
      note r = start_ratchets_ok [OF conjunct1 [OF s1] i this st1]
      then show ?thesis using same non ix by (cases x) auto
    qed
  qed
qed

section \<open>Operations on the tree\<close>

text \<open>
  What an operation may do to the ratchets: change the one of the leaf and type it is about, and
  start both ratchets of the leaf.
\<close>

lemma ensure_ok:
  assumes ok: "tree_ok crypto cs vc enc d st" and st: "ensure_ratchets vc cs crypto index ty st = (x, st')"
  shows "tree_ok crypto cs vc enc d st'" "own_index st' = own_index st"
    "j < 2 ^ d \<Longrightarrow> j \<noteq> leaf_usize index \<Longrightarrow> sender_ratchets ty' st' ! j = sender_ratchets ty' st ! j"
    "x = Inr () \<Longrightarrow> leaf_usize index < 2 ^ d \<and>
       (\<exists>r. sender_ratchets ty st' ! leaf_usize index = Some r \<and>
          (sender_ratchets ty st ! leaf_usize index = Some r \<or>
           (\<exists>s. sender_ratchets ty st ! leaf_usize index = None \<and> leaf_secret crypto cs enc d (leaf_usize index) ty = Inr s \<and>
              r = new_ratchet vc (index = own_index st) s)))"
    "j < 2 ^ d \<Longrightarrow> sender_ratchets ty' st ! j = Some r \<Longrightarrow> sender_ratchets ty' st' ! j = Some r"
    "if leaf_usize index < 2 ^ d then x = Inr () \<or> kdf_fails crypto cs else x = throw IndexOutOfBounds"
proof -
  have len: "length (sender_ratchets ty st) = 2 ^ d" for ty using ok by (simp add: tree_ok_def tree_shape_def)
  consider (out) "\<not> leaf_usize index < 2 ^ d" "st' = st" "x = throw IndexOutOfBounds"
    | (has) r where "leaf_usize index < 2 ^ d" "sender_ratchets ty st ! leaf_usize index = Some r" "st' = st" "x = Inr ()"
    | (init) "leaf_usize index < 2 ^ d" "sender_ratchets ty st ! leaf_usize index = None"
        "initialize_sender_ratchets vc cs crypto index st = (x, st')"
    using st len by (auto simp: ensure_ratchets_def ratchet_opt_def vec_get_def split: option.splits if_splits)
  then have all: "tree_ok crypto cs vc enc d st' \<and> own_index st' = own_index st \<and>
      (j < 2 ^ d \<longrightarrow> j \<noteq> leaf_usize index \<longrightarrow> sender_ratchets ty' st' ! j = sender_ratchets ty' st ! j) \<and>
      (x = Inr () \<longrightarrow> leaf_usize index < 2 ^ d \<and>
       (\<exists>r. sender_ratchets ty st' ! leaf_usize index = Some r \<and>
          (sender_ratchets ty st ! leaf_usize index = Some r \<or>
           (\<exists>s. sender_ratchets ty st ! leaf_usize index = None \<and> leaf_secret crypto cs enc d (leaf_usize index) ty = Inr s \<and>
              r = new_ratchet vc (index = own_index st) s)))) \<and>
      (j < 2 ^ d \<longrightarrow> sender_ratchets ty' st ! j = Some r \<longrightarrow> sender_ratchets ty' st' ! j = Some r) \<and>
      (if leaf_usize index < 2 ^ d then x = Inr () \<or> kdf_fails crypto cs else x = throw IndexOutOfBounds)"
  proof cases
    case init
    have "leaves_ok d st" using ok by (simp add: tree_ok_def)
    then have none: "sender_ratchets ty' st ! leaf_usize index = None"
      using init(1,2) by (cases ty; cases ty') (auto simp: leaves_ok_def split: if_splits)
    show ?thesis
      using initialize_ok [OF ok init(3), of ty] init(1,2) none by (cases "j = leaf_usize index") (auto split: sum.splits)
  qed (use ok in auto)
  then show "tree_ok crypto cs vc enc d st'" "own_index st' = own_index st"
    "j < 2 ^ d \<Longrightarrow> j \<noteq> leaf_usize index \<Longrightarrow> sender_ratchets ty' st' ! j = sender_ratchets ty' st ! j"
    "x = Inr () \<Longrightarrow> leaf_usize index < 2 ^ d \<and>
       (\<exists>r. sender_ratchets ty st' ! leaf_usize index = Some r \<and>
          (sender_ratchets ty st ! leaf_usize index = Some r \<or>
           (\<exists>s. sender_ratchets ty st ! leaf_usize index = None \<and> leaf_secret crypto cs enc d (leaf_usize index) ty = Inr s \<and>
              r = new_ratchet vc (index = own_index st) s)))"
    "j < 2 ^ d \<Longrightarrow> sender_ratchets ty' st ! j = Some r \<Longrightarrow> sender_ratchets ty' st' ! j = Some r"
    "if leaf_usize index < 2 ^ d then x = Inr () \<or> kdf_fails crypto cs else x = throw IndexOutOfBounds"
    by blast+
qed

lemma ratchet_mut_cases:
  assumes ok: "tree_ok crypto cs vc enc d st" and st: "ratchet_mut index ty op st = (x, st')"
  obtains (no_ratchet) "x = throw IndexOutOfBounds" "st' = st"
      "\<not> (leaf_usize index < 2 ^ d \<and> sender_ratchets ty st ! leaf_usize index \<noteq> None)"
  | (ratchet) r r' where "leaf_usize index < 2 ^ d" "sender_ratchets ty st ! leaf_usize index = Some r" "op r = (x, r')"
      "st' = set_sender_ratchets ty ((sender_ratchets ty st)[leaf_usize index := Some r']) st"
proof -
  have len: "length (sender_ratchets ty st) = 2 ^ d" using ok by (simp add: tree_ok_def tree_shape_def)
  show thesis
  proof (cases "leaf_usize index < 2 ^ d \<and> sender_ratchets ty st ! leaf_usize index \<noteq> None")
    case True
    then obtain r where r: "vec_get (sender_ratchets ty st) (leaf_usize index) = Some (Some r)"
      using len by (auto simp: vec_get_def)
    obtain y r' where y: "op r = (y, r')" by fastforce
    show thesis
    proof (rule ratchet)
      show "leaf_usize index < 2 ^ d" "sender_ratchets ty st ! leaf_usize index = Some r"
        using r len by (simp_all add: vec_simps)
      show "op r = (x, r')" "st' = set_sender_ratchets ty ((sender_ratchets ty st)[leaf_usize index := Some r']) st"
        using st r y by (simp_all add: ratchet_mut_def)
    qed
  next
    case False
    then have "vec_get (sender_ratchets ty st) (leaf_usize index) \<in> {None, Some None}"
      using len by (auto simp: vec_get_def)
    then have "x = throw IndexOutOfBounds" "st' = st" using st by (auto simp: ratchet_mut_def)
    then show thesis using no_ratchet False by blast
  qed
qed

lemma store_ratchet_ok:
  assumes ok: "tree_ok crypto cs vc enc d st" and i: "i < 2 ^ d" and r: "sender_ratchets ty st ! i = Some r"
    and st': "st' = set_sender_ratchets ty ((sender_ratchets ty st)[i := Some r']) st"
    and keep: "\<And>s. leaf_secret crypto cs enc d i ty = Inr s \<Longrightarrow> sender_ok crypto cs vc (lnode i = own_index st) s r \<Longrightarrow>
      sender_ok crypto cs vc (lnode i = own_index st) s r'"
  shows "tree_ok crypto cs vc enc d st'"
proof -
  have sh: "tree_shape d st" and nodes: "nodes_ok crypto cs enc d st" and leaves: "leaves_ok d st"
    and rat: "ratchets_ok crypto cs vc enc d st" using ok by (auto simp: tree_ok_def)
  have len: "length (sender_ratchets ty st) = 2 ^ d" for ty using sh by (simp add: tree_shape_def)
  have rt: "sender_ratchets ty' st' ! j = (if ty' = ty \<and> j = i then Some r' else sender_ratchets ty' st ! j)" for ty' j
    using i len by (simp add: st' nth_list_update)
  have none: "sender_ratchets ty' st' ! j = None \<longleftrightarrow> sender_ratchets ty' st ! j = None" for ty' j using r rt by auto
  have "tree_shape d st'" using sh len by (simp add: tree_shape_def st')
  moreover have "nodes_ok crypto cs enc d st'" using nodes by (simp add: nodes_ok_def st')
  moreover have "cover d st' j = cover d st j" for j by (simp add: cover_def st')
  with leaves have "leaves_ok d st'" unfolding leaves_ok_def none by simp
  moreover have "ratchets_ok crypto cs vc enc d st'"
    unfolding ratchets_ok_def
  proof (intro allI impI)
    fix ty' j q assume j: "j < 2 ^ d" and q: "sender_ratchets ty' st' ! j = Some q"
    have own: "own_index st' = own_index st" by (simp add: st')
    show "\<exists>s. leaf_secret crypto cs enc d j ty' = Inr s \<and> sender_ok crypto cs vc (lnode j = own_index st') s q"
    proof (cases "ty' = ty \<and> j = i")
      case True
      then obtain s where "leaf_secret crypto cs enc d i ty = Inr s" "sender_ok crypto cs vc (lnode i = own_index st) s r"
        using rat i r unfolding ratchets_ok_def by blast
      then show ?thesis using keep q rt True own by auto
    next
      case False
      then show ?thesis using rat j q rt own by (auto simp: ratchets_ok_def)
    qed
  qed
  ultimately show ?thesis by (simp add: tree_ok_def)
qed

text \<open>One ratchet under the three operations that reach it through the tree.\<close>

datatype SenderOp = SenderEncrypt | SenderDecrypt Generation SenderRatchetConfiguration | SenderConfirm Generation

datatype TreeResult = TreeSent Generation RatchetKeyMaterial | TreeOpened DecryptionSecret | TreeConfirmed

fun decrypt_ratchet ::
  "Ciphersuite \<Rightarrow> OpenMlsCrypto \<Rightarrow> Generation \<Rightarrow> SenderRatchetConfiguration \<Rightarrow> (SenderRatchet, DecryptionSecret, SecretTreeError) mutator" where
  "decrypt_ratchet cs crypto g cfg (EncryptionRatchet r) = (throw RatchetTypeError, EncryptionRatchet r)"
| "decrypt_ratchet cs crypto g cfg (DecRatchet r) =
     (let (x, r') = ratchet_secret_for_decryption cs crypto g cfg r in (and_then x (\<lambda>km. Inr (AvailableSecret km)), DecRatchet r'))"
| "decrypt_ratchet cs crypto g cfg (DualUse r) =
     (let (x, r') = dual_secret_for_decryption cs crypto g cfg r in (x, DualUse r'))"

fun sender_step :: "OpenMlsCrypto \<Rightarrow> Ciphersuite \<Rightarrow> SenderOp \<Rightarrow> (SenderRatchet, TreeResult, SecretTreeError) mutator" where
  "sender_step crypto cs SenderEncrypt r =
     (let (x, r') = encrypt_ratchet cs crypto r in (and_then x (\<lambda>(g, km). Inr (TreeSent g km)), r'))"
| "sender_step crypto cs (SenderDecrypt g cfg) r =
     (let (x, r') = decrypt_ratchet cs crypto g cfg r in (and_then x (\<lambda>s. Inr (TreeOpened s)), r'))"
| "sender_step crypto cs (SenderConfirm g) r =
     (let (x, r') = delete_ratchet_secret g r in (and_then x (\<lambda>_. Inr TreeConfirmed), r'))"

fun sender_sent :: "Generation \<Rightarrow> SenderRatchet \<Rightarrow> bool" where
  "sender_sent g (EncryptionRatchet r) \<longleftrightarrow> g < rs_generation r"
| "sender_sent g (DecRatchet r) \<longleftrightarrow> False"
| "sender_sent g (DualUse r) \<longleftrightarrow> g < du_generation r"

fun sender_opened :: "Generation \<Rightarrow> SenderRatchet \<Rightarrow> bool" where
  "sender_opened g (EncryptionRatchet r) \<longleftrightarrow> False"
| "sender_opened g (DecRatchet r) \<longleftrightarrow> generation_spent g r"
| "sender_opened g (DualUse r) \<longleftrightarrow> dual_spent g r"

fun sender_effect :: "OpenMlsCrypto \<Rightarrow> Ciphersuite \<Rightarrow> Secret \<Rightarrow> SenderOp \<Rightarrow> SenderRatchet \<Rightarrow> (TreeResult, SecretTreeError) outcome \<Rightarrow> SenderRatchet \<Rightarrow> bool" where
  "sender_effect crypto cs s op r x r' \<longleftrightarrow>
     (\<forall>g. sender_sent g r \<longrightarrow> sender_sent g r') \<and> (\<forall>g. sender_opened g r \<longrightarrow> sender_opened g r') \<and>
     (case x of
        Inr (TreeSent g km) \<Rightarrow> op = SenderEncrypt \<and> generation_keys crypto cs s (unat g) = Inr km \<and> \<not> sender_sent g r \<and> sender_sent g r'
      | Inr (TreeOpened (AvailableSecret km)) \<Rightarrow> (\<exists>g cfg. op = SenderDecrypt g cfg \<and>
          generation_keys crypto cs s (unat g) = Inr km \<and> \<not> sender_opened g r \<and> sender_opened g r')
      | _ \<Rightarrow> True)"

lemma sender_effect_dual:
  assumes ok: "dual_ok crypto cs s d" and st: "dual_step crypto cs op d = (x, d')"
    and y: "y = (case x of Inl f \<Rightarrow> Inl f | Inr (Emitted g km) \<Rightarrow> Inr (TreeSent g km) | Inr Confirmed \<Rightarrow> Inr TreeConfirmed | Inr (Opened u) \<Rightarrow> Inr (TreeOpened u))"
    and op: "sop = (case op of Encrypt \<Rightarrow> SenderEncrypt | Confirm g \<Rightarrow> SenderConfirm g | Decrypt g cfg \<Rightarrow> SenderDecrypt g cfg)"
  shows "dual_ok crypto cs s d'" "sender_effect crypto cs s sop (DualUse d) y (DualUse d')"
proof -
  have inv: "dual_ok crypto cs s d'" using dual_step_ok [OF ok, of op] st by simp
  have sp: "dual_spent g d \<Longrightarrow> dual_spent g d'" "g < du_generation d \<Longrightarrow> g < du_generation d'" for g
    using dual_stays_spent [OF ok, of g op] dual_step_generation [OF ok, of op] st by auto
  show "dual_ok crypto cs s d'" by (rule inv)
  from ok st show "sender_effect crypto cs s sop (DualUse d) y (DualUse d')"
  proof (cases rule: dual_step_cases)
    case (emit km)
    note e = dual_encrypt_Inr(2,4) [OF ok emit(3)]
    have "du_generation d < du_generation d'" using e(2) by (simp add: word_less_nat_alt)
    then show ?thesis using emit(1,2) y op e(1) sp by simp
  next
    case (open_key g cfg km)
    then show ?thesis using dual_opensD(1,2) [OF open_key(5)] y op sp by simp
  qed (use y op sp in simp_all)
qed

lemma sender_step_effect:
  assumes ok: "sender_ok crypto cs vc own s r" and st: "sender_step crypto cs op r = (x, r')"
  shows "sender_ok crypto cs vc own s r' \<and> sender_effect crypto cs s op r x r'"
proof (cases r)
  case [simp]: (EncryptionRatchet e)
  have at: "ratchet_at crypto cs s e" using ok by simp
  show ?thesis
  proof (cases op)
    case [simp]: SenderEncrypt
    obtain y e' where fw: "ratchet_forward crypto cs e = (y, e')" by fastforce
    show ?thesis
    proof (cases y)
      case (Inl f)
      then show ?thesis using ratchet_forward_Inl [OF at, of f e'] fw st ok by (auto simp: word_less_nat_alt)
    next
      case (Inr gk)
      obtain g km where gk: "gk = (g, km)" by (rule prod.exhaust)
      note f = ratchet_forward_Inr [OF at fw [unfolded Inr gk]]
      show ?thesis using f fw st ok Inr gk by (auto simp: word_less_nat_alt)
    qed
  qed (use st ok in auto)
next
  case [simp]: (DecRatchet dr)
  have dok: "ratchet_ok crypto cs s dr" using ok by simp
  show ?thesis
  proof (cases op)
    case [simp]: (SenderDecrypt g cfg)
    obtain y dr' where y: "ratchet_secret_for_decryption cs crypto g cfg dr = (y, dr')" by fastforce
    then have ds: "decrypt_step crypto cs (g, cfg) dr = (y, dr')" by (simp add: decrypt_step_def)
    have "ratchet_ok crypto cs s dr'" using dec.inv_step [OF dok, of "(g, cfg)"] ds by simp
    moreover have "generation_spent k dr \<Longrightarrow> generation_spent k dr'" for k
      using dec.stays_spent [OF dok, of k "(g, cfg)"] ds by simp
    moreover have "\<not> generation_spent g dr \<and> generation_spent g dr' \<and> generation_keys crypto cs s (unat g) = Inr km" if "y = Inr km" for km
      using dec.spends [OF dok, of "(g, cfg)" g] ds that request_Inr(1) [OF dok y [unfolded that]] by (simp add: decrypt_grants_def)
    ultimately show ?thesis using y st ok by (cases y) auto
  qed (use st ok in auto)
next
  case [simp]: (DualUse d)
  have dok: "dual_ok crypto cs s d" using ok by simp
  let ?op = "case op of SenderEncrypt \<Rightarrow> Encrypt | SenderConfirm g \<Rightarrow> Confirm g | SenderDecrypt g cfg \<Rightarrow> Decrypt g cfg"
  obtain y d' where y: "dual_step crypto cs ?op d = (y, d')" by fastforce
  have "op = (case ?op of Encrypt \<Rightarrow> SenderEncrypt | Confirm g \<Rightarrow> SenderConfirm g | Decrypt g cfg \<Rightarrow> SenderDecrypt g cfg)"
    by (cases op) auto
  note e = sender_effect_dual [OF dok y refl this]
  have "r' = DualUse d' \<and> x = (case y of Inl f \<Rightarrow> Inl f | Inr (Emitted g km) \<Rightarrow> Inr (TreeSent g km) | Inr Confirmed \<Rightarrow> Inr TreeConfirmed | Inr (Opened u) \<Rightarrow> Inr (TreeOpened u))"
  proof (cases op)
    case SenderEncrypt
    then show ?thesis using st y by (auto split: prod.splits sum.splits)
  next
    case SenderDecrypt
    then show ?thesis using st y by (auto split: prod.splits sum.splits)
  next
    case SenderConfirm
    then show ?thesis using st y by auto
  qed
  then show ?thesis using e ok by auto
qed

section \<open>Runs of the tree\<close>

datatype TreeOp =
    TreeEncrypt LeafNodeIndex SecretType
  | TreeDecrypt LeafNodeIndex SecretType Generation SenderRatchetConfiguration
  | TreeConfirm SecretType Generation

fun tree_step :: "bool \<Rightarrow> OpenMlsCrypto \<Rightarrow> Ciphersuite \<Rightarrow> TreeOp \<Rightarrow> (SecretTree, TreeResult, SecretTreeError) mutator" where
  "tree_step vc crypto cs (TreeEncrypt index ty) st =
     m_then (tree_secret_for_encryption vc cs crypto index ty) (\<lambda>(g, km) st. (Inr (TreeSent g km), st)) st"
| "tree_step vc crypto cs (TreeDecrypt index ty g cfg) st =
     m_then (tree_secret_for_decryption vc cs crypto index ty g cfg) (\<lambda>s st. (Inr (TreeOpened s), st)) st"
| "tree_step vc crypto cs (TreeConfirm ty g) st =
     m_then (delete_own_secret_for_generation ty g) (\<lambda>_ st. (Inr TreeConfirmed, st)) st"

text \<open>
  Preparing a decryption and applying its update at once is one operation on the ratchet of the
  sender.
\<close>

lemma ratchet_mut_twice:
  assumes "ratchet_mut index ty (\<lambda>r. (f r, r)) st = (Inr x, st1)"
  shows "st1 = st" "\<exists>r. vec_get (sender_ratchets ty st) (leaf_usize index) = Some (Some r) \<and> f r = Inr x"
proof -
  obtain r where r: "vec_get (sender_ratchets ty st) (leaf_usize index) = Some (Some r)" "f r = Inr x"
      "st1 = set_sender_ratchets ty ((sender_ratchets ty st)[leaf_usize index := Some r]) st"
    using assms by (auto simp: ratchet_mut_def split: option.splits)
  then have "(sender_ratchets ty st)[leaf_usize index := Some r] = sender_ratchets ty st"
    by (metis list_update_id vec_get_Some)
  then show "st1 = st" using r(3) by (cases ty) (simp_all add: sender_ratchets.simps)
  show "\<exists>r. vec_get (sender_ratchets ty st) (leaf_usize index) = Some (Some r) \<and> f r = Inr x" using r by blast
qed

lemma ratchet_mut_err:
  assumes "ratchet_mut index ty (\<lambda>r. (f r, r)) st = (Inl e, st1)"
  shows "st1 = st \<and> (case vec_get (sender_ratchets ty st) (leaf_usize index) of Some (Some r) \<Rightarrow> f r = Inl e | _ \<Rightarrow> e = Throws IndexOutOfBounds)"
proof (cases "vec_get (sender_ratchets ty st) (leaf_usize index)")
  case (Some v)
  show ?thesis
  proof (cases v)
    case r: (Some r)
    have "(sender_ratchets ty st)[leaf_usize index := Some r] = sender_ratchets ty st"
      using Some r by (metis list_update_id vec_get_Some)
    then show ?thesis using assms Some r by (cases ty) (auto simp: ratchet_mut_def sender_ratchets.simps)
  qed (use Some assms in \<open>auto simp: ratchet_mut_def\<close>)
qed (use assms in \<open>auto simp: ratchet_mut_def\<close>)

lemma peek_consume_ratchet:
  "decrypt_ratchet cs crypto g cfg r =
     (case peek_ratchet cs crypto g cfg r of
        Inl f \<Rightarrow> (Inl f, r)
      | Inr (s, None) \<Rightarrow> (Inr s, r)
      | Inr (s, Some p) \<Rightarrow> (case consume_ratchet p cfg r of (Inl f, r') \<Rightarrow> (Inl f, r') | (Inr _, r') \<Rightarrow> (Inr s, r')))"
proof (cases r)
  case (DecRatchet x2)
  then show ?thesis
    by (cases "peek cs crypto g cfg x2") (auto simp: ratchet_secret_for_decryption_def split: prod.splits sum.splits)
next
  case (DualUse x3)
  then show ?thesis
    by (cases "dual_peek cs crypto g cfg x3") (auto simp: dual_secret_for_decryption_def split: prod.splits sum.splits option.splits)
qed simp

lemma tree_decrypt_eq:
  assumes ok: "tree_ok crypto cs vc enc d st"
  shows "tree_secret_for_decryption vc cs crypto index ty g cfg st =
     m_then (ensure_ratchets vc cs crypto index ty) (\<lambda>_. ratchet_mut index ty (decrypt_ratchet cs crypto g cfg)) st"
proof (cases "leaf_usize index < 2 ^ d")
  case False
  have d: "d \<le> 30" "st_size st = full_size d" "length (sender_ratchets ty st) = 2 ^ d"
    using ok by (auto simp: tree_ok_def tree_shape_def)
  then have "size_leaf_count (st_size st) \<le> leaf_u32 index" using False leaf_in_full_size [of d index] by simp
  moreover have "ratchet_opt index ty st = throw IndexOutOfBounds" using False d(3) by (simp add: ratchet_opt_def vec_get_def)
  ultimately show ?thesis
    by (simp add: tree_secret_for_decryption_def prepare_decryption_def ensure_ratchets_def m_then_def)
next
  case True
  have d: "d \<le> 30" "st_size st = full_size d" using ok by (auto simp: tree_ok_def tree_shape_def)
  then have lt: "\<not> size_leaf_count (st_size st) \<le> leaf_u32 index" using True leaf_in_full_size [of d index] by simp
  obtain x st1 where e: "ensure_ratchets vc cs crypto index ty st = (x, st1)" by fastforce
  show ?thesis
  proof (cases x)
    case (Inl f)
    then show ?thesis using lt e by (simp add: tree_secret_for_decryption_def prepare_decryption_def m_then_def)
  next
    case (Inr u)
    let ?peek = "\<lambda>r. (peek_ratchet cs crypto g cfg r, r)"
    obtain y st2 where p: "ratchet_mut index ty ?peek st1 = (y, st2)" by fastforce
    show ?thesis
    proof (cases y)
      case (Inl f)
      note m = ratchet_mut_err [OF p [unfolded Inl]]
      have "ratchet_mut index ty (decrypt_ratchet cs crypto g cfg) st1 = (Inl f, st1)"
      proof (cases "vec_get (sender_ratchets ty st1) (leaf_usize index)")
        case (Some v)
        show ?thesis
        proof (cases v)
          case r: (Some r)
          have "(sender_ratchets ty st1)[leaf_usize index := Some r] = sender_ratchets ty st1"
            using Some r by (metis list_update_id vec_get_Some)
          then show ?thesis using m Some r
            by (cases ty) (simp_all add: ratchet_mut_def peek_consume_ratchet sender_ratchets.simps)
        qed (use m Some in \<open>simp add: ratchet_mut_def\<close>)
      qed (use m in \<open>simp add: ratchet_mut_def\<close>)
      then show ?thesis
        using lt e p m Inr Inl by (simp add: tree_secret_for_decryption_def prepare_decryption_def m_then_def)
    next
      case r: (Inr sp)
      obtain s pk where sp: "sp = (s, pk)" by (rule prod.exhaust)
      obtain r where r: "vec_get (sender_ratchets ty st1) (leaf_usize index) = Some (Some r)" "peek_ratchet cs crypto g cfg r = Inr (s, pk)" "st2 = st1"
        using ratchet_mut_twice [OF p [unfolded r]] sp by auto
      have id: "(sender_ratchets ty st1)[leaf_usize index := Some r] = sender_ratchets ty st1"
        using r(1) by (metis list_update_id vec_get_Some)
      have id': "set_sender_ratchets ty (sender_ratchets ty st1) st1 = st1" by (cases ty) (simp_all add: sender_ratchets.simps)
      show ?thesis
      proof (cases pk)
        case None
        then show ?thesis using lt e p Inr \<open>y = Inr sp\<close> sp r id id'
          by (simp add: tree_secret_for_decryption_def prepare_decryption_def m_then_def ratchet_mut_def peek_consume_ratchet)
      next
        case (Some q)
        obtain z r' where "consume_ratchet q cfg r = (z, r')" by fastforce
        then show ?thesis using lt e p Inr \<open>y = Inr sp\<close> sp r id id' Some
          by (cases z) (simp_all add: tree_secret_for_decryption_def prepare_decryption_def m_then_def ratchet_mut_def
              peek_consume_ratchet apply_decryption_update_def)
      qed
    qed
  qed
qed

lemma ratchet_mut_map:
  "m_then (ratchet_mut index ty op) (\<lambda>x st. (Inr (f x), st)) =
     ratchet_mut index ty (\<lambda>r. let (x, r') = op r in (and_then x (\<lambda>x. Inr (f x)), r'))"
  by (rule ext) (auto simp: ratchet_mut_def m_then_def split: option.split prod.split sum.split)

lemma ratchet_mut_map2:
  "m_then (ratchet_mut index ty op) (\<lambda>(a, b) st. (Inr (f a b), st)) =
     ratchet_mut index ty (\<lambda>r. let (x, r') = op r in (and_then x (\<lambda>(a, b). Inr (f a b)), r'))"
  by (rule ext) (auto simp: ratchet_mut_def m_then_def split: option.split prod.split sum.split)

lemma m_then_assoc: "m_then (m_then m k) k' s = m_then m (\<lambda>x. m_then (k x) k') s"
  by (auto simp: m_then_def split: prod.split sum.split)

text \<open>A step of the tree is a step of one ratchet, after both ratchets of the leaf are started.\<close>

fun tree_target :: "SecretTree \<Rightarrow> TreeOp \<Rightarrow> LeafNodeIndex \<times> SecretType \<times> SenderOp" where
  "tree_target st (TreeEncrypt index ty) = (index, ty, SenderEncrypt)"
| "tree_target st (TreeDecrypt index ty g cfg) = (index, ty, SenderDecrypt g cfg)"
| "tree_target st (TreeConfirm ty g) = (own_index st, ty, SenderConfirm g)"

lemma sender_step_fun:
  "sender_step crypto cs SenderEncrypt = (\<lambda>r. let (x, r') = encrypt_ratchet cs crypto r in (and_then x (\<lambda>(g, km). Inr (TreeSent g km)), r'))"
  "sender_step crypto cs (SenderDecrypt g cfg) = (\<lambda>r. let (x, r') = decrypt_ratchet cs crypto g cfg r in (and_then x (\<lambda>s. Inr (TreeOpened s)), r'))"
  "sender_step crypto cs (SenderConfirm g) = (\<lambda>r. let (x, r') = delete_ratchet_secret g r in (and_then x (\<lambda>_. Inr TreeConfirmed), r'))"
  by (rule ext, simp)+

lemma tree_step_eq:
  assumes ok: "tree_ok crypto cs vc enc d st" and t: "tree_target st op = (index, ty, sop)"
  shows "tree_step vc crypto cs op st =
     (if \<exists>g. sop = SenderConfirm g then ratchet_mut index ty (sender_step crypto cs sop) st
      else m_then (ensure_ratchets vc cs crypto index ty) (\<lambda>_. ratchet_mut index ty (sender_step crypto cs sop)) st)"
proof (cases op)
  case (TreeEncrypt i t)
  then have "index = i" "ty = t" "sop = SenderEncrypt" using assms(2) by auto
  then show ?thesis
    using TreeEncrypt by (simp add: tree_secret_for_encryption_def m_then_assoc ratchet_mut_map2 sender_step_fun)
next
  case (TreeDecrypt i t g cfg)
  have "tree_step vc crypto cs op st =
      m_then (m_then (ensure_ratchets vc cs crypto i t) (\<lambda>_. ratchet_mut i t (decrypt_ratchet cs crypto g cfg)))
        (\<lambda>s st. (Inr (TreeOpened s), st)) st"
    using tree_decrypt_eq [OF ok, of i t g cfg] TreeDecrypt by (simp add: m_then_def)
  moreover have "index = i" "ty = t" "sop = SenderDecrypt g cfg" using assms(2) TreeDecrypt by auto
  ultimately show ?thesis by (simp add: m_then_assoc ratchet_mut_map sender_step_fun)
next
  case (TreeConfirm t g)
  have "tree_step vc crypto cs op st = m_then (ratchet_mut (own_index st) t (delete_ratchet_secret g)) (\<lambda>_ st. (Inr TreeConfirmed, st)) st"
    using TreeConfirm by (simp add: m_then_def delete_own_secret_for_generation_def)
  moreover have "index = own_index st" "ty = t" "sop = SenderConfirm g" using assms(2) TreeConfirm by auto
  ultimately show ?thesis by (simp add: ratchet_mut_map sender_step_fun)
qed

type_synonym tree_token = "LeafNodeIndex \<times> SecretType \<times> Generation"

fun with_ratchet :: "(Generation \<Rightarrow> SenderRatchet \<Rightarrow> bool) \<Rightarrow> tree_token \<Rightarrow> SecretTree \<Rightarrow> bool" where
  "with_ratchet p (index, ty, g) st \<longleftrightarrow>
     (case vec_get (sender_ratchets ty st) (leaf_usize index) of Some (Some r) \<Rightarrow> p g r | _ \<Rightarrow> False)"

fun token_sent :: "TreeOp \<Rightarrow> (TreeResult, SecretTreeError) outcome \<Rightarrow> tree_token option" where
  "token_sent (TreeEncrypt index ty) (Inr (TreeSent g _)) = Some (index, ty, g)"
| "token_sent _ _ = None"

fun token_opened :: "TreeOp \<Rightarrow> (TreeResult, SecretTreeError) outcome \<Rightarrow> tree_token option" where
  "token_opened (TreeDecrypt index ty g _) (Inr (TreeOpened (AvailableSecret _))) = Some (index, ty, g)"
| "token_opened _ _ = None"

lemma token_result:
  "token_sent op x = Some t \<Longrightarrow> \<exists>g km. x = Inr (TreeSent g km)"
  "token_opened op x = Some t \<Longrightarrow> \<exists>km. x = Inr (TreeOpened (AvailableSecret km))"
  by (elim token_sent.elims, auto elim!: token_opened.elims)

text \<open>The key that the encryption secret of the epoch determines for a message.\<close>

definition message_key ::
  "OpenMlsCrypto \<Rightarrow> Ciphersuite \<Rightarrow> Secret \<Rightarrow> nat \<Rightarrow> tree_token \<Rightarrow> (RatchetKeyMaterial, SecretTreeError) outcome" where
  "message_key crypto cs enc d t = (case t of (index, ty, g) \<Rightarrow>
     and_then (map_err CryptoErr (leaf_secret crypto cs enc d (leaf_usize index) ty)) (\<lambda>s. generation_keys crypto cs s (unat g)))"

lemma new_ratchet_fresh: "\<not> sender_sent g (new_ratchet vc own s)" "\<not> sender_opened g (new_ratchet vc own s)"
  by (simp_all add: new_ratchet_def dual_use_new_def initial_ratchet_secret_def dual_spent_def generation_spent_def)

lemma leaf_usize_inject: "leaf_usize i = leaf_usize j \<longleftrightarrow> i = j"
  by (metis leaf_lnode)

lemma ratchet_step_effect:
  assumes ok: "tree_ok crypto cs vc enc d st" and st: "ratchet_mut index ty (sender_step crypto cs sop) st = (x, st')"
  shows "tree_ok crypto cs vc enc d st' \<and> own_index st' = own_index st \<and>
    (\<forall>t. with_ratchet sender_sent t st \<longrightarrow> with_ratchet sender_sent t st') \<and>
    (\<forall>t. with_ratchet sender_opened t st \<longrightarrow> with_ratchet sender_opened t st') \<and>
    (case x of
       Inr (TreeSent g km) \<Rightarrow> sop = SenderEncrypt \<and> message_key crypto cs enc d (index, ty, g) = Inr km \<and>
         \<not> with_ratchet sender_sent (index, ty, g) st \<and> with_ratchet sender_sent (index, ty, g) st'
     | Inr (TreeOpened (AvailableSecret km)) \<Rightarrow> (\<exists>g cfg. sop = SenderDecrypt g cfg \<and> message_key crypto cs enc d (index, ty, g) = Inr km \<and>
         \<not> with_ratchet sender_opened (index, ty, g) st \<and> with_ratchet sender_opened (index, ty, g) st')
     | _ \<Rightarrow> True)"
  using ok st
proof (cases rule: ratchet_mut_cases)
  case no_ratchet
  then show ?thesis using ok by simp
next
  case (ratchet r r')
  let ?i = "leaf_usize index"
  have len: "length (sender_ratchets ty st) = 2 ^ d" for ty using ok by (simp add: tree_ok_def tree_shape_def)
  obtain s where s: "leaf_secret crypto cs enc d ?i ty = Inr s" "sender_ok crypto cs vc (lnode ?i = own_index st) s r"
    using ok ratchet(1,2) unfolding tree_ok_def ratchets_ok_def by blast
  note e = sender_step_effect [OF s(2) ratchet(3)]
  have ok': "tree_ok crypto cs vc enc d st'"
    by (rule store_ratchet_ok [OF ok ratchet(1,2,4)]) (use e s(1) in auto)
  have get: "vec_get (sender_ratchets ty' st') j = (if ty' = ty \<and> j = ?i then Some (Some r') else vec_get (sender_ratchets ty' st) j)" for ty' j
    using ratchet(1) len by (simp add: ratchet(4) vec_simps)
  have get0: "vec_get (sender_ratchets ty st) ?i = Some (Some r)" using ratchet(1,2) len by (simp add: vec_simps)
  have mono: "with_ratchet p t st'" if "with_ratchet p t st" "\<And>g. p g r \<Longrightarrow> p g r'" for p t
    using that by (cases t) (auto simp: get get0 leaf_usize_inject split: option.splits)
  have "message_key crypto cs enc d (index, ty, g) = generation_keys crypto cs s (unat g)" for g
    using s(1) by (simp add: message_key_def)
  then show ?thesis
    using ok' e mono [of sender_sent] mono [of sender_opened] get [of ty ?i] get0
    by (auto simp: ratchet(4) split: sum.splits TreeResult.splits DecryptionSecret.splits)
qed

lemma tree_step_effect:
  assumes ok: "tree_ok crypto cs vc enc d st" and st: "tree_step vc crypto cs op st = (x, st')"
  shows "tree_ok crypto cs vc enc d st' \<and> own_index st' = own_index st \<and>
    (\<forall>t. with_ratchet sender_sent t st \<longrightarrow> with_ratchet sender_sent t st') \<and>
    (\<forall>t. with_ratchet sender_opened t st \<longrightarrow> with_ratchet sender_opened t st') \<and>
    (\<forall>t. token_sent op x = Some t \<longrightarrow> \<not> with_ratchet sender_sent t st \<and> with_ratchet sender_sent t st') \<and>
    (\<forall>t. token_opened op x = Some t \<longrightarrow> \<not> with_ratchet sender_opened t st \<and> with_ratchet sender_opened t st') \<and>
    (case x of
       Inr (TreeSent g km) \<Rightarrow> \<exists>index ty. op = TreeEncrypt index ty \<and> message_key crypto cs enc d (index, ty, g) = Inr km
     | Inr (TreeOpened (AvailableSecret km)) \<Rightarrow> \<exists>index ty g cfg. op = TreeDecrypt index ty g cfg \<and> message_key crypto cs enc d (index, ty, g) = Inr km
     | _ \<Rightarrow> True)"
proof -
  obtain index ty sop where t: "tree_target st op = (index, ty, sop)" by (rule prod_cases3)
  obtain y st1 where e: "(if \<exists>g. sop = SenderConfirm g then (Inr (), st) else ensure_ratchets vc cs crypto index ty st) = (y, st1)"
    by fastforce
  have len: "length (sender_ratchets ty s) = 2 ^ d" if "tree_ok crypto cs vc enc d s" for ty s
    using that by (simp add: tree_ok_def tree_shape_def)
  have st1: "tree_ok crypto cs vc enc d st1 \<and> own_index st1 = own_index st \<and>
      (\<forall>p t. with_ratchet p t st \<longrightarrow> with_ratchet p t st1) \<and>
      (\<forall>p t. (\<forall>g vc own s. \<not> p g (new_ratchet vc own s)) \<longrightarrow> y = Inr () \<longrightarrow> fst t = index \<longrightarrow> fst (snd t) = ty \<longrightarrow> with_ratchet p t st1 \<longrightarrow> with_ratchet p t st)"
  proof (cases "\<exists>g. sop = SenderConfirm g")
    case True
    then show ?thesis using e ok by auto
  next
    case False
    then have en: "ensure_ratchets vc cs crypto index ty st = (y, st1)" using e by simp
    note n = ensure_ok [OF ok en]
    have "with_ratchet p t st1" if w: "with_ratchet p t st" for p t
    proof -
      obtain i ty' g where [simp]: "t = (i, ty', g)" by (rule prod_cases3)
      obtain r where "leaf_usize i < 2 ^ d" "sender_ratchets ty' st ! leaf_usize i = Some r" "p g r"
        using w len [OF ok] by (auto simp: vec_get_def split: option.splits if_splits)
      then show ?thesis using n(5) [of "leaf_usize i" ty' r] len [OF n(1)] by (simp add: vec_get_def)
    qed
    moreover have "with_ratchet p t st" if f: "\<forall>g vc own s. \<not> p g (new_ratchet vc own s)" and y: "y = Inr ()"
        and t: "fst t = index" "fst (snd t) = ty" and w: "with_ratchet p t st1" for p t
    proof -
      obtain g where [simp]: "t = (index, ty, g)" using t by (cases t) auto
      obtain r where r: "leaf_usize index < 2 ^ d" "sender_ratchets ty st1 ! leaf_usize index = Some r" "p g r"
        using w len [OF n(1)] by (auto simp: vec_get_def split: option.splits if_splits)
      then have "sender_ratchets ty st ! leaf_usize index = Some r" using n(4) [OF y] f by auto
      then show ?thesis using r len [OF ok] by (simp add: vec_get_def)
    qed
    ultimately show ?thesis using n(1,2) by blast
  qed
  have split: "tree_step vc crypto cs op st = (case y of Inl f \<Rightarrow> (Inl f, st1) | Inr _ \<Rightarrow> ratchet_mut index ty (sender_step crypto cs sop) st1)"
    using tree_step_eq [OF ok t] e by (auto simp: m_then_def split: if_splits)
  show ?thesis
  proof (cases y)
    case (Inl f)
    then have "x = Inl f" "st' = st1" using st split by simp_all
    then show ?thesis using st1 by simp
  next
    case (Inr u)
    then have "ratchet_mut index ty (sender_step crypto cs sop) st1 = (x, st')" using st split by simp
    note r = ratchet_step_effect [OF conjunct1 [OF st1] this]
    have fresh: "\<not> with_ratchet p (index, ty, g) st"
      if "\<not> with_ratchet p (index, ty, g) st1" for p g using st1 that by blast
    have base: "tree_ok crypto cs vc enc d st'" "own_index st' = own_index st"
      "\<forall>t. with_ratchet sender_sent t st \<longrightarrow> with_ratchet sender_sent t st'"
      "\<forall>t. with_ratchet sender_opened t st \<longrightarrow> with_ratchet sender_opened t st'"
      using r st1 by (blast, simp, blast, blast)
    show ?thesis
    proof (cases "\<exists>g km. x = Inr (TreeSent g km)")
      case True
      then obtain g km where x: "x = Inr (TreeSent g km)" by blast
      have "op = TreeEncrypt index ty" using r t x by (cases op) auto
      then show ?thesis using base r x fresh [of sender_sent g] by simp
    next
      case ns: False
      show ?thesis
      proof (cases "\<exists>km. x = Inr (TreeOpened (AvailableSecret km))")
        case True
        then obtain km where x: "x = Inr (TreeOpened (AvailableSecret km))" by blast
        obtain g cfg where g: "sop = SenderDecrypt g cfg" "message_key crypto cs enc d (index, ty, g) = Inr km"
            "\<not> with_ratchet sender_opened (index, ty, g) st1" "with_ratchet sender_opened (index, ty, g) st'"
          using r x by auto
        have "op = TreeDecrypt index ty g cfg" using t g(1) by (cases op) auto
        then show ?thesis using base x g fresh [of sender_opened g] by simp
      next
        case False
        have "token_sent op x = None" "token_opened op x = None"
          using token_result [of op x] ns False by (metis option.exhaust)+
        moreover have "case x of
            Inr (TreeSent g km) \<Rightarrow> \<exists>index ty. op = TreeEncrypt index ty \<and> message_key crypto cs enc d (index, ty, g) = Inr km
          | Inr (TreeOpened (AvailableSecret km)) \<Rightarrow> \<exists>index ty g cfg. op = TreeDecrypt index ty g cfg \<and> message_key crypto cs enc d (index, ty, g) = Inr km
          | _ \<Rightarrow> True"
          using ns False by (auto split: sum.split TreeResult.split DecryptionSecret.split)
        ultimately show ?thesis using base by simp
      qed
    qed
  qed
qed

interpretation tree_enc: one_time "tree_step vc crypto cs" "tree_ok crypto cs vc enc d" token_sent "with_ratchet sender_sent"
  for vc crypto cs enc d
proof unfold_locales
  fix st op t
  assume ok: "tree_ok crypto cs vc enc d st"
  obtain x st' where st: "tree_step vc crypto cs op st = (x, st')" by fastforce
  note e = tree_step_effect [OF ok st]
  show "tree_ok crypto cs vc enc d (snd (tree_step vc crypto cs op st))" using e st by simp
  show "token_sent op (fst (tree_step vc crypto cs op st)) = Some t \<Longrightarrow>
      \<not> with_ratchet sender_sent t st \<and> with_ratchet sender_sent t (snd (tree_step vc crypto cs op st))"
    unfolding st fst_conv snd_conv using e by blast
  show "with_ratchet sender_sent t st \<Longrightarrow> with_ratchet sender_sent t (snd (tree_step vc crypto cs op st))"
    unfolding st fst_conv snd_conv using e by blast
qed

interpretation tree_dec: one_time "tree_step vc crypto cs" "tree_ok crypto cs vc enc d" token_opened "with_ratchet sender_opened"
  for vc crypto cs enc d
proof unfold_locales
  fix st op t
  assume ok: "tree_ok crypto cs vc enc d st"
  obtain x st' where st: "tree_step vc crypto cs op st = (x, st')" by fastforce
  note e = tree_step_effect [OF ok st]
  show "token_opened op (fst (tree_step vc crypto cs op st)) = Some t \<Longrightarrow>
      \<not> with_ratchet sender_opened t st \<and> with_ratchet sender_opened t (snd (tree_step vc crypto cs op st))"
    unfolding st fst_conv snd_conv using e by blast
  show "with_ratchet sender_opened t st \<Longrightarrow> with_ratchet sender_opened t (snd (tree_step vc crypto cs op st))"
    unfolding st fst_conv snd_conv using e by blast
qed

lemma tree_ok_new:
  assumes d: "d \<le> 29" shows "tree_ok crypto cs vc enc d (secret_tree_new enc (full_size d) own)"
proof -
  let ?n = "2 ^ d :: nat"
  let ?e = "\<lparr>own_index = own, leaf_nodes = replicate ?n None, parent_nodes = replicate ?n None,
    handshake_sender_ratchets = replicate ?n None, application_sender_ratchets = replicate ?n None, st_size = full_size d\<rparr>"
  have sr: "sender_ratchets ty ?e = replicate ?n None" for ty by (cases ty) (simp_all add: sender_ratchets.simps)
  have e: "tree_shape d ?e" using d sr by (simp add: tree_shape_def)
  have empty: "nv ?e k j = None" for k j
    by (cases "node k j") (auto simp: node_value_def get_node.simps vec_get_def split: if_splits)
  have n: "in_depth d d 0" by (simp add: in_depth_def)
  obtain st where st: "set_node (node d 0) (Some (SecretTreeNode enc)) ?e = (Inr (), st)" "tree_shape d st" "same_ratchets ?e st"
    "\<And>k' j'. in_depth d k' j' \<Longrightarrow> nv st k' j' = (if k' = d \<and> j' = 0 then map_option node_secret (Some (SecretTreeNode enc)) else nv ?e k' j')"
    using set_node_in [OF e n] by metis
  have new: "secret_tree_new enc (full_size d) own = st"
    using d st(1) unat_leaf_count [of d] root_full_size [of d] by (simp add: secret_tree_new_def)
  have rt: "sender_ratchets ty st = replicate ?n None" for ty using st(3) sr by (simp add: same_ratchets_def)
  have nvst: "nv st k j = (if k = d \<and> j = 0 then Some enc else None)" if "in_depth d k j" for k j
    using st(4) [OF that] empty by simp
  have "cover d st i = {d}" if i: "i < 2 ^ d" for i
  proof -
    have "k \<in> cover d st i \<longleftrightarrow> k = d" for k
      using nvst [OF in_depth_leaf [of k d i]] i by (cases "k \<le> d") (auto simp: cover_nv)
    then show ?thesis by blast
  qed
  then have "leaves_ok d st" by (simp add: leaves_ok_def rt)
  moreover have "nodes_ok crypto cs enc d st" using nvst by (auto simp: nodes_ok_def split: if_splits)
  moreover have "ratchets_ok crypto cs vc enc d st" by (simp add: ratchets_ok_def rt)
  ultimately show ?thesis using st(2) by (simp add: new tree_ok_def)
qed

lemma tree_result_key:
  assumes "d \<le> 29" and "i < length ops"
    and "rs = fst (run_ops (tree_step vc crypto cs) ops (secret_tree_new enc (full_size d) own))"
  shows "(\<forall>g km. rs ! i = Inr (TreeSent g km) \<longrightarrow>
       (\<exists>index ty. ops ! i = TreeEncrypt index ty \<and> message_key crypto cs enc d (index, ty, g) = Inr km)) \<and>
    (\<forall>km. rs ! i = Inr (TreeOpened (AvailableSecret km)) \<longrightarrow>
       (\<exists>index ty g cfg. ops ! i = TreeDecrypt index ty g cfg \<and> message_key crypto cs enc d (index, ty, g) = Inr km))"
proof -
  obtain t where t: "tree_ok crypto cs vc enc d t" "rs ! i = fst (tree_step vc crypto cs (ops ! i) t)"
    using tree_enc.result_of_step [OF tree_ok_new [OF assms(1)] assms(2)] assms(3) by metis
  obtain t' where "tree_step vc crypto cs (ops ! i) t = (rs ! i, t')" using t(2) by (metis prod.collapse)
  note c = tree_step_effect [OF t(1) this, THEN conjunct2, THEN conjunct2, THEN conjunct2, THEN conjunct2, THEN conjunct2, THEN conjunct2]
  show ?thesis
  proof (intro conjI allI impI)
    fix g km assume "rs ! i = Inr (TreeSent g km)"
    with c show "\<exists>index ty. ops ! i = TreeEncrypt index ty \<and> message_key crypto cs enc d (index, ty, g) = Inr km" by simp
  next
    fix km assume "rs ! i = Inr (TreeOpened (AvailableSecret km))"
    with c show "\<exists>index ty g cfg. ops ! i = TreeDecrypt index ty g cfg \<and> message_key crypto cs enc d (index, ty, g) = Inr km" by simp
  qed
qed

lemma singleton_iff_ex1: "(\<exists>k. {x. P x} = {k}) \<longleftrightarrow> (\<exists>!k. P k)"
proof
  assume "\<exists>!k. P k"
  then obtain k where "P k" "\<And>x. P x \<Longrightarrow> x = k" by blast
  then have "{x. P x} = {k}" by blast
  then show "\<exists>k. {x. P x} = {k}" by blast
next
  assume "\<exists>k. {x. P x} = {k}"
  then obtain k where "P x \<longleftrightarrow> x = k" for x by (auto simp: set_eq_iff)
  then show "\<exists>!k. P k" by (intro ex1I [of _ k]) simp_all
qed

text \<open>
  C20: sender and receivers of an epoch agree on the key of every message.  Two members start
  from the same encryption secret, each with the tree for the own leaf; whatever either has sent
  and opened before, in any order and with or without errors in between, the key the one uses to
  send generation \<open>g\<close> of a ratchet is the key the other obtains for opening it.
\<close>

theorem members_agree_on_message_keys:
  assumes "d \<le> 29"
    and "fst (run_ops (tree_step vc_a crypto cs) ops_a (secret_tree_new enc (full_size d) a)) ! i = Inr (TreeSent g km)"
    and "i < length ops_a" and "ops_a ! i = TreeEncrypt sender ty"
    and "fst (run_ops (tree_step vc_b crypto cs) ops_b (secret_tree_new enc (full_size d) b)) ! j = Inr (TreeOpened (AvailableSecret km'))"
    and "j < length ops_b" and "ops_b ! j = TreeDecrypt sender ty g cfg"
  shows "km' = km"
proof -
  obtain ia tya where "ops_a ! i = TreeEncrypt ia tya" "message_key crypto cs enc d (ia, tya, g) = Inr km"
    using tree_result_key [OF assms(1,3) refl, of vc_a crypto cs enc a] assms(2) by blast
  moreover obtain ib tyb gb cfgb where "ops_b ! j = TreeDecrypt ib tyb gb cfgb" "message_key crypto cs enc d (ib, tyb, gb) = Inr km'"
    using tree_result_key [OF assms(1,6) refl, of vc_b crypto cs enc b] assms(5) by blast
  ultimately show ?thesis using assms(4,7) by simp
qed


text \<open>
  C22: forward secrecy of the tree.  After every sequence of operations, also when some failed,
  a leaf whose ratchets were started has no secret left on the way from the root to it, so its
  ratchet secrets cannot be recomputed; every other leaf has exactly one, and each secret in
  the tree is the one derived from the encryption secret for its position.
\<close>

theorem secret_tree_forward_secrecy:
  assumes "d \<le> 29" and "snd (run_ops (tree_step vc crypto cs) ops (secret_tree_new enc (full_size d) own)) = st"
    and "i < 2 ^ d"
  shows "(if vec_get (handshake_sender_ratchets st) i = Some None
      then vec_get (application_sender_ratchets st) i = Some None \<and> (\<exists>!k. k \<le> d \<and> node_value st (node k (i div 2 ^ k)) \<noteq> None)
      else \<forall>k \<le> d. node_value st (node k (i div 2 ^ k)) = None) \<and>
    (\<forall>k \<le> d. \<forall>s. node_value st (node k (i div 2 ^ k)) = Some s \<longrightarrow> path_secret crypto cs enc (d - k) (i div 2 ^ k) = Inr s)"
proof -
  have ok: "tree_ok crypto cs vc enc d st"
    using tree_enc.inv_run [OF tree_ok_new [OF assms(1)]] assms(2) by metis
  have len: "length (sender_ratchets ty st) = 2 ^ d" for ty using ok by (simp add: tree_ok_def tree_shape_def)
  have "leaves_ok d st" using ok by (simp add: tree_ok_def)
  note lf = this [unfolded leaves_ok_def, rule_format, OF assms(3)]
  have cov1: "(\<exists>k. cover d st i = {k}) \<longleftrightarrow> (\<exists>!k. k \<le> d \<and> nv st k (i div 2 ^ k) \<noteq> None)"
    unfolding cover_def by (rule singleton_iff_ex1)
  have cov2: "cover d st i = {} \<longleftrightarrow> (\<forall>k \<le> d. nv st k (i div 2 ^ k) = None)"
    unfolding cover_def by auto
  have nodes: "path_secret crypto cs enc (d - k) (i div 2 ^ k) = Inr s" if "k \<le> d" "nv st k (i div 2 ^ k) = Some s" for k s
    using ok in_depth_leaf [OF that(1) assms(3)] that(2) by (simp add: tree_ok_def nodes_ok_def)
  have g: "vec_get (handshake_sender_ratchets st) i = Some (sender_ratchets HandshakeSecret st ! i)"
      "vec_get (application_sender_ratchets st) i = Some (sender_ratchets ApplicationSecret st ! i)"
    using len [of HandshakeSecret] len [of ApplicationSecret] assms(3) by (simp_all add: vec_get_def sender_ratchets.simps)
  have "if sender_ratchets HandshakeSecret st ! i = None
      then sender_ratchets ApplicationSecret st ! i = None \<and> (\<exists>!k. k \<le> d \<and> node_value st (node k (i div 2 ^ k)) \<noteq> None)
      else \<forall>k \<le> d. node_value st (node k (i div 2 ^ k)) = None"
    using lf unfolding cov1 cov2 by argo
  then show ?thesis unfolding g option.inject using nodes by blast
qed

subsection \<open>Errors with a working backend\<close>

lemma no_kdf_fails:
  assumes "hkdf_lengths crypto" and "hkdf_total crypto" shows "\<not> kdf_fails crypto cs"
proof
  assume "kdf_fails crypto cs"
  then obtain s label ctx f where l: "length label < 1000" "length ctx < 2 ^ 30"
      "kdf_expand_label crypto cs s label ctx (hash_length cs) = Inl f"
    unfolding kdf_fails_def by blast
  have "0 < hash_length cs" "hash_length cs \<le> 255 * hash_length cs" "hash_length cs \<le> 65535"
    using ciphersuite_lengths [of cs] by simp_all
  from kdf_expand_label_succeeds [OF assms this l(1,2), of s] l(3) show False by auto
qed

abbreviation ratchet_errors :: "SecretTreeError fault set" where
  "ratchet_errors \<equiv> Throws ` {TooDistantInTheFuture, TooDistantInThePast, RatchetTooLong, SecretReuseError, RatchetTypeError, IndexOutOfBounds}"

lemma ratchet_forward_errors:
  assumes "hkdf_lengths crypto" and "hkdf_total crypto" and "ratchet_forward crypto cs r = (Inl f, r')"
  shows "f = Throws RatchetTooLong"
proof (cases "rs_generation r = U32_MAX")
  case False
  then obtain km r'' where "ratchet_forward crypto cs r = (Inr (rs_generation r, km), r'')"
    by (rule ratchet_forward_succeeds [OF assms(1,2)])
  then show ?thesis using assms(3) by simp
qed (use assms(3) ratchet_forward_limit in auto)

lemma sender_step_errors:
  assumes h: "hkdf_lengths crypto" "hkdf_total crypto" and ok: "sender_ok crypto cs vc own s r"
    and st: "sender_step crypto cs op r = (Inl f, r')"
  shows "f \<in> ratchet_errors \<and> (op = SenderEncrypt \<and> own \<longrightarrow> f = Throws RatchetTooLong)"
proof (cases r)
  case [simp]: (EncryptionRatchet e)
  show ?thesis
  proof (cases op)
    case SenderEncrypt
    then obtain e' where "ratchet_forward crypto cs e = (Inl f, e')"
      using st by (cases "ratchet_forward crypto cs e") (auto simp: outcome_simps)
    then show ?thesis using ratchet_forward_errors [OF h] by blast
  qed (use st in auto)
next
  case [simp]: (DecRatchet dr)
  have dok: "ratchet_ok crypto cs s dr" using ok by simp
  show ?thesis
  proof (cases op)
    case (SenderDecrypt g cfg)
    then obtain dr' where "ratchet_secret_for_decryption cs crypto g cfg dr = (Inl f, dr')"
      using st by (cases "ratchet_secret_for_decryption cs crypto g cfg dr") (auto simp: outcome_simps)
    then have "peek cs crypto g cfg dr = Inl f" using request_Inl [OF dok] by blast
    from peek_Inl [OF h dok this] have "f \<in> ratchet_errors" by (auto simp: window_request_def Let_def split: if_splits)
    then show ?thesis using SenderDecrypt by simp
  qed (use st ok in auto)
next
  case [simp]: (DualUse d)
  have dok: "dual_ok crypto cs s d" using ok by simp
  show ?thesis
  proof (cases op)
    case SenderEncrypt
    then obtain d' where "dual_secret_for_encryption cs crypto d = (Inl f, d')"
      using st by (cases "dual_secret_for_encryption cs crypto d") (auto simp: outcome_simps)
    then obtain e' where "ratchet_forward crypto cs (du_head d) = (Inl f, e')"
      by (auto simp: dual_secret_for_encryption_def Let_def split: prod.splits sum.splits)
    then show ?thesis using ratchet_forward_errors [OF h] by blast
  next
    case (SenderDecrypt g cfg)
    then obtain d' where "dual_secret_for_decryption cs crypto g cfg d = (Inl f, d')"
      using st by (cases "dual_secret_for_decryption cs crypto g cfg d") (auto simp: outcome_simps)
    from dual_decrypt_effect [OF dok this] have "dual_peek cs crypto g cfg d = Inl f" by simp
    from dual_peek_Inl [OF h dok this] show ?thesis using SenderDecrypt by auto
  qed (use st in auto)
qed

lemma tree_step_errors:
  assumes h: "hkdf_lengths crypto" "hkdf_total crypto" and ok: "tree_ok crypto cs vc enc d st"
    and st: "tree_step vc crypto cs op st = (Inl f, st')"
  shows "f \<in> ratchet_errors \<and>
    (leaf_usize (own_index st) < 2 ^ d \<longrightarrow> (\<exists>ty. op = TreeEncrypt (own_index st) ty) \<longrightarrow> f = Throws RatchetTooLong)"
proof -
  obtain index ty sop where t: "tree_target st op = (index, ty, sop)" by (rule prod_cases3)
  obtain y st1 where e: "(if \<exists>g. sop = SenderConfirm g then (Inr (), st) else ensure_ratchets vc cs crypto index ty st) = (y, st1)"
    by fastforce
  have split: "tree_step vc crypto cs op st = (case y of Inl f \<Rightarrow> (Inl f, st1) | Inr _ \<Rightarrow> ratchet_mut index ty (sender_step crypto cs sop) st1)"
    using tree_step_eq [OF ok t] e by (auto simp: m_then_def split: if_splits)
  have en: "tree_ok crypto cs vc enc d st1 \<and> own_index st1 = own_index st \<and>
      (y \<noteq> Inr () \<longrightarrow> y = throw IndexOutOfBounds \<and> \<not> leaf_usize index < 2 ^ d) \<and>
      (y = Inr () \<longrightarrow> sop = SenderEncrypt \<longrightarrow> leaf_usize index < 2 ^ d \<and> sender_ratchets ty st1 ! leaf_usize index \<noteq> None)"
  proof (cases "\<exists>g. sop = SenderConfirm g")
    case True
    then show ?thesis using e ok by auto
  next
    case False
    then have en: "ensure_ratchets vc cs crypto index ty st = (y, st1)" using e by simp
    note n = ensure_ok [OF ok en]
    show ?thesis using n(1,2,4) n(6) no_kdf_fails [OF h, of cs] by (auto split: if_splits)
  qed
  have enc: "index = own_index st" "sop = SenderEncrypt" if "op = TreeEncrypt (own_index st) ty'" for ty'
    using t that by auto
  show ?thesis
  proof (cases y)
    case (Inl f')
    then have "f = Throws IndexOutOfBounds" "\<not> leaf_usize index < 2 ^ d" using en st split by auto
    then show ?thesis using enc by auto
  next
    case (Inr u)
    then have m: "ratchet_mut index ty (sender_step crypto cs sop) st1 = (Inl f, st')" using st split by simp
    from conjunct1 [OF en] m show ?thesis
    proof (cases rule: ratchet_mut_cases)
      case no_ratchet
      then show ?thesis using en Inr enc by auto
    next
      case (ratchet r r')
      obtain s where s: "sender_ok crypto cs vc (lnode (leaf_usize index) = own_index st1) s r"
        using en ratchet(1,2) unfolding tree_ok_def ratchets_ok_def by blast
      from sender_step_errors [OF h s ratchet(3)] show ?thesis
        using enc en leaf_lnode [of index] by auto
    qed
  qed
qed


subsection \<open>Witnesses\<close>

lemma secret_tree_new_ratchets:
  "sender_ratchets ty (secret_tree_new enc sz own) = replicate (unat (size_leaf_count sz)) None"
  "own_index (secret_tree_new enc sz own) = own"
  by (cases "root sz"; cases ty; simp add: secret_tree_new_def Let_def set_node.simps sender_ratchets.simps)+

lemma first_step:
  assumes h: "hkdf_lengths crypto" "hkdf_total crypto" and d: "d \<le> 29" and i: "leaf_usize index < 2 ^ d"
    and t: "tree_target (secret_tree_new enc (full_size d) own) op = (index, ty, sop)" and sop: "\<nexists>g. sop = SenderConfirm g"
  shows "\<exists>s. fst (tree_step vc crypto cs op (secret_tree_new enc (full_size d) own)) =
    fst (sender_step crypto cs sop (new_ratchet vc (index = own) s))"
proof -
  let ?st = "secret_tree_new enc (full_size d) own"
  note ok = tree_ok_new [OF d, of crypto cs vc enc own]
  obtain y st1 where en: "ensure_ratchets vc cs crypto index ty ?st = (y, st1)" by fastforce
  note n = ensure_ok [OF ok en]
  have y: "y = Inr ()" using n(6) i no_kdf_fails [OF h, of cs] by simp
  have "sender_ratchets ty ?st ! leaf_usize index = None"
    using i d unat_leaf_count [of d] by (simp add: secret_tree_new_ratchets)
  then obtain s where s: "sender_ratchets ty st1 ! leaf_usize index = Some (new_ratchet vc (index = own) s)"
    using n(4) [OF y] by (auto simp: secret_tree_new_ratchets)
  have "length (sender_ratchets ty st1) = 2 ^ d" using n(1) by (simp add: tree_ok_def tree_shape_def)
  then have "vec_get (sender_ratchets ty st1) (leaf_usize index) = Some (Some (new_ratchet vc (index = own) s))"
    using s i by (simp add: vec_get_def)
  then have "fst (ratchet_mut index ty (sender_step crypto cs sop) st1) = fst (sender_step crypto cs sop (new_ratchet vc (index = own) s))"
    by (simp add: ratchet_mut_def case_prod_unfold Let_def)
  then show ?thesis using tree_step_eq [OF ok t] sop en y by (auto simp: m_then_def)
qed

lemma initial_forward: "hkdf_lengths crypto \<Longrightarrow> hkdf_total crypto \<Longrightarrow> \<exists>km r. ratchet_forward crypto cs (initial_ratchet_secret s) = (Inr (0, km), r)"
proof -
  assume h: "hkdf_lengths crypto" "hkdf_total crypto"
  obtain km r where "ratchet_forward crypto cs (initial_ratchet_secret s) = (Inr (rs_generation (initial_ratchet_secret s), km), r)"
    by (rule ratchet_forward_succeeds [OF h, of "initial_ratchet_secret s" cs]) (simp_all add: initial_ratchet_secret_def U32_MAX_def)
  then show ?thesis by (simp add: initial_ratchet_secret_def)
qed

lemma first_send:
  assumes "hkdf_lengths crypto" "hkdf_total crypto" "d \<le> 29" "leaf_usize own < 2 ^ d"
  shows "\<exists>km. fst (tree_step vc crypto cs (TreeEncrypt own ty) (secret_tree_new enc (full_size d) own)) = Inr (TreeSent 0 km)"
proof -
  obtain s where s: "fst (tree_step vc crypto cs (TreeEncrypt own ty) (secret_tree_new enc (full_size d) own)) =
      fst (sender_step crypto cs SenderEncrypt (new_ratchet vc (own = own) s))"
    using first_step [OF assms, of enc own "TreeEncrypt own ty" ty SenderEncrypt vc cs] by auto
  obtain km r where "ratchet_forward crypto cs (initial_ratchet_secret s) = (Inr (0, km), r)"
    using initial_forward [OF assms(1,2)] by blast
  then show ?thesis unfolding s
    by (auto simp: new_ratchet_def dual_use_new_def dual_secret_for_encryption_def initial_ratchet_secret_def)
qed

lemma first_open:
  assumes "hkdf_lengths crypto" "hkdf_total crypto" "d \<le> 29" "leaf_usize sender < 2 ^ d" "sender \<noteq> own"
  shows "\<exists>km. fst (tree_step vc crypto cs (TreeDecrypt sender ty 0 default_configuration) (secret_tree_new enc (full_size d) own)) =
    Inr (TreeOpened (AvailableSecret km))"
proof -
  obtain s where s: "fst (tree_step vc crypto cs (TreeDecrypt sender ty 0 default_configuration) (secret_tree_new enc (full_size d) own)) =
      fst (sender_step crypto cs (SenderDecrypt 0 default_configuration) (new_ratchet vc (sender = own) s))"
    using first_step [OF assms(1-4), of enc own "TreeDecrypt sender ty 0 default_configuration" ty "SenderDecrypt 0 default_configuration" vc cs] by auto
  obtain km dr' where "ratchet_secret_for_decryption cs crypto 0 default_configuration (decryption_ratchet_new s) = (Inr km, dr')"
    by (rule request_granted [OF assms(1,2) ratchet_ok_new, of default_configuration 0])
      (simp_all add: window_request_def default_configuration_def)
  then show ?thesis unfolding s using assms(5) by (simp add: new_ratchet_def)
qed

abbreviation sample_member :: "nat \<Rightarrow> SecretTree" where
  "sample_member i \<equiv> secret_tree_new (Secret [1]) (full_size 1) (lnode i)"

lemma sample_leaves: "leaf_usize (lnode 0) = 0" "leaf_usize (lnode 1) = 1" "lnode 0 \<noteq> lnode (Suc 0)"
  by (simp_all add: lnode_def leaf_usize_def)

theorem members_agree_on_message_keys_witness:
  "\<exists>km. fst (run_ops (tree_step False toy_crypto suite1) [TreeEncrypt (lnode 0) ApplicationSecret] (sample_member 0)) ! 0 = Inr (TreeSent 0 km) \<and>
     fst (run_ops (tree_step False toy_crypto suite1) [TreeDecrypt (lnode 0) ApplicationSecret 0 default_configuration] (sample_member 1)) ! 0 =
       Inr (TreeOpened (AvailableSecret km))"
proof -
  let ?a = "[TreeEncrypt (lnode 0) ApplicationSecret]" and ?b = "[TreeDecrypt (lnode 0) ApplicationSecret 0 default_configuration]"
  obtain km where a: "fst (run_ops (tree_step False toy_crypto suite1) ?a (sample_member 0)) ! 0 = Inr (TreeSent 0 km)"
    using first_send [OF toy_crypto_ok(1,2), of 1 "lnode 0" False suite1 ApplicationSecret "Secret [1]"] by (auto simp: sample_leaves)
  obtain km' where b: "fst (run_ops (tree_step False toy_crypto suite1) ?b (sample_member 1)) ! 0 = Inr (TreeOpened (AvailableSecret km'))"
    using first_open [OF toy_crypto_ok(1,2), of 1 "lnode 0" "lnode 1" False suite1 ApplicationSecret "Secret [1]"] by (auto simp: sample_leaves)
  have "km' = km"
    using members_agree_on_message_keys [OF _ a _ _ b, of "lnode 0" ApplicationSecret default_configuration] by simp
  then show ?thesis using a b by blast
qed


theorem secret_tree_forward_secrecy_witness:
  "\<exists>!k. k \<le> 1 \<and> node_value (snd (run_ops (tree_step False toy_crypto suite1) [] (sample_member 0))) (node k (0 div 2 ^ k)) \<noteq> None"
proof -
  have "vec_get (handshake_sender_ratchets (sample_member 0)) 0 = Some None"
    using secret_tree_new_ratchets(1) [of HandshakeSecret "Secret [1]" "full_size 1" "lnode 0"] unat_leaf_count [of 1]
    by (simp add: sender_ratchets.simps vec_get_def)
  with secret_tree_forward_secrecy [OF _ refl, of 1 0 False toy_crypto suite1 "[]" "Secret [1]" "lnode 0"] show ?thesis by simp
qed

end
