(* ===== verification/Pprf.thy ===== *)
theory Pprf
  imports SecretTree
begin

text \<open>
  The puncturable pseudorandom function (\<^verbatim>\<open>schedule/pprf/\<close>) over 16-bit prefixes, and the
  tree of exported application secrets built on it (\<^verbatim>\<open>schedule/application_export_tree.rs\<close>).
  A \<^verbatim>\<open>HashMap\<close> is a map; a failed slice index is a panic, as is the \<^verbatim>\<open>debug_assert!\<close> of the
  walk, so the theorems hold for debug builds as well.
\<close>

section \<open>Prefixes\<close>

datatype PprfError =
    PprfIndexOutOfBounds
  | PuncturedInput
  | ChildDerivationError CryptoError
  | PrefixMaxDepthExceeded

definition MAX_DEPTH :: nat where
  "MAX_DEPTH = 16"

definition MAX_INPUT_LEN :: nat where
  "MAX_INPUT_LEN = MAX_DEPTH div 8"

definition prefix_len_new :: "u8 \<Rightarrow> (u8, PprfError) outcome" where
  "prefix_len_new len = (if unat len > MAX_DEPTH then throw PrefixMaxDepthExceeded else Inr len)"

definition incremented :: "u8 \<Rightarrow> (u8, PprfError) outcome" where
  "incremented self =
     (let len = unat self + 1 in
      if len > 255 then throw PrefixMaxDepthExceeded else prefix_len_new (of_nat len))"

record Prefix16 =
  p16_bits :: u16
  p16_len :: u8

definition prefix16_new :: Prefix16 where
  "prefix16_new = \<lparr>p16_bits = 0, p16_len = 0\<rparr>"

definition push_bit16 :: "bool \<Rightarrow> Prefix16 \<Rightarrow> (Prefix16, PprfError) outcome" where
  "push_bit16 b self =
     and_then (incremented (p16_len self)) (\<lambda>len.
       Inr (self\<lparr>p16_bits := (push_bit 1 (p16_bits self)) OR (if b then 1 else 0), p16_len := len\<rparr>))"

section \<open>The function\<close>

record Pprf =
  nodes :: "Prefix16 \<rightharpoonup> Secret"
  pprf_width :: nat

definition get_bit :: "bytes \<Rightarrow> nat \<Rightarrow> (bool, PprfError) outcome" where
  "get_bit index bit_index =
     (if bit_index div 8 < length index
      then Inr (drop_bit (7 - bit_index mod 8) (index ! (bit_index div 8)) AND 1 = 1)
      else Inl Panics)"

definition new_with_size :: "Secret \<Rightarrow> TreeSize \<Rightarrow> Pprf" where
  "new_with_size s sz = \<lparr>nodes = [prefix16_new \<mapsto> s], pprf_width = unat (size_leaf_count sz)\<rparr>"

lemma unat_plus1_u8: "unat (x :: u8) < 255 \<Longrightarrow> unat (1 + x) = Suc (unat x)"
  by (simp add: unat_word_ariths)

lemma push_bit16_len: "push_bit16 b p = Inr p' \<Longrightarrow> unat (p16_len p') = Suc (unat (p16_len p)) \<and> unat (p16_len p') \<le> MAX_DEPTH"
  by (auto simp: push_bit16_def incremented_def prefix_len_new_def outcome_simps Let_def unat_plus1_u8 MAX_DEPTH_def split: if_splits)

text \<open>The search for the deepest stored node: the loop of the first step of \<^verbatim>\<open>evaluate\<close>.\<close>

datatype 'a found = AtLeaf 'a | Inner nat Prefix16 'a

function find_node :: "bytes \<Rightarrow> Prefix16 \<Rightarrow> nat \<Rightarrow> (Pprf, Secret found, PprfError) mutator" where
  "find_node leaf_index prefix depth self =
     (case nodes self prefix of
        Some s \<Rightarrow>
          (let self = self\<lparr>nodes := (nodes self)(prefix := None)\<rparr> in
           (Inr (if depth = MAX_DEPTH then AtLeaf s else Inner depth prefix s), self))
      | None \<Rightarrow>
          if depth = MAX_DEPTH then (throw PuncturedInput, self)
          else
            case and_then (get_bit leaf_index depth) (\<lambda>b. push_bit16 b prefix) of
              Inl f \<Rightarrow> (Inl f, self)
            | Inr prefix' \<Rightarrow> find_node leaf_index prefix' (depth + 1) self)"
  by pat_completeness auto
termination
proof (relation "measure (\<lambda>(i, p, d, s). MAX_DEPTH - unat (p16_len p))")
  fix leaf_index prefix depth self prefix'
  assume "and_then (get_bit leaf_index depth) (\<lambda>b. push_bit16 b prefix) = Inr prefix'"
  then obtain b where "push_bit16 b prefix = Inr prefix'" by (auto simp: outcome_simps)
  from push_bit16_len [OF this]
  show "((leaf_index, prefix', depth + 1, self), (leaf_index, prefix, depth, self)) \<in> measure (\<lambda>(i, p, d, s). MAX_DEPTH - unat (p16_len p))"
    by auto
qed simp

declare find_node.simps [simp del]

text \<open>The second step: derive the rest of the path and keep the siblings.\<close>

fun walk :: "OpenMlsCrypto \<Rightarrow> Ciphersuite \<Rightarrow> bytes \<Rightarrow> nat list \<Rightarrow> Prefix16 \<Rightarrow> Secret \<Rightarrow> (Pprf, Secret, PprfError) mutator" where
  "walk crypto cs leaf_index [] prefix current self = (Inr current, self)"
| "walk crypto cs leaf_index (d # ds) prefix current self =
     (case and_then (map_err ChildDerivationError (derive_child_secrets crypto cs current)) (\<lambda>(l, r).
           and_then (get_bit leaf_index d) (\<lambda>b. and_then (push_bit16 (\<not> b) prefix) (\<lambda>q. Inr (l, r, b, q)))) of
        Inl f \<Rightarrow> (Inl f, self)
      | Inr (l, r, b, copath_prefix) \<Rightarrow>
          let (next, copath) = (if b then (r, l) else (l, r));
              occupied = (nodes self copath_prefix \<noteq> None);
              self = self\<lparr>nodes := (nodes self)(copath_prefix \<mapsto> copath)\<rparr>
          in if occupied then (Inl Panics, self)
             else
               case push_bit16 b prefix of
                 Inl f \<Rightarrow> (Inl f, self)
               | Inr prefix' \<Rightarrow> walk crypto cs leaf_index ds prefix' next self)"

definition evaluate :: "OpenMlsCrypto \<Rightarrow> Ciphersuite \<Rightarrow> bytes \<Rightarrow> (Pprf, Secret, PprfError) mutator" where
  "evaluate crypto cs input self =
     (if length input > MAX_INPUT_LEN then (throw PprfIndexOutOfBounds, self)
      else
        m_then (find_node input prefix16_new 0) (\<lambda>found.
          case found of
            AtLeaf s \<Rightarrow> (\<lambda>self. (Inr s, self))
          | Inner depth prefix s \<Rightarrow> walk crypto cs input [depth..<MAX_DEPTH] prefix s) self)"

section \<open>The tree of application secrets\<close>

type_synonym ComponentId = u16

definition as_index_bytes :: "u16 \<Rightarrow> bytes" where
  "as_index_bytes x = [ucast (drop_bit 8 x), ucast x]"

definition application_export_tree_new :: "Secret \<Rightarrow> Pprf" where
  "application_export_tree_new application_exporter =
     new_with_size application_exporter (tree_size_from_leaf_count 65535)"

definition safe_export_secret :: "OpenMlsCrypto \<Rightarrow> Ciphersuite \<Rightarrow> ComponentId \<Rightarrow> (Pprf, Secret, PprfError) mutator" where
  "safe_export_secret crypto cs component_id = evaluate crypto cs (as_index_bytes component_id)"

section \<open>Prefixes as bit lists\<close>

fun bits_value :: "bool list \<Rightarrow> nat" where
  "bits_value [] = 0"
| "bits_value (b # bs) = of_bool b * 2 ^ length bs + bits_value bs"

definition prefix_of :: "bool list \<Rightarrow> Prefix16" where
  "prefix_of bs = \<lparr>p16_bits = of_nat (bits_value bs), p16_len = of_nat (length bs)\<rparr>"

lemma bits_value_less: "bits_value bs < 2 ^ length bs"
  by (induction bs) auto

lemma bits_value_snoc: "bits_value (bs @ [b]) = 2 * bits_value bs + of_bool b"
  by (induction bs) auto

lemma bits_value_inj: "length bs = length cs \<Longrightarrow> bits_value bs = bits_value cs \<Longrightarrow> bs = cs"
proof (induction bs cs rule: list_induct2)
  case (Cons b bs c cs)
  have "b = c"
    using Cons.prems bits_value_less [of bs] bits_value_less [of cs] Cons.hyps by (cases b; cases c) auto
  then show ?case using Cons by simp
qed simp

lemma prefix_of_inj:
  assumes "length bs \<le> 16" and "length cs \<le> 16" shows "prefix_of bs = prefix_of cs \<longleftrightarrow> bs = cs"
proof
  assume eq: "prefix_of bs = prefix_of cs"
  have len: "unat (of_nat (length bs) :: u8) = length bs" "unat (of_nat (length cs) :: u8) = length cs"
    using assms by (simp_all add: unat_of_nat)
  then have l: "length bs = length cs" using eq by (metis Prefix16.ext_inject prefix_of_def)
  have v: "bits_value as < 2 ^ 16" if "length as \<le> 16" for as
    using bits_value_less [of as] power_increasing [OF that, of "2::nat"] by simp
  then have "unat (of_nat (bits_value bs) :: u16) = bits_value bs" "unat (of_nat (bits_value cs) :: u16) = bits_value cs"
    using v [OF assms(1)] v [OF assms(2)] by (simp_all add: unat_of_nat)
  then have "bits_value bs = bits_value cs" using eq by (metis Prefix16.ext_inject prefix_of_def)
  then show "bs = cs" using bits_value_inj l by blast
qed simp

lemma prefix16_new_eq: "prefix16_new = prefix_of []"
  by (simp add: prefix16_new_def prefix_of_def)

lemma push_bit16_prefix_of:
  assumes "length bs < 16" shows "push_bit16 b (prefix_of bs) = Inr (prefix_of (bs @ [b]))"
proof -
  have l: "unat (of_nat (length bs) :: u8) = length bs" using assms by (simp add: unat_of_nat)
  then have "unat (1 + of_nat (length bs) :: u8) = Suc (length bs)" using assms by (subst unat_plus1_u8) auto
  moreover have "push_bit 1 (x :: u16) OR 1 = 2 * x + 1" for x
  proof -
    have "push_bit 1 x AND 1 = 0" by (simp add: and_one_eq push_bit_eq_mult mod_2_eq_odd)
    then have "push_bit 1 x + 1 = push_bit 1 x OR 1" by (rule disjunctive_add_eq_or)
    then show ?thesis by (simp add: push_bit_eq_mult mult.commute)
  qed
  ultimately show ?thesis using l assms
    by (auto simp: push_bit16_def incremented_def prefix_len_new_def prefix_of_def MAX_DEPTH_def bits_value_snoc push_bit_eq_mult mult.commute)
qed

text \<open>The bits of an input, and the node stored for a bit list.\<close>

definition has_bits :: "bytes \<Rightarrow> bool list \<Rightarrow> bool" where
  "has_bits input x \<longleftrightarrow> length input = 2 \<and> length x = 16 \<and> (\<forall>d < 16. get_bit input d = Inr (x ! d))"

abbreviation stored :: "Pprf \<Rightarrow> bool list \<Rightarrow> Secret option" where
  "stored self bs \<equiv> nodes self (prefix_of bs)"

lemma stored_update:
  assumes "length bs \<le> 16" and "length cs \<le> 16"
  shows "stored (self\<lparr>nodes := (nodes self)(prefix_of bs := v)\<rparr>) cs = (if cs = bs then v else stored self cs)"
  using prefix_of_inj [OF assms] by auto

lemma find_node_cases:
  assumes x: "has_bits input x" and "d \<le> 16"
  shows "find_node input (prefix_of (take d x)) d self = (throw PuncturedInput, self) \<and> (\<forall>n. d \<le> n \<and> n \<le> 16 \<longrightarrow> stored self (take n x) = None) \<or>
    (\<exists>n s. d \<le> n \<and> n \<le> 16 \<and> stored self (take n x) = Some s \<and>
      find_node input (prefix_of (take d x)) d self =
        (Inr (if n = 16 then AtLeaf s else Inner n (prefix_of (take n x)) s), self\<lparr>nodes := (nodes self)(prefix_of (take n x) := None)\<rparr>))"
  using \<open>d \<le> 16\<close>
proof (induction "16 - d" arbitrary: d)
  case 0
  then have [simp]: "d = 16" by simp
  show ?case
  proof (cases "stored self (take 16 x)")
    case None
    then have "\<forall>n. d \<le> n \<and> n \<le> 16 \<longrightarrow> stored self (take n x) = None" using le_antisym by force
    moreover have "find_node input (prefix_of (take d x)) d self = (throw PuncturedInput, self)"
      using None by (subst find_node.simps) (simp add: MAX_DEPTH_def)
    ultimately show ?thesis by blast
  next
    case (Some s)
    then show ?thesis by (intro disjI2 exI [of _ 16] exI [of _ s]) (simp add: find_node.simps MAX_DEPTH_def fun_upd_def)
  qed
next
  case (Suc k)
  then have d: "d < 16" by simp
  show ?case
  proof (cases "stored self (take d x)")
    case (Some s)
    then show ?thesis using d by (intro disjI2 exI [of _ d] exI [of _ s]) (simp add: find_node.simps MAX_DEPTH_def fun_upd_def)
  next
    case None
    have len: "length (take d x) < 16" "d < length x" using d x by (auto simp: has_bits_def)
    have "get_bit input d = Inr (x ! d)" using x d by (simp add: has_bits_def)
    then have "find_node input (prefix_of (take d x)) d self = find_node input (prefix_of (take (Suc d) x)) (Suc d) self"
      using None d push_bit16_prefix_of [OF len(1)] take_Suc_conv_app_nth [OF len(2)]
      by (subst find_node.simps) (simp add: MAX_DEPTH_def)
    note step = this
    have all: "(\<forall>n. d \<le> n \<and> n \<le> 16 \<longrightarrow> stored self (take n x) = None) \<longleftrightarrow> (\<forall>n. Suc d \<le> n \<and> n \<le> 16 \<longrightarrow> stored self (take n x) = None)"
      using None by (metis Suc_leD Suc_leI le_neq_implies_less)
    have "k = 16 - Suc d" "Suc d \<le> 16" using Suc.hyps(2) d by simp_all
    from Suc.hyps(1) [OF this] show ?thesis
    proof
      assume "find_node input (prefix_of (take (Suc d) x)) (Suc d) self = (throw PuncturedInput, self) \<and>
        (\<forall>n. Suc d \<le> n \<and> n \<le> 16 \<longrightarrow> stored self (take n x) = None)"
      then show ?thesis unfolding step all by blast
    next
      assume "\<exists>n s. Suc d \<le> n \<and> n \<le> 16 \<and> stored self (take n x) = Some s \<and>
        find_node input (prefix_of (take (Suc d) x)) (Suc d) self =
          (Inr (if n = 16 then AtLeaf s else Inner n (prefix_of (take n x)) s), self\<lparr>nodes := (nodes self)(prefix_of (take n x) := None)\<rparr>)"
      then show ?thesis unfolding step by (blast dest: Suc_leD)
    qed
  qed
qed

text \<open>The value of the function at a bit list: the secret derived along it.\<close>

fun pprf_value :: "OpenMlsCrypto \<Rightarrow> Ciphersuite \<Rightarrow> Secret \<Rightarrow> bool list \<Rightarrow> (Secret, CryptoError) outcome" where
  "pprf_value crypto cs s [] = Inr s"
| "pprf_value crypto cs s (b # bs) =
     and_then (derive_child_secrets crypto cs s) (\<lambda>(l, r). pprf_value crypto cs (if b then r else l) bs)"

lemma pprf_value_snoc:
  "pprf_value crypto cs s (bs @ [b]) =
     and_then (pprf_value crypto cs s bs) (\<lambda>t. and_then (derive_child_secrets crypto cs t) (\<lambda>(l, r). Inr (if b then r else l)))"
proof (induction bs arbitrary: s)
  case (Cons a bs)
  show ?case by (cases "derive_child_secrets crypto cs s") (auto simp: Cons.IH)
qed simp

abbreviation sibling_path :: "bool list \<Rightarrow> nat \<Rightarrow> bool list" where
  "sibling_path x k \<equiv> take k x @ [\<not> x ! k]"

lemma sibling_path_inj: "k < length x \<Longrightarrow> m < length x \<Longrightarrow> sibling_path x k = sibling_path x m \<longleftrightarrow> k = m"
  by (metis (no_types, lifting) append_same_eq length_append_singleton length_take min.absorb4 nat.inject)

lemma walk_effect:
  assumes x: "has_bits input x" and "d \<le> 16" and "pprf_value crypto cs s0 (take d x) = Inr s"
    and "\<forall>k. d \<le> k \<and> k < 16 \<longrightarrow> stored self (sibling_path x k) = None"
    and "walk crypto cs input [d..<16] (prefix_of (take d x)) s self = (r, self')"
  shows "\<exists>e. d \<le> e \<and> e \<le> 16 \<and>
    (\<forall>bs. length bs \<le> 16 \<longrightarrow>
      (if \<exists>k. d \<le> k \<and> k < e \<and> bs = sibling_path x k then \<exists>t. stored self' bs = Some t \<and> pprf_value crypto cs s0 bs = Inr t
       else stored self' bs = stored self bs)) \<and>
    (case r of Inr t \<Rightarrow> e = 16 \<and> pprf_value crypto cs s0 x = Inr t
     | Inl f \<Rightarrow> (\<exists>t f'. derive_child_secrets crypto cs t = Inl f' \<and> f = map_fault ChildDerivationError f'))"
  using assms(2-5)
proof (induction "16 - d" arbitrary: d s self)
  case 0
  then have "d = 16" by simp
  then show ?case using 0 x by (intro exI [of _ 16]) (auto simp: has_bits_def)
next
  case (Suc n)
  then have d: "d < 16" by simp
  then have up: "[d..<16] = d # [Suc d..<16]" by (simp add: upt_conv_Cons)
  have lx: "length x = 16" and b: "get_bit input d = Inr (x ! d)" using x d by (simp_all add: has_bits_def)
  have l: "length (take d x) < 16" "take (Suc d) x = take d x @ [x ! d]" using d lx by (simp_all add: take_Suc_conv_app_nth)
  show ?case
  proof (cases "derive_child_secrets crypto cs s")
    case (Inl f)
    then have r: "r = Inl (map_fault ChildDerivationError f)" "self' = self" using Suc.prems(4) unfolding up by simp_all
    show ?thesis unfolding r sum.case
    proof (intro exI [of _ d] conjI)
      show "\<exists>t f'. derive_child_secrets crypto cs t = Inl f' \<and> map_fault ChildDerivationError f = map_fault ChildDerivationError f'"
        using Inl by blast
    qed (use d in auto)
  next
    case (Inr lr)
    obtain cl cr where lr: "lr = (cl, cr)" by (rule prod.exhaust)
    let ?next = "if x ! d then cr else cl" and ?co = "if x ! d then cl else cr"
    let ?self = "self\<lparr>nodes := (nodes self)(prefix_of (sibling_path x d) \<mapsto> ?co)\<rparr>"
    have free: "stored self (sibling_path x d) = None" using Suc.prems(3) d by simp
    have w: "walk crypto cs input [Suc d..<16] (prefix_of (take (Suc d) x)) ?next ?self = (r, self')"
      using Suc.prems(4) Inr lr b free push_bit16_prefix_of [OF l(1)] unfolding up l(2) by (auto simp: Let_def split: if_splits)
    have v: "pprf_value crypto cs s0 (take (Suc d) x) = Inr ?next" "pprf_value crypto cs s0 (sibling_path x d) = Inr ?co"
      using Suc.prems(2) Inr lr by (simp_all add: l(2) pprf_value_snoc)
    have ls: "length (sibling_path x k) \<le> 16" if "k < 16" for k using that lx by simp
    have "\<forall>k. Suc d \<le> k \<and> k < 16 \<longrightarrow> stored ?self (sibling_path x k) = None"
      using Suc.prems(3) stored_update [OF ls [OF d] ls] sibling_path_inj [of _ x d] d lx by auto
    moreover have "n = 16 - Suc d" "Suc d \<le> 16" using Suc.hyps(2) d by simp_all
    ultimately obtain e where e: "Suc d \<le> e" "e \<le> 16"
      "\<forall>bs. length bs \<le> 16 \<longrightarrow>
        (if \<exists>k. Suc d \<le> k \<and> k < e \<and> bs = sibling_path x k then \<exists>t. stored self' bs = Some t \<and> pprf_value crypto cs s0 bs = Inr t
         else stored self' bs = stored ?self bs)"
      "case r of Inr t \<Rightarrow> e = 16 \<and> pprf_value crypto cs s0 x = Inr t
       | Inl f \<Rightarrow> (\<exists>t f'. derive_child_secrets crypto cs t = Inl f' \<and> f = map_fault ChildDerivationError f')"
      using Suc.hyps(1) [OF _ _ v(1) _ w] by blast
    have "if \<exists>k. d \<le> k \<and> k < e \<and> bs = sibling_path x k then \<exists>t. stored self' bs = Some t \<and> pprf_value crypto cs s0 bs = Inr t
         else stored self' bs = stored self bs" if bs: "length bs \<le> 16" for bs
    proof (cases "bs = sibling_path x d")
      case True
      have "\<not> (\<exists>k. Suc d \<le> k \<and> k < e \<and> bs = sibling_path x k)"
      proof (rule notI, elim exE conjE)
        fix k assume k: "Suc d \<le> k" "k < e" "bs = sibling_path x k"
        then have "sibling_path x k = sibling_path x d" using True by simp
        then show False using sibling_path_inj [of k x d] k(1,2) e(2) lx d by simp
      qed
      then have "stored self' bs = stored ?self bs" using e(3) [rule_format, OF bs] by presburger
      then have co: "stored self' bs = Some ?co" using stored_update [OF ls [OF d] bs, of self "Some ?co"] True by presburger
      have "\<exists>k. d \<le> k \<and> k < e \<and> bs = sibling_path x k" using True e(1) by (intro exI [of _ d]) simp
      moreover have "\<exists>t. stored self' bs = Some t \<and> pprf_value crypto cs s0 bs = Inr t" using co v(2) True by blast
      ultimately show ?thesis by presburger
    next
      case False
      then have "(\<exists>k. d \<le> k \<and> k < e \<and> bs = sibling_path x k) \<longleftrightarrow> (\<exists>k. Suc d \<le> k \<and> k < e \<and> bs = sibling_path x k)"
        by (metis Suc_leD Suc_leI le_neq_implies_less)
      moreover have "stored ?self bs = stored self bs" using stored_update [OF ls [OF d] bs, of self "Some ?co"] False by presburger
      ultimately show ?thesis using e(3) [rule_format, OF bs] by presburger
    qed
    then show ?thesis using e(1,2,4) Suc_leD by (intro exI [of _ e] conjI) blast+
  qed
qed

section \<open>Paths\<close>

definition on_path :: "Pprf \<Rightarrow> bool list \<Rightarrow> nat set" where
  "on_path self x = {n. n \<le> 16 \<and> stored self (take n x) \<noteq> None}"

definition pprf_ok :: "OpenMlsCrypto \<Rightarrow> Ciphersuite \<Rightarrow> Secret \<Rightarrow> Pprf \<Rightarrow> bool" where
  "pprf_ok crypto cs s0 self \<longleftrightarrow>
     (\<forall>x m n. length x = 16 \<longrightarrow> m \<in> on_path self x \<longrightarrow> n \<in> on_path self x \<longrightarrow> m = n) \<and>
     (\<forall>bs t. length bs \<le> 16 \<longrightarrow> stored self bs = Some t \<longrightarrow> pprf_value crypto cs s0 bs = Inr t)"

text \<open>Two inputs part at exactly one position.\<close>

definition differs :: "bool list \<Rightarrow> bool list \<Rightarrow> nat \<Rightarrow> bool" where
  "differs x y k \<longleftrightarrow> k < 16 \<and> take k x = take k y \<and> x ! k \<noteq> y ! k"

lemma differs_exists:
  assumes "length x = 16" and "length y = 16" and "x \<noteq> y" obtains k where "differs x y k"
proof -
  let ?P = "\<lambda>k. k < 16 \<and> x ! k \<noteq> y ! k"
  have "\<exists>k. ?P k" using assms nth_equalityI [of x y] by auto
  then have k: "?P (LEAST k. ?P k)" by (rule LeastI_ex)
  have "take (LEAST k. ?P k) x = take (LEAST k. ?P k) y"
  proof (rule nth_equalityI)
    fix i assume "i < length (take (LEAST k. ?P k) x)"
    then show "take (LEAST k. ?P k) x ! i = take (LEAST k. ?P k) y ! i" using not_less_Least [of i ?P] k by auto
  qed (use assms in simp)
  then show thesis using that k by (auto simp: differs_def)
qed

lemma take_eq_iff_differs:
  assumes "differs x y k" and "length x = 16" and "length y = 16" and "n \<le> 16"
  shows "take n y = take n x \<longleftrightarrow> n \<le> k"
proof
  assume eq: "take n y = take n x"
  show "n \<le> k"
  proof (rule ccontr)
    assume "\<not> n \<le> k"
    then have "x ! k = y ! k" using nth_take [of k n x] nth_take [of k n y] eq by simp
    then show False using assms(1) by (simp add: differs_def)
  qed
next
  assume "n \<le> k"
  moreover have "take k y = take k x" using assms(1) by (simp add: differs_def)
  then have "take n (take k y) = take n (take k x)" by (rule arg_cong)
  ultimately show "take n y = take n x" by (simp add: min_absorb1)
qed

lemma take_eq_sibling_path:
  assumes "length x = 16" and "length y = 16" and "k < 16" and "j \<le> 16"
  shows "take j y = sibling_path x k \<longleftrightarrow> j = Suc k \<and> differs x y k"
proof (cases "j = Suc k")
  case True
  then have "take j y = take k y @ [y ! k]" using assms by (simp add: take_Suc_conv_app_nth)
  then show ?thesis using True assms by (auto simp: differs_def)
next
  case False
  have "length (take j y) = j" "length (sibling_path x k) = Suc k" using assms by simp_all
  then show ?thesis using False by metis
qed

lemma path_effect:
  assumes ok: "pprf_ok crypto cs s0 self" and x: "length x = 16" and n: "n \<le> e" "e \<le> 16" "stored self (take n x) \<noteq> None"
    and st: "\<forall>bs. length bs \<le> 16 \<longrightarrow>
      (if \<exists>k. n \<le> k \<and> k < e \<and> bs = sibling_path x k then \<exists>t. stored self' bs = Some t \<and> pprf_value crypto cs s0 bs = Inr t
       else stored self' bs = (if bs = take n x then None else stored self bs))"
    and y: "length y = 16"
  shows "y = x \<Longrightarrow> on_path self' y = {}"
    "differs x y k \<Longrightarrow> on_path self' y = (if n \<le> k then (if k < e then {Suc k} else {}) else on_path self y)"
    "differs x y k \<Longrightarrow> n \<le> k \<Longrightarrow> on_path self y = {n}"
proof -
  have one: "i = n" if "i \<in> on_path self z" "length z = 16" "take n z = take n x" for i z
  proof -
    have "n \<in> on_path self z" using n that(3) by (simp add: on_path_def)
    then show ?thesis using ok that(1,2) unfolding pprf_ok_def by blast
  qed
  have mem: "j \<in> on_path self' z \<longleftrightarrow> (\<exists>k. n \<le> k \<and> k < e \<and> j = Suc k \<and> differs x z k) \<or> (j \<in> on_path self z \<and> take j z \<noteq> take n x)"
    if z: "length z = 16" for j z
  proof (cases "j \<le> 16")
    case True
    have s: "(\<exists>k. n \<le> k \<and> k < e \<and> take j z = sibling_path x k) \<longleftrightarrow> (\<exists>k. n \<le> k \<and> k < e \<and> j = Suc k \<and> differs x z k)"
      using take_eq_sibling_path [OF x z _ True] n(2) by (metis less_le_trans)
    have l: "length (take j z) \<le> 16" by (simp add: z)
    note st' = st [rule_format, OF l]
    show ?thesis
    proof (cases "\<exists>k. n \<le> k \<and> k < e \<and> take j z = sibling_path x k")
      case t: True
      then have "stored self' (take j z) \<noteq> None" using st' by auto
      then show ?thesis using t s True by (simp add: on_path_def)
    next
      case f: False
      then have "stored self' (take j z) = (if take j z = take n x then None else stored self (take j z))" using st' by presburger
      then show ?thesis using f s True by (auto simp: on_path_def)
    qed
  next
    case False
    have "j \<notin> on_path self' z" "j \<notin> on_path self z" using False by (simp_all add: on_path_def)
    moreover have "\<not> (\<exists>k. n \<le> k \<and> k < e \<and> j = Suc k \<and> differs x z k)" using False n(2) by auto
    ultimately show ?thesis by blast
  qed
  show "on_path self' y = {}" if "y = x"
  proof -
    have "j \<notin> on_path self' x" for j
    proof
      assume "j \<in> on_path self' x"
      then have "j \<in> on_path self x \<and> take j x \<noteq> take n x" using mem [OF x, of j] by (auto simp: differs_def)
      then show False using one [of j x] x by blast
    qed
    then show ?thesis using that by blast
  qed
  assume d: "differs x y k"
  have k: "k < 16" and u: "differs x y k' \<Longrightarrow> k' = k" for k'
    using d take_eq_iff_differs [OF d x y, of k'] take_eq_iff_differs [of x y k' k, OF _ x y] by (auto simp: differs_def)
  show single: "on_path self y = {n}" if "n \<le> k"
  proof -
    have t: "take n y = take n x" using take_eq_iff_differs [OF d x y] n that by simp
    then have "n \<in> on_path self y" using n by (simp add: on_path_def)
    then show ?thesis using one [OF _ y t] by blast
  qed
  show "on_path self' y = (if n \<le> k then (if k < e then {Suc k} else {}) else on_path self y)"
  proof (cases "n \<le> k")
    case True
    have t: "take n y = take n x" using take_eq_iff_differs [OF d x y] n True by simp
    have "j \<in> on_path self' y \<longleftrightarrow> j = Suc k \<and> k < e" for j
    proof -
      have "\<not> (j \<in> on_path self y \<and> take j y \<noteq> take n x)" using single [OF True] t by auto
      moreover have "(\<exists>k'. n \<le> k' \<and> k' < e \<and> j = Suc k' \<and> differs x y k') \<longleftrightarrow> j = Suc k \<and> k < e" using u d True by blast
      ultimately show ?thesis using mem [OF y, of j] by blast
    qed
    then show ?thesis using True by auto
  next
    case False
    have "take j y \<noteq> take n x" if "j \<in> on_path self y" for j
    proof
      assume eq: "take j y = take n x"
      have "length (take j y) = j" "length (take n x) = n" using that x y n by (auto simp: on_path_def)
      then have "j = n" using eq by simp
      then show False using eq take_eq_iff_differs [OF d x y, of n] n False by simp
    qed
    moreover have "\<not> (\<exists>k'. n \<le> k' \<and> k' < e \<and> j = Suc k' \<and> differs x y k')" for j using u False by blast
    ultimately have "j \<in> on_path self' y \<longleftrightarrow> j \<in> on_path self y" for j using mem [OF y, of j] by blast
    then show ?thesis using False by auto
  qed
qed

lemma path_single:
  assumes ok: "pprf_ok crypto cs s0 self" and "length x = 16" and y: "length y = 16" and "differs x y k"
    and "n \<le> k" and n: "stored self (take n x) \<noteq> None"
  shows "on_path self y = {n}"
proof -
  have "n \<le> 16" using assms(4,5) by (simp add: differs_def)
  then have "take n y = take n x" using take_eq_iff_differs [OF assms(4,2,3)] assms(5) by simp
  then have "n \<in> on_path self y" using n \<open>n \<le> 16\<close> by (simp add: on_path_def)
  moreover have "m = n" if "m \<in> on_path self y" for m
    using ok y that calculation unfolding pprf_ok_def by blast
  ultimately show ?thesis by blast
qed

lemma siblings_free:
  assumes ok: "pprf_ok crypto cs s0 self" and x: "length x = 16" and n: "stored self (take n x) \<noteq> None" and k: "n \<le> k" "k < 16"
  shows "stored self (sibling_path x k) = None"
proof (rule ccontr)
  assume s: "stored self (sibling_path x k) \<noteq> None"
  let ?y = "sibling_path x k @ drop (Suc k) x"
  have y: "length ?y = 16" and t: "take (Suc k) ?y = sibling_path x k" and "differs x ?y k"
    using x k by (simp_all add: differs_def nth_append)
  then have "on_path self ?y = {n}" using path_single [OF ok x y _ k(1) n] by simp
  moreover have "Suc k \<in> on_path self ?y" using s t k unfolding on_path_def by simp
  ultimately show False using k(1) by auto
qed

definition spent_input :: "bytes \<Rightarrow> Pprf \<Rightarrow> bool" where
  "spent_input input self \<longleftrightarrow> (\<forall>x. has_bits input x \<longrightarrow> on_path self x = {})"

lemma punctured_effect:
  assumes ok: "pprf_ok crypto cs s0 self" and x: "length x = 16" and n: "n \<le> e" "e \<le> 16" "stored self (take n x) \<noteq> None"
    and st: "\<forall>bs. length bs \<le> 16 \<longrightarrow>
      (if \<exists>k. n \<le> k \<and> k < e \<and> bs = sibling_path x k then \<exists>t. stored self' bs = Some t \<and> pprf_value crypto cs s0 bs = Inr t
       else stored self' bs = (if bs = take n x then None else stored self bs))"
  shows "pprf_ok crypto cs s0 self'" "on_path self' x = {}"
    "length y = 16 \<Longrightarrow> on_path self y = {} \<Longrightarrow> on_path self' y = {}"
    "length y = 16 \<Longrightarrow> y \<noteq> x \<Longrightarrow> e = 16 \<Longrightarrow> on_path self y \<noteq> {} \<Longrightarrow> on_path self' y \<noteq> {}"
proof -
  note p = path_effect [OF ok x n st]
  show "on_path self' x = {}" using p(1) [OF x] by simp
  have one: "i = j" if "length z = 16" "i \<in> on_path self z" "j \<in> on_path self z" for i j z
    using ok that unfolding pprf_ok_def by blast
  have "i = j" if z: "length z = 16" "i \<in> on_path self' z" "j \<in> on_path self' z" for i j z
  proof (cases "z = x")
    case True
    then show ?thesis using p(1) [OF z(1)] z by simp
  next
    case False
    then obtain k where "differs x z k" using differs_exists [OF x z(1)] by metis
    from p(2) [OF z(1) this] show ?thesis using z one by (auto split: if_splits)
  qed
  moreover have "pprf_value crypto cs s0 bs = Inr t" if "length bs \<le> 16" "stored self' bs = Some t" for bs t
    using st [rule_format, OF that(1)] ok that unfolding pprf_ok_def by (auto split: if_splits)
  ultimately show "pprf_ok crypto cs s0 self'" unfolding pprf_ok_def by blast
  show "on_path self' y = {}" if y: "length y = 16" "on_path self y = {}"
  proof (cases "y = x")
    case False
    then obtain k where "differs x y k" using differs_exists [OF x y(1)] by metis
    then show ?thesis using p(2,3) [OF y(1), of k] y by (auto split: if_splits)
  qed (use p(1) [OF y(1)] in simp)
  show "on_path self' y \<noteq> {}" if y: "length y = 16" "y \<noteq> x" "e = 16" "on_path self y \<noteq> {}"
  proof -
    obtain k where k: "differs x y k" using differs_exists [OF x y(1)] y(2) by metis
    then have "k < 16" by (simp add: differs_def)
    then show ?thesis using p(2) [OF y(1) k] y(3,4) by (auto split: if_splits)
  qed
qed

lemma evaluate_effect:
  assumes ok: "pprf_ok crypto cs s0 self" and x: "has_bits input x" and ev: "evaluate crypto cs input self = (r, self')"
  shows "pprf_ok crypto cs s0 self' \<and> (\<forall>y. length y = 16 \<longrightarrow> on_path self y = {} \<longrightarrow> on_path self' y = {}) \<and>
    (case r of
       Inr t \<Rightarrow> on_path self x \<noteq> {} \<and> on_path self' x = {} \<and> pprf_value crypto cs s0 x = Inr t \<and>
         (\<forall>y. length y = 16 \<longrightarrow> y \<noteq> x \<longrightarrow> on_path self y \<noteq> {} \<longrightarrow> on_path self' y \<noteq> {})
     | Inl f \<Rightarrow> (f = Throws PuncturedInput \<and> self' = self \<and> on_path self x = {}) \<or>
         (on_path self' x = {} \<and> (\<exists>t f'. derive_child_secrets crypto cs t = Inl f' \<and> f = map_fault ChildDerivationError f')))"
proof -
  have len: "length x = 16" "\<not> length input > MAX_INPUT_LEN" using x by (simp_all add: has_bits_def MAX_INPUT_LEN_def MAX_DEPTH_def)
  from find_node_cases [OF x le0, of self] show ?thesis
  proof (elim disjE exE conjE)
    assume f: "find_node input (prefix_of (take 0 x)) 0 self = (throw PuncturedInput, self)"
      and "\<forall>n. 0 \<le> n \<and> n \<le> 16 \<longrightarrow> stored self (take n x) = None"
    then have "r = throw PuncturedInput" "self' = self" "on_path self x = {}"
      using ev len(2) by (simp_all add: evaluate_def prefix16_new_eq m_then_def on_path_def)
    then show ?thesis using ok by simp
  next
    fix n s
    let ?self = "self\<lparr>nodes := (nodes self)(prefix_of (take n x) := None)\<rparr>"
    assume n: "n \<le> 16" "stored self (take n x) = Some s"
      and f: "find_node input (prefix_of (take 0 x)) 0 self =
        (Inr (if n = 16 then AtLeaf s else Inner n (prefix_of (take n x)) s), ?self)"
    have v: "pprf_value crypto cs s0 (take n x) = Inr s" using ok n len(1) unfolding pprf_ok_def by simp
    have nx: "n \<in> on_path self x" using n by (simp add: on_path_def)
    have up: "stored ?self bs = (if bs = take n x then None else stored self bs)" if "length bs \<le> 16" for bs
      using stored_update [OF _ that, of "take n x" self None] n(1) len(1) by simp
    have w: "walk crypto cs input [n..<16] (prefix_of (take n x)) s ?self = (r, self')"
      using ev f len n(1) by (cases "n = 16") (simp_all add: evaluate_def prefix16_new_eq m_then_def MAX_DEPTH_def)
    have "stored ?self (sibling_path x k) = None" if "n \<le> k" "k < 16" for k
      using siblings_free [OF ok len(1) _ that] n(2) up [of "sibling_path x k"] that len(1) by simp
    then obtain e where e: "n \<le> e" "e \<le> 16"
      "\<forall>bs. length bs \<le> 16 \<longrightarrow>
        (if \<exists>k. n \<le> k \<and> k < e \<and> bs = sibling_path x k then \<exists>t. stored self' bs = Some t \<and> pprf_value crypto cs s0 bs = Inr t
         else stored self' bs = stored ?self bs)"
      "case r of Inr t \<Rightarrow> e = 16 \<and> pprf_value crypto cs s0 x = Inr t
       | Inl f \<Rightarrow> (\<exists>t f'. derive_child_secrets crypto cs t = Inl f' \<and> f = map_fault ChildDerivationError f')"
      using walk_effect [OF x n(1) v _ w] by blast
    have st: "\<forall>bs. length bs \<le> 16 \<longrightarrow>
        (if \<exists>k. n \<le> k \<and> k < e \<and> bs = sibling_path x k then \<exists>t. stored self' bs = Some t \<and> pprf_value crypto cs s0 bs = Inr t
         else stored self' bs = (if bs = take n x then None else stored self bs))"
      using e(3) up by metis
    have "stored self (take n x) \<noteq> None" using n(2) by simp
    note p = punctured_effect [OF ok len(1) e(1,2) this st]
    show ?thesis
    proof (cases r)
      case (Inl f)
      then show ?thesis using p(1-3) e(4) by auto
    next
      case (Inr t)
      then have "e = 16" "pprf_value crypto cs s0 x = Inr t" using e(4) by simp_all
      then show ?thesis using p nx Inr by auto
    qed
  qed
qed

section \<open>The export tree\<close>

definition component_bits :: "ComponentId \<Rightarrow> bool list" where
  "component_bits c = map (\<lambda>d. bit c (15 - d)) [0..<16]"

lemma drop_bit_and_one: "(drop_bit n (w :: u8) AND 1 = 1) \<longleftrightarrow> bit w n"
  by (simp add: and_one_eq bit_iff_odd_drop_bit mod_2_eq_odd)

lemma has_bits_component: "has_bits (as_index_bytes c) (component_bits c)"
proof -
  have "get_bit (as_index_bytes c) d = Inr (component_bits c ! d)" if "d < 16" for d
  proof (cases "d < 8")
    case True
    then have "15 - d = 7 - d + 8" "d div 8 = 0" "d mod 8 = d" by simp_all
    moreover have "7 - d < 8" by simp
    ultimately show ?thesis using True
      by (simp only: get_bit_def as_index_bytes_def drop_bit_and_one component_bits_def) (auto simp: bit_simps add.commute)
  next
    case False
    then have d: "d div 8 = Suc 0" "d mod 8 = d - 8" "7 - (d - 8) = 15 - d" using that by (auto simp: div_nat_eqI mod_eq_self_iff_div_eq_0 le_mod_geq)
    show ?thesis using False that
      by (auto simp: get_bit_def as_index_bytes_def d drop_bit_and_one component_bits_def bit_simps)
  qed
  then show ?thesis by (simp add: has_bits_def as_index_bytes_def component_bits_def)
qed

lemma component_bits_inj: "component_bits c = component_bits c' \<longleftrightarrow> c = c'"
proof
  assume eq: "component_bits c = component_bits c'"
  show "c = c'"
  proof (rule bit_word_eqI)
    fix n :: nat assume "n < LENGTH(16)"
    then have n: "15 - n < 16" "15 - (15 - n) = n" by auto
    have "component_bits c ! (15 - n) = bit c n" "component_bits c' ! (15 - n) = bit c' n"
      using n nth_upt [of 0 "15 - n" 16] by (simp_all add: component_bits_def del: upt_rec_numeral)
    then show "bit c n = bit c' n" using eq by simp
  qed
qed simp

lemma length_component_bits [simp]: "length (component_bits c) = 16"
  by (simp add: component_bits_def)

definition export_grants :: "ComponentId \<Rightarrow> (Secret, PprfError) outcome \<Rightarrow> ComponentId option" where
  "export_grants c r = (case r of Inl _ \<Rightarrow> None | Inr _ \<Rightarrow> Some c)"

definition exported :: "ComponentId \<Rightarrow> Pprf \<Rightarrow> bool" where
  "exported c self \<longleftrightarrow> on_path self (component_bits c) = {}"

lemma export_effect:
  assumes "pprf_ok crypto cs s self" and "safe_export_secret crypto cs c self = (r, self')"
  shows "pprf_ok crypto cs s self'" "exported c' self \<Longrightarrow> exported c' self'"
    "r = Inr t \<Longrightarrow> \<not> exported c self \<and> exported c self' \<and> pprf_value crypto cs s (component_bits c) = Inr t"
    "r = Inr t \<Longrightarrow> c' \<noteq> c \<Longrightarrow> \<not> exported c' self \<Longrightarrow> \<not> exported c' self'"
    "r = Inl f \<Longrightarrow> f = Throws PuncturedInput \<and> self' = self \<and> exported c self \<or> kdf_fails crypto cs"
  using evaluate_effect [OF assms(1) has_bits_component assms(2) [unfolded safe_export_secret_def]]
    derive_child_secrets_fails [of crypto cs] component_bits_inj [of c' c]
  unfolding exported_def by auto

interpretation export: one_time "safe_export_secret crypto cs" "pprf_ok crypto cs s" export_grants exported for crypto cs s
proof unfold_locales
  fix self c k
  assume ok: "pprf_ok crypto cs s self"
  obtain r self' where st: "safe_export_secret crypto cs c self = (r, self')" by fastforce
  note e = export_effect [OF ok st]
  show "pprf_ok crypto cs s (snd (safe_export_secret crypto cs c self))" using e(1) st by simp
  show "export_grants c (fst (safe_export_secret crypto cs c self)) = Some k \<Longrightarrow>
      \<not> exported k self \<and> exported k (snd (safe_export_secret crypto cs c self))"
    using e(3) st by (auto simp: export_grants_def split: sum.splits)
  show "exported k self \<Longrightarrow> exported k (snd (safe_export_secret crypto cs c self))" using e(2) st by simp
qed

lemma export_tree_new:
  "pprf_ok crypto cs s (application_export_tree_new s)" "\<not> exported c (application_export_tree_new s)"
proof -
  have st: "stored (application_export_tree_new s) bs = (if bs = [] then Some s else None)" if "length bs \<le> 16" for bs
    using prefix_of_inj [OF that, of "[]"] by (simp add: application_export_tree_new_def new_with_size_def prefix16_new_eq)
  have path: "on_path (application_export_tree_new s) x = {0}" if "length x = 16" for x
  proof -
    have "stored (application_export_tree_new s) (take n x) \<noteq> None \<longleftrightarrow> n = 0" if "n \<le> 16" for n
      using st [of "take n x"] that \<open>length x = 16\<close> by auto
    then show ?thesis by (auto simp: on_path_def)
  qed
  then show "\<not> exported c (application_export_tree_new s)" by (simp add: exported_def)
  show "pprf_ok crypto cs s (application_export_tree_new s)"
    using path st by (auto simp: pprf_ok_def split: if_splits)
qed

text \<open>
  C24: the secret exported for a component is handed out at most once, and it is the one that the
  exporter secret determines for the component, whatever was exported before and whether or not
  the backend fails in between.
\<close>

theorem export_once:
  assumes "fst (run_ops (safe_export_secret crypto cs) ids (application_export_tree_new s)) = rs"
    and "i < length ids" and "rs ! i = Inr t"
  shows "pprf_value crypto cs s (component_bits (ids ! i)) = Inr t \<and>
    (\<forall>j < length ids. j \<noteq> i \<longrightarrow> ids ! j = ids ! i \<longrightarrow> isl (rs ! j))"
proof -
  note new = export_tree_new(1) [of crypto cs s]
  obtain self where self: "pprf_ok crypto cs s self" "rs ! i = fst (safe_export_secret crypto cs (ids ! i) self)"
    using export.result_of_step [OF new assms(2)] assms(1) by metis
  then have "pprf_value crypto cs s (component_bits (ids ! i)) = Inr t"
    using export_effect(3) [OF self(1), of "ids ! i" "rs ! i" "snd (safe_export_secret crypto cs (ids ! i) self)" t] assms(3) by simp
  moreover have "isl (rs ! j)" if "j < length ids" "j \<noteq> i" "ids ! j = ids ! i" for j
  proof (rule ccontr)
    assume "\<not> isl (rs ! j)"
    then have "export_grants (ids ! j) (rs ! j) = Some (ids ! i)" "export_grants (ids ! i) (rs ! i) = Some (ids ! i)"
      using that(3) assms(3) by (auto simp: export_grants_def isl_def split: sum.split)
    then show False using export.granted_unique [OF new assms(2) that(1)] assms(1) that(2) by metis
  qed
  ultimately show ?thesis by blast
qed

text \<open>
  C25: with a backend that does not fail, the export tree is exactly a function that can be used
  once per component: the first export of a component succeeds with the value of the function,
  every later one fails with the error for a punctured input, and exports for different
  components never disturb each other.
\<close>

theorem export_tree_is_one_time_function:
  assumes "hkdf_lengths crypto" and "hkdf_total crypto" and "i < length ids"
  shows "fst (run_ops (safe_export_secret crypto cs) ids (application_export_tree_new s)) ! i =
    (if ids ! i \<in> set (take i ids) then throw PuncturedInput
     else map_err ChildDerivationError (pprf_value crypto cs s (component_bits (ids ! i))))"
proof -
  have step: "safe_export_secret crypto cs c self = (r, self') \<Longrightarrow> pprf_ok crypto cs s self \<Longrightarrow> (\<forall>c'. exported c' self \<longleftrightarrow> c' \<in> P) \<Longrightarrow>
      pprf_ok crypto cs s self' \<and> (\<forall>c'. exported c' self' \<longleftrightarrow> c' \<in> insert c P) \<and>
      r = (if c \<in> P then throw PuncturedInput else map_err ChildDerivationError (pprf_value crypto cs s (component_bits c)))"
    for c self r self' P
  proof -
    assume st: "safe_export_secret crypto cs c self = (r, self')" and ok: "pprf_ok crypto cs s self"
      and P: "\<forall>c'. exported c' self \<longleftrightarrow> c' \<in> P"
    note e = export_effect [OF ok st]
    show ?thesis
    proof (cases r)
      case (Inl f)
      then have "f = Throws PuncturedInput" "self' = self" "c \<in> P" using e(5) P no_kdf_fails [OF assms(1,2), of cs] by auto
      then show ?thesis using Inl ok P by auto
    next
      case (Inr t)
      have "exported c' self' \<longleftrightarrow> c' \<in> insert c P" for c'
        using e(2) [of c'] e(3) [OF Inr] e(4) [OF Inr, of c'] P by (cases "c' = c") auto
      then show ?thesis using e(1) e(3) [OF Inr] Inr P by auto
    qed
  qed
  have "pprf_ok crypto cs s self \<Longrightarrow> (\<forall>c'. exported c' self \<longleftrightarrow> c' \<in> P) \<Longrightarrow> i < length ids \<Longrightarrow>
      fst (run_ops (safe_export_secret crypto cs) ids self) ! i =
      (if ids ! i \<in> P \<union> set (take i ids) then throw PuncturedInput
       else map_err ChildDerivationError (pprf_value crypto cs s (component_bits (ids ! i))))" for self P
  proof (induction ids arbitrary: self P i)
    case (Cons c ids)
    obtain r self' where st: "safe_export_secret crypto cs c self = (r, self')" by fastforce
    note s = step [OF st Cons.prems(1,2)]
    show ?case
    proof (cases i)
      case 0
      then show ?thesis using s st by simp
    next
      case (Suc k)
      then show ?thesis using Cons.IH [of self' "insert c P" k] s st Cons.prems(3) by simp
    qed
  qed simp
  from this [OF export_tree_new(1), of "{}"] assms(3) export_tree_new(2) show ?thesis by simp
qed

subsection \<open>Failing evaluations\<close>

text \<open>
  An evaluation removes the node it starts from before it derives the children.  When the
  derivation fails, the secrets below that node are gone: after a failed first export every
  component counts as exported, although no secret was handed out.
\<close>

theorem failed_export_punctures_all:
  assumes "derive_child_secrets crypto cs s = Inl f"
    and "safe_export_secret crypto cs c (application_export_tree_new s) = (r, self')"
  shows "r = Inl (map_fault ChildDerivationError f) \<and> exported c' self' \<and>
    fst (safe_export_secret crypto cs c' self') = throw PuncturedInput"
proof -
  let ?new = "application_export_tree_new s"
  have root: "nodes ?new (prefix_of []) = Some s"
    by (simp add: application_export_tree_new_def new_with_size_def prefix16_new_eq)
  have "find_node (as_index_bytes c) prefix16_new 0 ?new = (Inr (Inner 0 prefix16_new s), ?new\<lparr>nodes := (nodes ?new)(prefix_of [] := None)\<rparr>)"
    using root by (subst find_node.simps) (simp add: MAX_DEPTH_def prefix16_new_eq)
  then have r: "r = Inl (map_fault ChildDerivationError f)" "self' = ?new\<lparr>nodes := (nodes ?new)(prefix_of [] := None)\<rparr>"
    using assms by (simp_all add: safe_export_secret_def evaluate_def as_index_bytes_def MAX_INPUT_LEN_def MAX_DEPTH_def m_then_def upt_rec)
  have "nodes self' p = None" for p
    using r(2) by (simp add: application_export_tree_new_def new_with_size_def prefix16_new_eq)
  then have gone: "exported c'' self'" for c'' by (simp add: exported_def on_path_def)
  have "pprf_ok crypto cs s self'" using export_effect(1) [OF export_tree_new(1) assms(2)] .
  then have "fst (safe_export_secret crypto cs c' self') = throw PuncturedInput"
    using evaluate_effect [of crypto cs s self' "as_index_bytes c'" "component_bits c'"] has_bits_component find_node_cases [OF has_bits_component le0, of c' self']
      \<open>\<And>p. nodes self' p = None\<close>
    by (simp add: safe_export_secret_def evaluate_def as_index_bytes_def MAX_INPUT_LEN_def MAX_DEPTH_def m_then_def prefix16_new_eq)
  then show ?thesis using r gone by simp
qed

text \<open>Only inputs that are too long are refused; one that is too short makes the evaluation panic.\<close>

theorem empty_input_panics:
  assumes "derive_child_secrets crypto cs s = Inr lr"
  shows "fst (evaluate crypto cs [] (new_with_size s sz)) = Inl Panics"
proof -
  obtain l r where lr: "lr = (l, r)" by (rule prod.exhaust)
  have "find_node [] prefix16_new 0 (new_with_size s sz) = (Inr (Inner 0 prefix16_new s), (new_with_size s sz)\<lparr>nodes := (nodes (new_with_size s sz))(prefix16_new := None)\<rparr>)"
    by (subst find_node.simps) (simp add: MAX_DEPTH_def new_with_size_def)
  then show ?thesis using assms lr by (simp add: evaluate_def MAX_DEPTH_def m_then_def get_bit_def upt_rec)
qed

subsection \<open>Witnesses\<close>

theorem export_tree_is_one_time_function_witness:
  "fst (run_ops (safe_export_secret toy_crypto suite1) [5, 6, 5] (application_export_tree_new (Secret [1]))) ! 1 =
     map_err ChildDerivationError (pprf_value toy_crypto suite1 (Secret [1]) (component_bits 6)) \<and>
   fst (run_ops (safe_export_secret toy_crypto suite1) [5, 6, 5] (application_export_tree_new (Secret [1]))) ! 2 = throw PuncturedInput"
  using export_tree_is_one_time_function [OF toy_crypto_ok(1,2), of 1 "[5, 6, 5]" suite1 "Secret [1]"]
    export_tree_is_one_time_function [OF toy_crypto_ok(1,2), of 2 "[5, 6, 5]" suite1 "Secret [1]"]
  by (simp del: run_ops_Cons)

lemma first_export:
  "\<exists>t. fst (run_ops (safe_export_secret toy_crypto suite1) [5, 5] (application_export_tree_new (Secret [1]))) ! 0 = Inr t"
proof -
  obtain r self' where r: "safe_export_secret toy_crypto suite1 5 (application_export_tree_new (Secret [1])) = (r, self')" by fastforce
  have "r \<noteq> Inl f" for f
    using export_effect(5) [OF export_tree_new(1) r, of f] export_tree_new(2) no_kdf_fails [OF toy_crypto_ok(1,2), of suite1] by blast
  then show ?thesis using r by (cases r) auto
qed

theorem export_once_witness:
  "\<exists>t. fst (run_ops (safe_export_secret toy_crypto suite1) [5, 5] (application_export_tree_new (Secret [1]))) ! 0 = Inr t \<and>
     isl (fst (run_ops (safe_export_secret toy_crypto suite1) [5, 5] (application_export_tree_new (Secret [1]))) ! 1)"
proof -
  obtain t where t: "fst (run_ops (safe_export_secret toy_crypto suite1) [5, 5] (application_export_tree_new (Secret [1]))) ! 0 = Inr t"
    using first_export by blast
  from export_once [OF refl _ t] have "\<forall>j < 2. j \<noteq> 0 \<longrightarrow> [5, 5] ! j = ([5, 5] ! 0 :: u16) \<longrightarrow>
      isl (fst (run_ops (safe_export_secret toy_crypto suite1) [5, 5] (application_export_tree_new (Secret [1]))) ! j)"
    by (simp del: run_ops_Cons)
  from this [rule_format, of 1] t show ?thesis by (auto simp del: run_ops_Cons)
qed
end
