(* ===== verification/HashMap.thy ===== *)
theory HashMap
  imports MapStore "HOL-Library.AList" "HOL-Library.Multiset"
begin

text \<open>
  \<^verbatim>\<open>HashMap\<close> of the standard library: a finite map whose iteration order is unspecified.  The
  model is an association list with distinct keys; a client that iterates takes the order as
  a parameter, a function that permutes the entries.
\<close>

type_synonym ('k, 'v) hash_map = "('k \<times> 'v) list"

definition hm_new :: "('k, 'v) hash_map" where
  "hm_new = []"

definition hm_get :: "('k, 'v) hash_map \<Rightarrow> 'k \<Rightarrow> 'v option" where
  "hm_get m k = map_of m k"

definition hm_insert :: "'k \<Rightarrow> 'v \<Rightarrow> ('k, 'v) hash_map \<Rightarrow> ('k, 'v) hash_map" where
  "hm_insert k v m = AList.update k v m"

definition hm_remove :: "'k \<Rightarrow> ('k, 'v) hash_map \<Rightarrow> ('k, 'v) hash_map" where
  "hm_remove k m = AList.delete k m"

definition hm_retain :: "('k \<Rightarrow> 'v \<Rightarrow> bool) \<Rightarrow> ('k, 'v) hash_map \<Rightarrow> ('k, 'v) hash_map" where
  "hm_retain P m = filter (\<lambda>(k, v). P k v) m"

definition hm_ok :: "('k, 'v) hash_map \<Rightarrow> bool" where
  "hm_ok m \<longleftrightarrow> distinct (map fst m)"

text \<open>What \<^verbatim>\<open>iter\<close> may do: visit every entry once, in any order.\<close>

definition iteration_order :: "(('k, 'v) hash_map \<Rightarrow> ('k \<times> 'v) list) \<Rightarrow> bool" where
  "iteration_order ord \<longleftrightarrow> (\<forall>m. mset (ord m) = mset m)"

lemma set_iteration: "iteration_order ord \<Longrightarrow> set (ord m) = set m"
  unfolding iteration_order_def by (metis set_mset_mset)

lemma hm_in_get: "hm_ok m \<Longrightarrow> (k, v) \<in> set m \<longleftrightarrow> hm_get m k = Some v"
  by (simp add: hm_ok_def hm_get_def map_of_eq_Some_iff)

lemma hm_get_retain: "hm_ok m \<Longrightarrow> hm_get (hm_retain P m) k =
    (case hm_get m k of Some v \<Rightarrow> if P k v then Some v else None | None \<Rightarrow> None)"
  unfolding hm_ok_def hm_get_def hm_retain_def
  by (induction m) (auto split: option.splits simp: map_of_eq_None_iff image_iff)

lemma hm_ok_retain: "hm_ok m \<Longrightarrow> hm_ok (hm_retain P m)"
  by (simp add: hm_ok_def hm_retain_def distinct_map_filter)

interpretation hm: map_store hm_get hm_insert hm_remove hm_retain hm_ok
  by unfold_locales
    (simp_all add: hm_get_retain hm_ok_retain, simp_all add: hm_ok_def hm_get_def hm_insert_def
      hm_remove_def update_conv' distinct_update distinct_delete delete_conv')

end
