(* ===== verification/MemoryStorage.thy ===== *)
theory MemoryStorage
  imports HashMap StepSystem "HOL-Library.Sublist" "HOL-Library.List_Lexorder"
begin

text \<open>
  The in-memory storage provider (\<^verbatim>\<open>memory_storage/src/lib.rs\<close>): a hash map from byte strings
  to byte strings behind a read-write lock.  Every row is stored under the concatenation of
  a label, the serialized key and the storage version.

  Serialization (\<^verbatim>\<open>serde_json\<close> and the \<^verbatim>\<open>Serialize\<close> instances of the caller's types) is a
  parameter, the record \<open>Serde\<close>; its fields are the instances of \<^verbatim>\<open>to_vec\<close> and \<^verbatim>\<open>from_slice\<close>
  that the provider calls, at the types that the storage traits name.  The iteration order of
  the hash map is a field as well.  \<open>serde_ok\<close> states what is relied on: round trips, and that
  the serialization of a group id (a JSON object) is not a proper prefix of another one.

  A panic while the write lock is held poisons the lock; every later access then panics too.
\<close>

section \<open>Serialization\<close>

datatype StorageType =
    GroupIdT | SignaturePublicKeyT | HashReferenceT | PskIdT | EncryptionKeyT | EpochKeyT
  | QueuedProposalT | TreeSyncT | GroupContextT | InterimTranscriptHashT | ConfirmationTagT
  | SignatureKeyPairT | PskBundleT | HpkeKeyPairT | GroupStateT | GroupEpochSecretsT
  | LeafNodeIndexT | MessageSecretsT | ResumptionPskStoreT | KeyPackageT | MlsGroupJoinConfigT
  | LeafNodeT | ApplicationExportTreeT | VcEpochIdT | VcDerivationEpochStateT
  | VcEmulationBindingT | VcDerivationEpochLogEntryT | VcOperationTreeT
  | RetainedKeyPackageMaterialT | ProposalRefT

record 'v Serde =
  to_vec :: "StorageType \<Rightarrow> 'v \<Rightarrow> bytes option"
  from_slice :: "StorageType \<Rightarrow> bytes \<Rightarrow> 'v option"
  from_slice_option :: "StorageType \<Rightarrow> bytes \<Rightarrow> 'v option option"
  to_vec_pair :: "StorageType \<times> StorageType \<Rightarrow> 'v \<times> 'v \<Rightarrow> bytes option"
  to_vec_slice :: "StorageType \<Rightarrow> 'v list \<Rightarrow> bytes option"
  from_slice_vec :: "StorageType \<Rightarrow> bytes \<Rightarrow> 'v list option"
  to_vec_u32 :: "u32 \<Rightarrow> bytes option"
  to_writer_list :: "bytes list \<Rightarrow> bytes \<times> bool"
  from_slice_list :: "bytes \<Rightarrow> bytes list option"
  to_vec_tagged :: "bytes \<times> bytes \<Rightarrow> bytes option"
  from_slice_tagged :: "bytes \<Rightarrow> (bytes \<times> bytes) option"
  hash_order :: "(bytes, bytes) hash_map \<Rightarrow> (bytes \<times> bytes) list"

section \<open>The store\<close>

datatype MemoryStorageError = UnsupportedValueTypeBytes | UnsupportedMethod | SerializationError

record MemoryStorage =
  storage_values :: "(bytes, bytes) hash_map"
  poisoned :: bool

definition memory_storage_default :: MemoryStorage where
  "memory_storage_default = \<lparr>storage_values = hm_new, poisoned = False\<rparr>"

type_synonym 'a storage_read = "MemoryStorage \<Rightarrow> ('a, MemoryStorageError) outcome"
type_synonym 'a storage_write = "(MemoryStorage, 'a, MemoryStorageError) mutator"

text \<open>
  \<^verbatim>\<open>self.values.read().unwrap()\<close> and \<^verbatim>\<open>self.values.write().unwrap()\<close> with the code that runs
  while the guard is held.
\<close>

definition with_read :: "((bytes, bytes) hash_map \<Rightarrow> ('a, MemoryStorageError) outcome) \<Rightarrow> 'a storage_read" where
  "with_read f st = (if poisoned st then Inl Panics else f (storage_values st))"

definition with_write :: "((bytes, bytes) hash_map, 'a, MemoryStorageError) mutator \<Rightarrow> 'a storage_write" where
  "with_write m st =
     (if poisoned st then (Inl Panics, st)
      else case m (storage_values st) of (r, values) \<Rightarrow>
        (r, st\<lparr>storage_values := values, poisoned := (case r of Inl Panics \<Rightarrow> True | _ \<Rightarrow> False)\<rparr>))"

text \<open>\<^verbatim>\<open>serde_json::to_vec(..)?\<close> and \<^verbatim>\<open>serde_json::to_vec(..).unwrap()\<close>.\<close>

definition json_try :: "'v Serde \<Rightarrow> StorageType \<Rightarrow> 'v \<Rightarrow> (bytes, MemoryStorageError) outcome" where
  "json_try sj T v = ok_or (to_vec sj T v) SerializationError"

definition json_unwrap :: "'v Serde \<Rightarrow> StorageType \<Rightarrow> 'v \<Rightarrow> (bytes, MemoryStorageError) outcome" where
  "json_unwrap sj T v = unwrap (to_vec sj T v)"

definition json_pair :: "'v Serde \<Rightarrow> 'v \<Rightarrow> 'v \<Rightarrow> (bytes, MemoryStorageError) outcome" where
  "json_pair sj group_id proposal_ref =
     ok_or (to_vec_pair sj (GroupIdT, ProposalRefT) (group_id, proposal_ref)) SerializationError"

subsection \<open>Keys\<close>

definition CURRENT_VERSION :: u16 where
  "CURRENT_VERSION = 1"

definition version_bytes :: "u16 \<Rightarrow> bytes" where
  "version_bytes V = [ucast (drop_bit 8 V), ucast V]"

definition build_key_from_vec :: "u16 \<Rightarrow> bytes \<Rightarrow> bytes \<Rightarrow> bytes" where
  "build_key_from_vec V label key = label @ key @ version_bytes V"

definition build_key :: "'v Serde \<Rightarrow> u16 \<Rightarrow> bytes \<Rightarrow> StorageType \<Rightarrow> 'v \<Rightarrow> (bytes, MemoryStorageError) outcome" where
  "build_key sj V label T key =
     and_then (json_unwrap sj T key) (\<lambda>k. Inr (build_key_from_vec V label k))"

definition build_composite_key :: "u16 \<Rightarrow> bytes \<Rightarrow> bytes \<Rightarrow> bytes \<Rightarrow> bytes" where
  "build_composite_key V label first second = label @ first @ second @ version_bytes V"

definition epoch_key_pairs_id :: "'v Serde \<Rightarrow> 'v \<Rightarrow> 'v \<Rightarrow> u32 \<Rightarrow> (bytes, MemoryStorageError) outcome" where
  "epoch_key_pairs_id sj group_id epoch leaf_index =
     and_then (json_try sj GroupIdT group_id) (\<lambda>g.
     and_then (json_try sj EpochKeyT epoch) (\<lambda>e.
     and_then (ok_or (to_vec_u32 sj leaf_index) SerializationError) (\<lambda>l.
       Inr (g @ e @ l))))"

definition epoch_tagged_value :: "'v Serde \<Rightarrow> bytes \<Rightarrow> bytes \<Rightarrow> (bytes, MemoryStorageError) outcome" where
  "epoch_tagged_value sj serialized_epoch_id serialized_entity =
     ok_or (to_vec_tagged sj (serialized_epoch_id, serialized_entity)) SerializationError"

definition decode_epoch_tagged_value :: "'v Serde \<Rightarrow> bytes \<Rightarrow> (bytes \<times> bytes, MemoryStorageError) outcome" where
  "decode_epoch_tagged_value sj value = ok_or (from_slice_tagged sj value) SerializationError"

subsection \<open>Internal helpers\<close>

definition write_value :: "u16 \<Rightarrow> bytes \<Rightarrow> bytes \<Rightarrow> bytes \<Rightarrow> unit storage_write" where
  "write_value V label key value =
     with_write (\<lambda>values. (Inr (), hm_insert (build_key_from_vec V label key) value values))"

text \<open>\<^verbatim>\<open>entry(key).or_insert_with(|| b"[]".to_vec())\<close>.\<close>

definition list_entry :: "bytes \<Rightarrow> (bytes, bytes) hash_map \<Rightarrow> bytes \<times> (bytes, bytes) hash_map" where
  "list_entry storage_key values =
     (case hm_get values storage_key of
        Some list_bytes \<Rightarrow> (list_bytes, values)
      | None \<Rightarrow> (str_bytes ''[]'', hm_insert storage_key (str_bytes ''[]'') values))"

definition append_item :: "'v Serde \<Rightarrow> u16 \<Rightarrow> bytes \<Rightarrow> bytes \<Rightarrow> bytes \<Rightarrow> unit storage_write" where
  "append_item sj V label key value = with_write (\<lambda>values.
     let storage_key = build_key_from_vec V label key;
         (list_bytes, values) = list_entry storage_key values
     in m_let (ok_or (from_slice_list sj list_bytes) SerializationError) (\<lambda>list values.
          let (list_bytes, written) = to_writer_list sj (list @ [value])
          in (if written then Inr () else throw SerializationError,
              hm_insert storage_key list_bytes values)) values)"

definition remove_item :: "'v Serde \<Rightarrow> u16 \<Rightarrow> bytes \<Rightarrow> bytes \<Rightarrow> bytes \<Rightarrow> unit storage_write" where
  "remove_item sj V label key value = with_write (\<lambda>values.
     let storage_key = build_key_from_vec V label key;
         (list_bytes, values) = list_entry storage_key values
     in m_let (ok_or (from_slice_list sj list_bytes) SerializationError) (\<lambda>list values.
          let (list_bytes, written) = to_writer_list sj (remove1 value list)
          in (if written then Inr () else throw SerializationError,
              hm_insert storage_key list_bytes values)) values)"

definition read_value :: "'v Serde \<Rightarrow> u16 \<Rightarrow> StorageType \<Rightarrow> bytes \<Rightarrow> bytes \<Rightarrow> 'v option storage_read" where
  "read_value sj V T label key = with_read (\<lambda>values.
     case hm_get values (build_key_from_vec V label key) of
       Some value \<Rightarrow> and_then (ok_or (from_slice sj T value) SerializationError) (\<lambda>v. Inr (Some v))
     | None \<Rightarrow> Inr None)"

definition read_list :: "'v Serde \<Rightarrow> u16 \<Rightarrow> StorageType \<Rightarrow> bytes \<Rightarrow> bytes \<Rightarrow> 'v list storage_read" where
  "read_list sj V T label key = with_read (\<lambda>values.
     and_then (case hm_get values (label @ key @ version_bytes V) of
         Some list_bytes \<Rightarrow> unwrap (from_slice_list sj list_bytes)
       | None \<Rightarrow> Inr [])
       (o_map (\<lambda>value_bytes. ok_or (from_slice sj T value_bytes) SerializationError)))"

definition delete_value :: "u16 \<Rightarrow> bytes \<Rightarrow> bytes \<Rightarrow> unit storage_write" where
  "delete_value V label key =
     with_write (\<lambda>values. (Inr (), hm_remove (label @ key @ version_bytes V) values))"

text \<open>
  Getters of several entities share one body: they deserialize the row at the type
  \<^verbatim>\<open>Option<T>\<close> and panic if that fails.  Setters of several entities serialize key and value
  while the write lock is held.
\<close>

definition get_row :: "'v Serde \<Rightarrow> bytes \<Rightarrow> StorageType \<Rightarrow> StorageType \<Rightarrow> 'v \<Rightarrow> 'v option storage_read" where
  "get_row sj label K T key = with_read (\<lambda>values.
     and_then (build_key sj CURRENT_VERSION label K key) (\<lambda>k.
       case hm_get values k of
         None \<Rightarrow> Inr None
       | Some value \<Rightarrow> unwrap (from_slice_option sj T value)))"

definition insert_row :: "'v Serde \<Rightarrow> bytes \<Rightarrow> StorageType \<Rightarrow> StorageType \<Rightarrow> 'v \<Rightarrow> 'v \<Rightarrow> unit storage_write" where
  "insert_row sj label K T key value = with_write
     (m_let (build_key sj CURRENT_VERSION label K key) (\<lambda>k.
      m_let (json_unwrap sj T value) (\<lambda>v values.
        (Inr (), hm_insert k v values))))"

subsection \<open>Labels\<close>

definition KEY_PACKAGE_LABEL :: bytes where
  "KEY_PACKAGE_LABEL = str_bytes ''KeyPackage''"

definition PSK_LABEL :: bytes where
  "PSK_LABEL = str_bytes ''Psk''"

definition ENCRYPTION_KEY_PAIR_LABEL :: bytes where
  "ENCRYPTION_KEY_PAIR_LABEL = str_bytes ''EncryptionKeyPair''"

definition SIGNATURE_KEY_PAIR_LABEL :: bytes where
  "SIGNATURE_KEY_PAIR_LABEL = str_bytes ''SignatureKeyPair''"

definition EPOCH_KEY_PAIRS_LABEL :: bytes where
  "EPOCH_KEY_PAIRS_LABEL = str_bytes ''EpochKeyPairs''"

definition TREE_LABEL :: bytes where
  "TREE_LABEL = str_bytes ''Tree''"

definition GROUP_CONTEXT_LABEL :: bytes where
  "GROUP_CONTEXT_LABEL = str_bytes ''GroupContext''"

definition APPLICATION_EXPORT_TREE_LABEL :: bytes where
  "APPLICATION_EXPORT_TREE_LABEL = str_bytes ''ApplicationExportTree''"

definition VC_DERIVATION_EPOCH_STATE_LABEL :: bytes where
  "VC_DERIVATION_EPOCH_STATE_LABEL = str_bytes ''VcDerivationEpochState''"

definition VC_EMULATION_BINDING_LABEL :: bytes where
  "VC_EMULATION_BINDING_LABEL = str_bytes ''VcEmulationBinding''"

definition VC_DERIVATION_EPOCH_LOG_ENTRY_LABEL :: bytes where
  "VC_DERIVATION_EPOCH_LOG_ENTRY_LABEL = str_bytes ''VcDerivationEpochLogEntry''"

definition VC_OPERATION_TREE_LABEL :: bytes where
  "VC_OPERATION_TREE_LABEL = str_bytes ''VcOperationTree''"

definition RETAINED_KEY_PACKAGE_MATERIAL_LABEL :: bytes where
  "RETAINED_KEY_PACKAGE_MATERIAL_LABEL = str_bytes ''RetainedKeyPackageMaterial''"

definition RETAINED_KEY_PACKAGE_EPOCH_LABEL :: bytes where
  "RETAINED_KEY_PACKAGE_EPOCH_LABEL = str_bytes ''RetainedKeyPackageEpoch''"

definition INTERIM_TRANSCRIPT_HASH_LABEL :: bytes where
  "INTERIM_TRANSCRIPT_HASH_LABEL = str_bytes ''InterimTranscriptHash''"

definition CONFIRMATION_TAG_LABEL :: bytes where
  "CONFIRMATION_TAG_LABEL = str_bytes ''ConfirmationTag''"

definition JOIN_CONFIG_LABEL :: bytes where
  "JOIN_CONFIG_LABEL = str_bytes ''MlsGroupJoinConfig''"

definition OWN_LEAF_NODES_LABEL :: bytes where
  "OWN_LEAF_NODES_LABEL = str_bytes ''OwnLeafNodes''"

definition GROUP_STATE_LABEL :: bytes where
  "GROUP_STATE_LABEL = str_bytes ''GroupState''"

definition QUEUED_PROPOSAL_LABEL :: bytes where
  "QUEUED_PROPOSAL_LABEL = str_bytes ''QueuedProposal''"

definition PROPOSAL_QUEUE_REFS_LABEL :: bytes where
  "PROPOSAL_QUEUE_REFS_LABEL = str_bytes ''ProposalQueueRefs''"

definition OWN_LEAF_NODE_INDEX_LABEL :: bytes where
  "OWN_LEAF_NODE_INDEX_LABEL = str_bytes ''OwnLeafNodeIndex''"

definition EPOCH_SECRETS_LABEL :: bytes where
  "EPOCH_SECRETS_LABEL = str_bytes ''EpochSecrets''"

definition RESUMPTION_PSK_STORE_LABEL :: bytes where
  "RESUMPTION_PSK_STORE_LABEL = str_bytes ''ResumptionPsk''"

definition MESSAGE_SECRETS_LABEL :: bytes where
  "MESSAGE_SECRETS_LABEL = str_bytes ''MessageSecrets''"

definition all_labels :: "bytes list" where
  "all_labels =
     [KEY_PACKAGE_LABEL,
      PSK_LABEL,
      ENCRYPTION_KEY_PAIR_LABEL,
      SIGNATURE_KEY_PAIR_LABEL,
      EPOCH_KEY_PAIRS_LABEL,
      TREE_LABEL,
      GROUP_CONTEXT_LABEL,
      APPLICATION_EXPORT_TREE_LABEL,
      VC_DERIVATION_EPOCH_STATE_LABEL,
      VC_EMULATION_BINDING_LABEL,
      VC_DERIVATION_EPOCH_LOG_ENTRY_LABEL,
      VC_OPERATION_TREE_LABEL,
      RETAINED_KEY_PACKAGE_MATERIAL_LABEL,
      RETAINED_KEY_PACKAGE_EPOCH_LABEL,
      INTERIM_TRANSCRIPT_HASH_LABEL,
      CONFIRMATION_TAG_LABEL,
      JOIN_CONFIG_LABEL,
      OWN_LEAF_NODES_LABEL,
      GROUP_STATE_LABEL,
      QUEUED_PROPOSAL_LABEL,
      PROPOSAL_QUEUE_REFS_LABEL,
      OWN_LEAF_NODE_INDEX_LABEL,
      EPOCH_SECRETS_LABEL,
      RESUMPTION_PSK_STORE_LABEL,
      MESSAGE_SECRETS_LABEL]"

lemmas label_defs =
  KEY_PACKAGE_LABEL_def
  PSK_LABEL_def
  ENCRYPTION_KEY_PAIR_LABEL_def
  SIGNATURE_KEY_PAIR_LABEL_def
  EPOCH_KEY_PAIRS_LABEL_def
  TREE_LABEL_def
  GROUP_CONTEXT_LABEL_def
  APPLICATION_EXPORT_TREE_LABEL_def
  VC_DERIVATION_EPOCH_STATE_LABEL_def
  VC_EMULATION_BINDING_LABEL_def
  VC_DERIVATION_EPOCH_LOG_ENTRY_LABEL_def
  VC_OPERATION_TREE_LABEL_def
  RETAINED_KEY_PACKAGE_MATERIAL_LABEL_def
  RETAINED_KEY_PACKAGE_EPOCH_LABEL_def
  INTERIM_TRANSCRIPT_HASH_LABEL_def
  CONFIRMATION_TAG_LABEL_def
  JOIN_CONFIG_LABEL_def
  OWN_LEAF_NODES_LABEL_def
  GROUP_STATE_LABEL_def
  QUEUED_PROPOSAL_LABEL_def
  PROPOSAL_QUEUE_REFS_LABEL_def
  OWN_LEAF_NODE_INDEX_LABEL_def
  EPOCH_SECRETS_LABEL_def
  RESUMPTION_PSK_STORE_LABEL_def
  MESSAGE_SECRETS_LABEL_def

subsection \<open>Proposals\<close>

definition queue_proposal :: "'v Serde \<Rightarrow> 'v \<Rightarrow> 'v \<Rightarrow> 'v \<Rightarrow> unit storage_write" where
  "queue_proposal sj group_id proposal_ref proposal =
     m_let (json_pair sj group_id proposal_ref) (\<lambda>key.
     m_let (json_try sj QueuedProposalT proposal) (\<lambda>value.
     m_then (write_value CURRENT_VERSION QUEUED_PROPOSAL_LABEL key value) (\<lambda>_.
     m_let (json_try sj GroupIdT group_id) (\<lambda>key.
     m_let (json_try sj ProposalRefT proposal_ref) (\<lambda>value.
     append_item sj CURRENT_VERSION PROPOSAL_QUEUE_REFS_LABEL key value)))))"

definition queued_proposal_refs :: "'v Serde \<Rightarrow> 'v \<Rightarrow> 'v list storage_read" where
  "queued_proposal_refs sj group_id st =
     and_then (json_try sj GroupIdT group_id) (\<lambda>key.
       read_list sj CURRENT_VERSION ProposalRefT PROPOSAL_QUEUE_REFS_LABEL key st)"

definition queued_proposals :: "'v Serde \<Rightarrow> 'v \<Rightarrow> ('v \<times> 'v) list storage_read" where
  "queued_proposals sj group_id st =
     and_then (json_try sj GroupIdT group_id) (\<lambda>key.
     and_then (read_list sj CURRENT_VERSION ProposalRefT PROPOSAL_QUEUE_REFS_LABEL key st)
       (o_map (\<lambda>proposal_ref.
         and_then (json_pair sj group_id proposal_ref) (\<lambda>key.
         and_then (read_value sj CURRENT_VERSION QueuedProposalT QUEUED_PROPOSAL_LABEL key st) (\<lambda>found.
         and_then (unwrap found) (\<lambda>proposal. Inr (proposal_ref, proposal)))))))"

definition remove_proposal :: "'v Serde \<Rightarrow> 'v \<Rightarrow> 'v \<Rightarrow> unit storage_write" where
  "remove_proposal sj group_id proposal_ref =
     m_let (json_unwrap sj GroupIdT group_id) (\<lambda>key.
     m_let (json_unwrap sj ProposalRefT proposal_ref) (\<lambda>value.
     m_then (remove_item sj CURRENT_VERSION PROPOSAL_QUEUE_REFS_LABEL key value) (\<lambda>_.
     m_let (unwrap (to_vec_pair sj (GroupIdT, ProposalRefT) (group_id, proposal_ref))) (\<lambda>key.
     delete_value CURRENT_VERSION QUEUED_PROPOSAL_LABEL key))))"

definition clear_proposal_queue :: "'v Serde \<Rightarrow> 'v \<Rightarrow> unit storage_write" where
  "clear_proposal_queue sj group_id st =
     m_let (queued_proposal_refs sj group_id st) (\<lambda>proposal_refs.
       with_write
         (m_then (m_for (\<lambda>proposal_ref. m_let (json_pair sj group_id proposal_ref) (\<lambda>key values.
              (Inr (), hm_remove (build_key_from_vec CURRENT_VERSION QUEUED_PROPOSAL_LABEL key) values)))
              proposal_refs) (\<lambda>_.
          m_let (build_key sj CURRENT_VERSION PROPOSAL_QUEUE_REFS_LABEL GroupIdT group_id) (\<lambda>key values.
              (Inr (), hm_remove key values))))) st"

subsection \<open>Group state\<close>

definition write_tree :: "'v Serde \<Rightarrow> 'v \<Rightarrow> 'v \<Rightarrow> unit storage_write" where
  "write_tree sj group_id tree =
     m_let (json_unwrap sj GroupIdT group_id) (\<lambda>key. m_let (json_unwrap sj TreeSyncT tree) (\<lambda>value.
       write_value CURRENT_VERSION TREE_LABEL key value))"

definition write_interim_transcript_hash :: "'v Serde \<Rightarrow> 'v \<Rightarrow> 'v \<Rightarrow> unit storage_write" where
  "write_interim_transcript_hash sj group_id interim_transcript_hash =
     insert_row sj INTERIM_TRANSCRIPT_HASH_LABEL GroupIdT InterimTranscriptHashT group_id interim_transcript_hash"

definition write_context :: "'v Serde \<Rightarrow> 'v \<Rightarrow> 'v \<Rightarrow> unit storage_write" where
  "write_context sj group_id group_context =
     insert_row sj GROUP_CONTEXT_LABEL GroupIdT GroupContextT group_id group_context"

definition write_confirmation_tag :: "'v Serde \<Rightarrow> 'v \<Rightarrow> 'v \<Rightarrow> unit storage_write" where
  "write_confirmation_tag sj group_id confirmation_tag =
     insert_row sj CONFIRMATION_TAG_LABEL GroupIdT ConfirmationTagT group_id confirmation_tag"

definition storage_tree :: "'v Serde \<Rightarrow> 'v \<Rightarrow> 'v option storage_read" where
  "storage_tree sj group_id =
     get_row sj TREE_LABEL GroupIdT TreeSyncT group_id"

definition storage_group_context :: "'v Serde \<Rightarrow> 'v \<Rightarrow> 'v option storage_read" where
  "storage_group_context sj group_id =
     get_row sj GROUP_CONTEXT_LABEL GroupIdT GroupContextT group_id"

definition storage_interim_transcript_hash :: "'v Serde \<Rightarrow> 'v \<Rightarrow> 'v option storage_read" where
  "storage_interim_transcript_hash sj group_id =
     get_row sj INTERIM_TRANSCRIPT_HASH_LABEL GroupIdT InterimTranscriptHashT group_id"

definition storage_confirmation_tag :: "'v Serde \<Rightarrow> 'v \<Rightarrow> 'v option storage_read" where
  "storage_confirmation_tag sj group_id =
     get_row sj CONFIRMATION_TAG_LABEL GroupIdT ConfirmationTagT group_id"

definition delete_tree :: "'v Serde \<Rightarrow> 'v \<Rightarrow> unit storage_write" where
  "delete_tree sj group_id =
     m_let (json_unwrap sj GroupIdT group_id) (\<lambda>key. delete_value CURRENT_VERSION TREE_LABEL key)"

definition delete_confirmation_tag :: "'v Serde \<Rightarrow> 'v \<Rightarrow> unit storage_write" where
  "delete_confirmation_tag sj group_id =
     m_let (json_unwrap sj GroupIdT group_id) (\<lambda>key. delete_value CURRENT_VERSION CONFIRMATION_TAG_LABEL key)"

definition delete_context :: "'v Serde \<Rightarrow> 'v \<Rightarrow> unit storage_write" where
  "delete_context sj group_id =
     m_let (json_unwrap sj GroupIdT group_id) (\<lambda>key. delete_value CURRENT_VERSION GROUP_CONTEXT_LABEL key)"

definition delete_interim_transcript_hash :: "'v Serde \<Rightarrow> 'v \<Rightarrow> unit storage_write" where
  "delete_interim_transcript_hash sj group_id =
     m_let (json_unwrap sj GroupIdT group_id) (\<lambda>key. delete_value CURRENT_VERSION INTERIM_TRANSCRIPT_HASH_LABEL key)"

definition storage_group_state :: "'v Serde \<Rightarrow> 'v \<Rightarrow> 'v option storage_read" where
  "storage_group_state sj group_id st =
     and_then (json_try sj GroupIdT group_id) (\<lambda>key. read_value sj CURRENT_VERSION GroupStateT GROUP_STATE_LABEL key st)"

definition write_group_state :: "'v Serde \<Rightarrow> 'v \<Rightarrow> 'v \<Rightarrow> unit storage_write" where
  "write_group_state sj group_id group_state =
     m_let (json_try sj GroupIdT group_id) (\<lambda>key. m_let (json_try sj GroupStateT group_state) (\<lambda>value.
       write_value CURRENT_VERSION GROUP_STATE_LABEL key value))"

definition delete_group_state :: "'v Serde \<Rightarrow> 'v \<Rightarrow> unit storage_write" where
  "delete_group_state sj group_id =
     m_let (json_try sj GroupIdT group_id) (\<lambda>key. delete_value CURRENT_VERSION GROUP_STATE_LABEL key)"

definition storage_message_secrets :: "'v Serde \<Rightarrow> 'v \<Rightarrow> 'v option storage_read" where
  "storage_message_secrets sj group_id st =
     and_then (json_try sj GroupIdT group_id) (\<lambda>key. read_value sj CURRENT_VERSION MessageSecretsT MESSAGE_SECRETS_LABEL key st)"

definition write_message_secrets :: "'v Serde \<Rightarrow> 'v \<Rightarrow> 'v \<Rightarrow> unit storage_write" where
  "write_message_secrets sj group_id message_secrets =
     m_let (json_try sj GroupIdT group_id) (\<lambda>key. m_let (json_try sj MessageSecretsT message_secrets) (\<lambda>value.
       write_value CURRENT_VERSION MESSAGE_SECRETS_LABEL key value))"

definition delete_message_secrets :: "'v Serde \<Rightarrow> 'v \<Rightarrow> unit storage_write" where
  "delete_message_secrets sj group_id =
     m_let (json_try sj GroupIdT group_id) (\<lambda>key. delete_value CURRENT_VERSION MESSAGE_SECRETS_LABEL key)"

definition storage_resumption_psk_store :: "'v Serde \<Rightarrow> 'v \<Rightarrow> 'v option storage_read" where
  "storage_resumption_psk_store sj group_id st =
     and_then (json_try sj GroupIdT group_id) (\<lambda>key. read_value sj CURRENT_VERSION ResumptionPskStoreT RESUMPTION_PSK_STORE_LABEL key st)"

definition write_resumption_psk_store :: "'v Serde \<Rightarrow> 'v \<Rightarrow> 'v \<Rightarrow> unit storage_write" where
  "write_resumption_psk_store sj group_id resumption_psk_store =
     m_let (json_try sj GroupIdT group_id) (\<lambda>key. m_let (json_try sj ResumptionPskStoreT resumption_psk_store) (\<lambda>value.
       write_value CURRENT_VERSION RESUMPTION_PSK_STORE_LABEL key value))"

definition delete_all_resumption_psk_secrets :: "'v Serde \<Rightarrow> 'v \<Rightarrow> unit storage_write" where
  "delete_all_resumption_psk_secrets sj group_id =
     m_let (json_try sj GroupIdT group_id) (\<lambda>key. delete_value CURRENT_VERSION RESUMPTION_PSK_STORE_LABEL key)"

definition storage_own_leaf_index :: "'v Serde \<Rightarrow> 'v \<Rightarrow> 'v option storage_read" where
  "storage_own_leaf_index sj group_id st =
     and_then (json_try sj GroupIdT group_id) (\<lambda>key. read_value sj CURRENT_VERSION LeafNodeIndexT OWN_LEAF_NODE_INDEX_LABEL key st)"

definition write_own_leaf_index :: "'v Serde \<Rightarrow> 'v \<Rightarrow> 'v \<Rightarrow> unit storage_write" where
  "write_own_leaf_index sj group_id own_leaf_index =
     m_let (json_try sj GroupIdT group_id) (\<lambda>key. m_let (json_try sj LeafNodeIndexT own_leaf_index) (\<lambda>value.
       write_value CURRENT_VERSION OWN_LEAF_NODE_INDEX_LABEL key value))"

definition delete_own_leaf_index :: "'v Serde \<Rightarrow> 'v \<Rightarrow> unit storage_write" where
  "delete_own_leaf_index sj group_id =
     m_let (json_try sj GroupIdT group_id) (\<lambda>key. delete_value CURRENT_VERSION OWN_LEAF_NODE_INDEX_LABEL key)"

definition storage_group_epoch_secrets :: "'v Serde \<Rightarrow> 'v \<Rightarrow> 'v option storage_read" where
  "storage_group_epoch_secrets sj group_id st =
     and_then (json_try sj GroupIdT group_id) (\<lambda>key. read_value sj CURRENT_VERSION GroupEpochSecretsT EPOCH_SECRETS_LABEL key st)"

definition write_group_epoch_secrets :: "'v Serde \<Rightarrow> 'v \<Rightarrow> 'v \<Rightarrow> unit storage_write" where
  "write_group_epoch_secrets sj group_id group_epoch_secrets =
     m_let (json_try sj GroupIdT group_id) (\<lambda>key. m_let (json_try sj GroupEpochSecretsT group_epoch_secrets) (\<lambda>value.
       write_value CURRENT_VERSION EPOCH_SECRETS_LABEL key value))"

definition delete_group_epoch_secrets :: "'v Serde \<Rightarrow> 'v \<Rightarrow> unit storage_write" where
  "delete_group_epoch_secrets sj group_id =
     m_let (json_try sj GroupIdT group_id) (\<lambda>key. delete_value CURRENT_VERSION EPOCH_SECRETS_LABEL key)"

definition storage_mls_group_join_config :: "'v Serde \<Rightarrow> 'v \<Rightarrow> 'v option storage_read" where
  "storage_mls_group_join_config sj group_id st =
     and_then (json_unwrap sj GroupIdT group_id) (\<lambda>key. read_value sj CURRENT_VERSION MlsGroupJoinConfigT JOIN_CONFIG_LABEL key st)"

definition write_mls_join_config :: "'v Serde \<Rightarrow> 'v \<Rightarrow> 'v \<Rightarrow> unit storage_write" where
  "write_mls_join_config sj group_id config =
     m_let (json_unwrap sj GroupIdT group_id) (\<lambda>key. m_let (json_unwrap sj MlsGroupJoinConfigT config) (\<lambda>value.
       write_value CURRENT_VERSION JOIN_CONFIG_LABEL key value))"

definition delete_group_config :: "'v Serde \<Rightarrow> 'v \<Rightarrow> unit storage_write" where
  "delete_group_config sj group_id =
     m_let (json_unwrap sj GroupIdT group_id) (\<lambda>key. delete_value CURRENT_VERSION JOIN_CONFIG_LABEL key)"

definition write_application_export_tree :: "'v Serde \<Rightarrow> 'v \<Rightarrow> 'v \<Rightarrow> unit storage_write" where
  "write_application_export_tree sj group_id application_export_tree =
     m_let (json_unwrap sj GroupIdT group_id) (\<lambda>key. m_let (json_unwrap sj ApplicationExportTreeT application_export_tree) (\<lambda>value.
       write_value CURRENT_VERSION APPLICATION_EXPORT_TREE_LABEL key value))"

definition storage_application_export_tree :: "'v Serde \<Rightarrow> 'v \<Rightarrow> 'v option storage_read" where
  "storage_application_export_tree sj group_id =
     get_row sj APPLICATION_EXPORT_TREE_LABEL GroupIdT ApplicationExportTreeT group_id"

definition delete_application_export_tree :: "'v Serde \<Rightarrow> 'v \<Rightarrow> unit storage_write" where
  "delete_application_export_tree sj group_id =
     m_let (json_unwrap sj GroupIdT group_id) (\<lambda>key. delete_value CURRENT_VERSION APPLICATION_EXPORT_TREE_LABEL key)"

definition own_leaf_nodes :: "'v Serde \<Rightarrow> 'v \<Rightarrow> 'v list storage_read" where
  "own_leaf_nodes sj group_id st =
     and_then (json_unwrap sj GroupIdT group_id) (\<lambda>key.
       read_list sj CURRENT_VERSION LeafNodeT OWN_LEAF_NODES_LABEL key st)"

definition append_own_leaf_node :: "'v Serde \<Rightarrow> 'v \<Rightarrow> 'v \<Rightarrow> unit storage_write" where
  "append_own_leaf_node sj group_id leaf_node =
     m_let (json_try sj GroupIdT group_id) (\<lambda>key. m_let (json_try sj LeafNodeT leaf_node) (\<lambda>value.
       append_item sj CURRENT_VERSION OWN_LEAF_NODES_LABEL key value))"

definition delete_own_leaf_nodes :: "'v Serde \<Rightarrow> 'v \<Rightarrow> unit storage_write" where
  "delete_own_leaf_nodes sj group_id =
     m_let (json_unwrap sj GroupIdT group_id) (\<lambda>key. delete_value CURRENT_VERSION OWN_LEAF_NODES_LABEL key)"

subsection \<open>Key material\<close>

definition write_signature_key_pair :: "'v Serde \<Rightarrow> 'v \<Rightarrow> 'v \<Rightarrow> unit storage_write" where
  "write_signature_key_pair sj public_key signature_key_pair =
     insert_row sj SIGNATURE_KEY_PAIR_LABEL SignaturePublicKeyT SignatureKeyPairT public_key signature_key_pair"

definition storage_signature_key_pair :: "'v Serde \<Rightarrow> 'v \<Rightarrow> 'v option storage_read" where
  "storage_signature_key_pair sj public_key =
     get_row sj SIGNATURE_KEY_PAIR_LABEL SignaturePublicKeyT SignatureKeyPairT public_key"

definition delete_signature_key_pair :: "'v Serde \<Rightarrow> 'v \<Rightarrow> unit storage_write" where
  "delete_signature_key_pair sj public_key =
     m_let (json_unwrap sj SignaturePublicKeyT public_key) (\<lambda>key. delete_value CURRENT_VERSION SIGNATURE_KEY_PAIR_LABEL key)"

text \<open>\<^verbatim>\<open>unwrap\<close> of the result of a mutator.\<close>

definition m_unwrap :: "('s, 'a, 'e) mutator \<Rightarrow> ('s, 'a, 'e) mutator" where
  "m_unwrap m s = (case m s of (Inl (Throws e), s') \<Rightarrow> (Inl Panics, s') | r \<Rightarrow> r)"

definition write_key_package :: "'v Serde \<Rightarrow> 'v \<Rightarrow> 'v \<Rightarrow> unit storage_write" where
  "write_key_package sj hash_ref key_package =
     m_let (json_unwrap sj HashReferenceT hash_ref) (\<lambda>key. m_let (json_unwrap sj KeyPackageT key_package) (\<lambda>value.
       m_unwrap (write_value CURRENT_VERSION KEY_PACKAGE_LABEL key value)))"

definition storage_key_package :: "'v Serde \<Rightarrow> 'v \<Rightarrow> 'v option storage_read" where
  "storage_key_package sj hash_ref st =
     and_then (json_unwrap sj HashReferenceT hash_ref) (\<lambda>key. read_value sj CURRENT_VERSION KeyPackageT KEY_PACKAGE_LABEL key st)"

definition delete_key_package :: "bool \<Rightarrow> 'v Serde \<Rightarrow> 'v \<Rightarrow> unit storage_write" where
  "delete_key_package virtual_clients sj hash_ref =
     m_then (if virtual_clients then
         m_let (json_try sj HashReferenceT hash_ref) (\<lambda>serialized_ref.
         m_then (delete_value CURRENT_VERSION RETAINED_KEY_PACKAGE_MATERIAL_LABEL serialized_ref) (\<lambda>_.
           delete_value CURRENT_VERSION RETAINED_KEY_PACKAGE_EPOCH_LABEL serialized_ref))
       else (\<lambda>st. (Inr (), st))) (\<lambda>_.
     m_let (json_try sj HashReferenceT hash_ref) (\<lambda>key. delete_value CURRENT_VERSION KEY_PACKAGE_LABEL key))"

definition write_psk :: "'v Serde \<Rightarrow> 'v \<Rightarrow> 'v \<Rightarrow> unit storage_write" where
  "write_psk sj psk_id psk_bundle =
     m_let (json_unwrap sj PskIdT psk_id) (\<lambda>key. m_let (json_unwrap sj PskBundleT psk_bundle) (\<lambda>value.
       write_value CURRENT_VERSION PSK_LABEL key value))"

definition storage_psk :: "'v Serde \<Rightarrow> 'v \<Rightarrow> 'v option storage_read" where
  "storage_psk sj psk_id st =
     and_then (json_unwrap sj PskIdT psk_id) (\<lambda>key. read_value sj CURRENT_VERSION PskBundleT PSK_LABEL key st)"

definition delete_psk :: "'v Serde \<Rightarrow> 'v \<Rightarrow> unit storage_write" where
  "delete_psk sj psk_id =
     m_let (json_try sj PskIdT psk_id) (\<lambda>key. delete_value CURRENT_VERSION PSK_LABEL key)"

definition write_encryption_key_pair :: "'v Serde \<Rightarrow> 'v \<Rightarrow> 'v \<Rightarrow> unit storage_write" where
  "write_encryption_key_pair sj public_key key_pair =
     m_let (json_unwrap sj EncryptionKeyT public_key) (\<lambda>key. m_let (json_unwrap sj HpkeKeyPairT key_pair) (\<lambda>value.
       write_value CURRENT_VERSION ENCRYPTION_KEY_PAIR_LABEL key value))"

definition storage_encryption_key_pair :: "'v Serde \<Rightarrow> 'v \<Rightarrow> 'v option storage_read" where
  "storage_encryption_key_pair sj public_key st =
     and_then (json_unwrap sj EncryptionKeyT public_key) (\<lambda>key. read_value sj CURRENT_VERSION HpkeKeyPairT ENCRYPTION_KEY_PAIR_LABEL key st)"

definition delete_encryption_key_pair :: "'v Serde \<Rightarrow> 'v \<Rightarrow> unit storage_write" where
  "delete_encryption_key_pair sj public_key =
     m_let (json_unwrap sj EncryptionKeyT public_key) (\<lambda>key. delete_value CURRENT_VERSION ENCRYPTION_KEY_PAIR_LABEL key)"

definition write_encryption_epoch_key_pairs ::
  "'v Serde \<Rightarrow> 'v \<Rightarrow> 'v \<Rightarrow> u32 \<Rightarrow> 'v list \<Rightarrow> unit storage_write" where
  "write_encryption_epoch_key_pairs sj group_id epoch leaf_index key_pairs =
     m_let (epoch_key_pairs_id sj group_id epoch leaf_index) (\<lambda>key.
     m_let (ok_or (to_vec_slice sj HpkeKeyPairT key_pairs) SerializationError) (\<lambda>value.
       write_value CURRENT_VERSION EPOCH_KEY_PAIRS_LABEL key value))"

definition encryption_epoch_key_pairs :: "'v Serde \<Rightarrow> 'v \<Rightarrow> 'v \<Rightarrow> u32 \<Rightarrow> 'v list storage_read" where
  "encryption_epoch_key_pairs sj group_id epoch leaf_index st =
     and_then (epoch_key_pairs_id sj group_id epoch leaf_index) (\<lambda>key.
       with_read (\<lambda>values.
         case hm_get values (build_key_from_vec CURRENT_VERSION EPOCH_KEY_PAIRS_LABEL key) of
           Some value \<Rightarrow> unwrap (from_slice_vec sj HpkeKeyPairT value)
         | None \<Rightarrow> Inr []) st)"

definition delete_encryption_epoch_key_pairs :: "'v Serde \<Rightarrow> 'v \<Rightarrow> 'v \<Rightarrow> u32 \<Rightarrow> unit storage_write" where
  "delete_encryption_epoch_key_pairs sj group_id epoch leaf_index =
     m_let (epoch_key_pairs_id sj group_id epoch leaf_index) (\<lambda>key.
       delete_value CURRENT_VERSION EPOCH_KEY_PAIRS_LABEL key)"

subsection \<open>Virtual clients\<close>

definition write_vc_derivation_epoch_state :: "'v Serde \<Rightarrow> 'v \<Rightarrow> 'v \<Rightarrow> unit storage_write" where
  "write_vc_derivation_epoch_state sj epoch_id vc_derivation_epoch_state =
     m_let (json_unwrap sj VcEpochIdT epoch_id) (\<lambda>key. m_let (json_unwrap sj VcDerivationEpochStateT vc_derivation_epoch_state) (\<lambda>value.
       write_value CURRENT_VERSION VC_DERIVATION_EPOCH_STATE_LABEL key value))"

definition storage_vc_derivation_epoch_state :: "'v Serde \<Rightarrow> 'v \<Rightarrow> 'v option storage_read" where
  "storage_vc_derivation_epoch_state sj epoch_id =
     get_row sj VC_DERIVATION_EPOCH_STATE_LABEL VcEpochIdT VcDerivationEpochStateT epoch_id"

definition write_vc_emulation_binding :: "'v Serde \<Rightarrow> 'v \<Rightarrow> 'v \<Rightarrow> 'v \<Rightarrow> 'v \<Rightarrow> unit storage_write" where
  "write_vc_emulation_binding sj group_id group_epoch epoch_id binding =
     m_let (json_try sj GroupIdT group_id) (\<lambda>g.
     m_let (json_try sj EpochKeyT group_epoch) (\<lambda>e.
     m_let (json_try sj VcEpochIdT epoch_id) (\<lambda>d.
     m_let (json_try sj VcEmulationBindingT binding) (\<lambda>b.
     m_let (epoch_tagged_value sj d b) (\<lambda>value.
       with_write (\<lambda>values.
         (Inr (), hm_insert (build_composite_key CURRENT_VERSION VC_EMULATION_BINDING_LABEL g e) value values)))))))"

definition vc_emulation_binding :: "'v Serde \<Rightarrow> 'v \<Rightarrow> 'v \<Rightarrow> 'v option storage_read" where
  "vc_emulation_binding sj group_id group_epoch st =
     and_then (json_try sj GroupIdT group_id) (\<lambda>g.
     and_then (json_try sj EpochKeyT group_epoch) (\<lambda>e.
       with_read (\<lambda>values.
         case hm_get values (build_composite_key CURRENT_VERSION VC_EMULATION_BINDING_LABEL g e) of
           None \<Rightarrow> Inr None
         | Some value \<Rightarrow>
             and_then (decode_epoch_tagged_value sj value) (\<lambda>(_, serialized_binding).
             and_then (ok_or (from_slice sj VcEmulationBindingT serialized_binding) SerializationError)
               (\<lambda>b. Inr (Some b)))) st))"

text \<open>The scan over all rows whose key starts with a prefix, decoding an epoch-tagged value each.\<close>

definition tagged_under_prefix ::
  "'v Serde \<Rightarrow> StorageType \<Rightarrow> bytes \<Rightarrow> (bytes, bytes) hash_map \<Rightarrow> ('v list, MemoryStorageError) outcome" where
  "tagged_under_prefix sj T pre values =
     o_map (\<lambda>(key, value).
         and_then (decode_epoch_tagged_value sj value) (\<lambda>(_, serialized).
           ok_or (from_slice sj T serialized) SerializationError))
       (filter (\<lambda>(key, value). prefix pre key) (hash_order sj values))"

definition vc_emulation_bindings :: "'v Serde \<Rightarrow> 'v \<Rightarrow> 'v list storage_read" where
  "vc_emulation_bindings sj group_id st =
     and_then (json_try sj GroupIdT group_id) (\<lambda>g.
       with_read (tagged_under_prefix sj VcEmulationBindingT (VC_EMULATION_BINDING_LABEL @ g)) st)"

definition delete_vc_emulation_bindings :: "'v Serde \<Rightarrow> 'v \<Rightarrow> 'v list \<Rightarrow> unit storage_write" where
  "delete_vc_emulation_bindings sj group_id group_epochs =
     m_let (json_try sj GroupIdT group_id) (\<lambda>serialized_group_id.
       with_write (m_for (\<lambda>group_epoch. m_let (json_try sj EpochKeyT group_epoch) (\<lambda>e values.
           (Inr (), hm_remove (build_composite_key CURRENT_VERSION VC_EMULATION_BINDING_LABEL serialized_group_id e) values)))
         group_epochs))"

definition delete_all_vc_emulation_bindings :: "'v Serde \<Rightarrow> 'v \<Rightarrow> unit storage_write" where
  "delete_all_vc_emulation_bindings sj group_id =
     m_let (json_try sj GroupIdT group_id) (\<lambda>g.
       with_write (\<lambda>values. (Inr (), hm_retain (\<lambda>key _. \<not> prefix (VC_EMULATION_BINDING_LABEL @ g) key) values)))"

definition write_vc_derivation_epoch_log_entry :: "'v Serde \<Rightarrow> 'v \<Rightarrow> 'v \<Rightarrow> 'v \<Rightarrow> unit storage_write" where
  "write_vc_derivation_epoch_log_entry sj group_id epoch_id entry =
     m_let (json_try sj VcEpochIdT epoch_id) (\<lambda>serialized_epoch_id.
     m_let (json_try sj GroupIdT group_id) (\<lambda>g.
     m_let (json_try sj VcDerivationEpochLogEntryT entry) (\<lambda>e.
     m_let (epoch_tagged_value sj serialized_epoch_id e) (\<lambda>value.
       with_write (\<lambda>values.
         (Inr (), hm_insert (build_composite_key CURRENT_VERSION VC_DERIVATION_EPOCH_LOG_ENTRY_LABEL g
             serialized_epoch_id) value values))))))"

definition vc_derivation_epoch_log_entries :: "'v Serde \<Rightarrow> 'v \<Rightarrow> 'v list storage_read" where
  "vc_derivation_epoch_log_entries sj group_id st =
     and_then (json_try sj GroupIdT group_id) (\<lambda>g.
       with_read (tagged_under_prefix sj VcDerivationEpochLogEntryT
         (VC_DERIVATION_EPOCH_LOG_ENTRY_LABEL @ g)) st)"

definition delete_vc_derivation_epoch_log_entries :: "'v Serde \<Rightarrow> 'v \<Rightarrow> 'v list \<Rightarrow> unit storage_write" where
  "delete_vc_derivation_epoch_log_entries sj group_id epoch_ids =
     m_let (json_try sj GroupIdT group_id) (\<lambda>serialized_group_id.
       with_write (m_for (\<lambda>epoch_id. m_let (json_try sj VcEpochIdT epoch_id) (\<lambda>e values.
           (Inr (), hm_remove (build_composite_key CURRENT_VERSION VC_DERIVATION_EPOCH_LOG_ENTRY_LABEL
             serialized_group_id e) values)))
         epoch_ids))"

definition delete_vc_derivation_epoch_log :: "'v Serde \<Rightarrow> 'v \<Rightarrow> unit storage_write" where
  "delete_vc_derivation_epoch_log sj group_id =
     m_let (json_try sj GroupIdT group_id) (\<lambda>g.
       with_write (\<lambda>values. (Inr (), hm_retain (\<lambda>key _. \<not> prefix (VC_DERIVATION_EPOCH_LOG_ENTRY_LABEL @ g) key) values)))"

definition write_vc_operation_tree :: "'v Serde \<Rightarrow> 'v \<Rightarrow> 'v \<Rightarrow> unit storage_write" where
  "write_vc_operation_tree sj epoch_id vc_operation_tree =
     m_let (json_unwrap sj VcEpochIdT epoch_id) (\<lambda>key. m_let (json_unwrap sj VcOperationTreeT vc_operation_tree) (\<lambda>value.
       write_value CURRENT_VERSION VC_OPERATION_TREE_LABEL key value))"

definition storage_vc_operation_tree :: "'v Serde \<Rightarrow> 'v \<Rightarrow> 'v option storage_read" where
  "storage_vc_operation_tree sj epoch_id =
     get_row sj VC_OPERATION_TREE_LABEL VcEpochIdT VcOperationTreeT epoch_id"

definition write_retained_key_package_material_batch ::
  "'v Serde \<Rightarrow> 'v \<Rightarrow> 'v \<Rightarrow> ('v \<times> 'v) list \<Rightarrow> unit storage_write" where
  "write_retained_key_package_material_batch sj epoch_id operation_tree materials =
     m_let (json_try sj VcEpochIdT epoch_id) (\<lambda>serialized_epoch_id.
       with_write
         (m_then (m_let (json_try sj VcOperationTreeT operation_tree) (\<lambda>t values.
            (Inr (), hm_insert (build_key_from_vec CURRENT_VERSION VC_OPERATION_TREE_LABEL serialized_epoch_id) t values))) (\<lambda>_.
          m_for (\<lambda>(hash_ref, material). m_let (json_try sj HashReferenceT hash_ref) (\<lambda>serialized_ref.
            m_let (json_try sj RetainedKeyPackageMaterialT material) (\<lambda>r values.
              (Inr (), hm_insert (build_key_from_vec CURRENT_VERSION RETAINED_KEY_PACKAGE_EPOCH_LABEL serialized_ref)
                 serialized_epoch_id
                 (hm_insert (build_key_from_vec CURRENT_VERSION RETAINED_KEY_PACKAGE_MATERIAL_LABEL serialized_ref)
                    r values))))) materials)))"

definition storage_retained_key_package_material :: "'v Serde \<Rightarrow> 'v \<Rightarrow> 'v option storage_read" where
  "storage_retained_key_package_material sj hash_ref =
     get_row sj RETAINED_KEY_PACKAGE_MATERIAL_LABEL HashReferenceT RetainedKeyPackageMaterialT hash_ref"

definition delete_retained_key_package_material :: "'v Serde \<Rightarrow> 'v \<Rightarrow> unit storage_write" where
  "delete_retained_key_package_material sj hash_ref =
     m_let (json_try sj HashReferenceT hash_ref) (\<lambda>serialized_ref.
     m_then (delete_value CURRENT_VERSION RETAINED_KEY_PACKAGE_MATERIAL_LABEL serialized_ref) (\<lambda>_.
       delete_value CURRENT_VERSION RETAINED_KEY_PACKAGE_EPOCH_LABEL serialized_ref))"

text \<open>The sweep of derivation epochs that nothing refers to any more.\<close>

definition any_entry_under_label :: "(bytes, bytes) hash_map \<Rightarrow> bytes \<Rightarrow> bytes \<Rightarrow> bool" where
  "any_entry_under_label values label serialized_value =
     list_ex (\<lambda>(key, value). prefix label key \<and> value = serialized_value) values"

fun any_tagged :: "'v Serde \<Rightarrow> bytes \<Rightarrow> bytes \<Rightarrow> (bytes \<times> bytes) list \<Rightarrow> (bool, MemoryStorageError) outcome" where
  "any_tagged sj label serialized_epoch_id [] = Inr False"
| "any_tagged sj label serialized_epoch_id ((key, value) # rest) =
     (if \<not> prefix label key then any_tagged sj label serialized_epoch_id rest
      else and_then (decode_epoch_tagged_value sj value) (\<lambda>(epoch_id, _).
        if epoch_id = serialized_epoch_id then Inr True
        else any_tagged sj label serialized_epoch_id rest))"

definition any_epoch_tagged_under_label ::
  "'v Serde \<Rightarrow> (bytes, bytes) hash_map \<Rightarrow> bytes \<Rightarrow> bytes \<Rightarrow> (bool, MemoryStorageError) outcome" where
  "any_epoch_tagged_under_label sj values label serialized_epoch_id =
     any_tagged sj label serialized_epoch_id (hash_order sj values)"

definition row_candidate :: "bytes \<Rightarrow> bytes \<Rightarrow> bytes list" where
  "row_candidate key label =
     (if prefix label key \<and> length key > length label + length (version_bytes CURRENT_VERSION)
      then [take (length key - length (version_bytes CURRENT_VERSION) - length label) (drop (length label) key)]
      else [])"

definition sweep_candidates :: "'v Serde \<Rightarrow> (bytes, bytes) hash_map \<Rightarrow> bytes list" where
  "sweep_candidates sj values =
     sort (remdups (concat (map (\<lambda>(key, _).
       concat (map (row_candidate key) [VC_DERIVATION_EPOCH_STATE_LABEL, VC_OPERATION_TREE_LABEL]))
       (hash_order sj values))))"

definition epoch_referenced :: "'v Serde \<Rightarrow> (bytes, bytes) hash_map \<Rightarrow> bytes \<Rightarrow> (bool, MemoryStorageError) outcome" where
  "epoch_referenced sj values serialized_epoch_id =
     (if any_entry_under_label values RETAINED_KEY_PACKAGE_EPOCH_LABEL serialized_epoch_id then Inr True
      else and_then (any_epoch_tagged_under_label sj values VC_DERIVATION_EPOCH_LOG_ENTRY_LABEL serialized_epoch_id)
        (\<lambda>logged. if logged then Inr True
          else any_epoch_tagged_under_label sj values VC_EMULATION_BINDING_LABEL serialized_epoch_id))"

fun sweep_epochs :: "'v Serde \<Rightarrow> bytes list \<Rightarrow> 'v list \<Rightarrow> ((bytes, bytes) hash_map, 'v list, MemoryStorageError) mutator" where
  "sweep_epochs sj [] deleted values = (Inr deleted, values)"
| "sweep_epochs sj (serialized_epoch_id # candidates) deleted values =
     m_let (epoch_referenced sj values serialized_epoch_id) (\<lambda>referenced values.
       if referenced then sweep_epochs sj candidates deleted values
       else m_let (ok_or (from_slice sj VcEpochIdT serialized_epoch_id) SerializationError)
         (\<lambda>epoch_id. sweep_epochs sj candidates (deleted @ [epoch_id]))
         (hm_remove (build_key_from_vec CURRENT_VERSION VC_OPERATION_TREE_LABEL serialized_epoch_id)
           (hm_remove (build_key_from_vec CURRENT_VERSION VC_DERIVATION_EPOCH_STATE_LABEL serialized_epoch_id)
             values))) values"

definition delete_unreferenced_vc_derivation_epoch_states :: "'v Serde \<Rightarrow> 'v list storage_write" where
  "delete_unreferenced_vc_derivation_epoch_states sj =
     with_write (\<lambda>values. sweep_epochs sj (sweep_candidates sj values) [] values)"

section \<open>What is relied on\<close>

text \<open>
  Documented behaviour of \<^verbatim>\<open>serde_json\<close> for the types the storage traits allow: serialization
  succeeds and is undone by deserialization (also at the type \<^verbatim>\<open>Option<T>\<close>, since no entity is
  serialized as \<^verbatim>\<open>null\<close>), no value has an empty serialization, \<^verbatim>\<open>[]\<close> is the empty list, and a
  group id, a JSON object, ends where its closing brace is.
\<close>

definition serde_ok :: "'v Serde \<Rightarrow> bool" where
  "serde_ok sj \<longleftrightarrow>
     (\<forall>T v. \<exists>b. to_vec sj T v = Some b \<and> b \<noteq> [] \<and> from_slice sj T b = Some v \<and>
        from_slice_option sj T b = Some (Some v)) \<and>
     (\<forall>p. to_vec_pair sj (GroupIdT, ProposalRefT) p \<noteq> None) \<and>
     (\<forall>p q. to_vec_pair sj (GroupIdT, ProposalRefT) p = to_vec_pair sj (GroupIdT, ProposalRefT) q \<longrightarrow> p = q) \<and>
     (\<forall>T vs. \<exists>b. to_vec_slice sj T vs = Some b \<and> from_slice_vec sj T b = Some vs) \<and>
     (\<forall>n. to_vec_u32 sj n \<noteq> None) \<and>
     (\<forall>l. \<exists>b. to_writer_list sj l = (b, True) \<and> from_slice_list sj b = Some l) \<and>
     from_slice_list sj (str_bytes ''[]'') = Some [] \<and>
     (\<forall>p. \<exists>b. to_vec_tagged sj p = Some b \<and> from_slice_tagged sj b = Some p) \<and>
     (\<forall>g g' b b'. to_vec sj GroupIdT g = Some b \<longrightarrow> to_vec sj GroupIdT g' = Some b' \<longrightarrow> prefix b b' \<longrightarrow> g = g') \<and>
     iteration_order (hash_order sj)"

definition enc :: "'v Serde \<Rightarrow> StorageType \<Rightarrow> 'v \<Rightarrow> bytes" where
  "enc sj T v = the (to_vec sj T v)"

definition enc_pair :: "'v Serde \<Rightarrow> 'v \<Rightarrow> 'v \<Rightarrow> bytes" where
  "enc_pair sj g r = the (to_vec_pair sj (GroupIdT, ProposalRefT) (g, r))"

definition enc_tagged :: "'v Serde \<Rightarrow> bytes \<Rightarrow> bytes \<Rightarrow> bytes" where
  "enc_tagged sj d b = the (to_vec_tagged sj (d, b))"

definition enc_epoch :: "'v Serde \<Rightarrow> 'v \<Rightarrow> 'v \<Rightarrow> u32 \<Rightarrow> bytes" where
  "enc_epoch sj g e i = enc sj GroupIdT g @ enc sj EpochKeyT e @ the (to_vec_u32 sj i)"

lemma serde_enc:
  assumes "serde_ok sj"
  shows "to_vec sj T v = Some (enc sj T v)" "enc sj T v \<noteq> []" "from_slice sj T (enc sj T v) = Some v"
    "from_slice_option sj T (enc sj T v) = Some (Some v)"
proof -
  obtain b where "to_vec sj T v = Some b" "b \<noteq> []" "from_slice sj T b = Some v" "from_slice_option sj T b = Some (Some v)"
    using assms unfolding serde_ok_def by blast
  then show "to_vec sj T v = Some (enc sj T v)" "enc sj T v \<noteq> []" "from_slice sj T (enc sj T v) = Some v"
    "from_slice_option sj T (enc sj T v) = Some (Some v)" by (simp_all add: enc_def)
qed

lemma enc_inj: "serde_ok sj \<Longrightarrow> enc sj T v = enc sj T w \<longleftrightarrow> v = w"
  using serde_enc(3) [of sj T v] serde_enc(3) [of sj T w] by (metis option.inject)

lemma serde_pair:
  assumes "serde_ok sj"
  shows "to_vec_pair sj (GroupIdT, ProposalRefT) (g, r) = Some (enc_pair sj g r)"
    "enc_pair sj g r = enc_pair sj g' r' \<longleftrightarrow> g = g' \<and> r = r'"
proof -
  have tot: "to_vec_pair sj (GroupIdT, ProposalRefT) (x, y) = Some (enc_pair sj x y)" for x y
  proof -
    have "to_vec_pair sj (GroupIdT, ProposalRefT) (x, y) \<noteq> None"
      using assms unfolding serde_ok_def by (elim conjE) (erule allE)
    then show ?thesis by (auto simp: enc_pair_def)
  qed
  then show "to_vec_pair sj (GroupIdT, ProposalRefT) (g, r) = Some (enc_pair sj g r)" .
  have "to_vec_pair sj (GroupIdT, ProposalRefT) p = to_vec_pair sj (GroupIdT, ProposalRefT) q \<Longrightarrow> p = q" for p q
    using assms unfolding serde_ok_def by blast
  from this [of "(g, r)" "(g', r')"] show "enc_pair sj g r = enc_pair sj g' r' \<longleftrightarrow> g = g' \<and> r = r'"
    using tot by auto
qed

lemma serde_tagged:
  assumes "serde_ok sj"
  shows "to_vec_tagged sj (d, b) = Some (enc_tagged sj d b)" "from_slice_tagged sj (enc_tagged sj d b) = Some (d, b)"
proof -
  obtain c where "to_vec_tagged sj (d, b) = Some c" "from_slice_tagged sj c = Some (d, b)"
    using assms unfolding serde_ok_def by blast
  then show "to_vec_tagged sj (d, b) = Some (enc_tagged sj d b)" "from_slice_tagged sj (enc_tagged sj d b) = Some (d, b)"
    by (simp_all add: enc_tagged_def)
qed

lemma serde_list:
  assumes "serde_ok sj"
  obtains b where "to_writer_list sj l = (b, True)" "from_slice_list sj b = Some l"
  using assms unfolding serde_ok_def by blast

lemma serde_empty_list: "serde_ok sj \<Longrightarrow> from_slice_list sj (str_bytes ''[]'') = Some []"
  unfolding serde_ok_def by blast

lemma serde_slice:
  assumes "serde_ok sj"
  obtains b where "to_vec_slice sj T vs = Some b" "from_slice_vec sj T b = Some vs"
  using assms unfolding serde_ok_def by blast

lemma serde_order: "serde_ok sj \<Longrightarrow> iteration_order (hash_order sj)"
  unfolding serde_ok_def by blast

lemma serde_epoch: "serde_ok sj \<Longrightarrow> epoch_key_pairs_id sj g e i = Inr (enc_epoch sj g e i)"
proof -
  assume ok: "serde_ok sj"
  then have "to_vec_u32 sj i \<noteq> None" unfolding serde_ok_def by (elim conjE) (rule allE)
  then show ?thesis by (auto simp: epoch_key_pairs_id_def enc_epoch_def json_try_def serde_enc(1) [OF ok])
qed

lemma group_id_delimited:
  assumes ok: "serde_ok sj" and "prefix (enc sj GroupIdT g) (enc sj GroupIdT g' @ x)"
  shows "g = g'"
proof -
  have pre: "prefix (enc sj GroupIdT a) (enc sj GroupIdT b) \<Longrightarrow> a = b" for a b
    using ok serde_enc(1) [OF ok] unfolding serde_ok_def by blast
  from assms(2) consider "prefix (enc sj GroupIdT g) (enc sj GroupIdT g')" | "prefix (enc sj GroupIdT g') (enc sj GroupIdT g)"
    by (metis prefix_append prefix_def)
  then show ?thesis using pre by cases blast+
qed

lemma composite_inj:
  "serde_ok sj \<Longrightarrow> enc sj GroupIdT g @ enc sj T e = enc sj GroupIdT g' @ enc sj T e' \<longleftrightarrow> g = g' \<and> e = e'"
  using group_id_delimited [of sj g g' "enc sj T e'"] enc_inj [of sj T e e'] by (metis prefixI same_append_eq)

lemma json_simps [simp]:
  assumes "serde_ok sj"
  shows "json_try sj T v = Inr (enc sj T v)" "json_unwrap sj T v = Inr (enc sj T v)"
    "json_pair sj g r = Inr (enc_pair sj g r)" "epoch_tagged_value sj d b = Inr (enc_tagged sj d b)"
    "decode_epoch_tagged_value sj (enc_tagged sj d b) = Inr (d, b)"
  using serde_enc [OF assms] serde_pair [OF assms] serde_tagged [OF assms]
  by (simp_all add: json_try_def json_unwrap_def json_pair_def epoch_tagged_value_def decode_epoch_tagged_value_def)

section \<open>Rows\<close>

text \<open>No label is a prefix of another one, so rows of different kinds never share a key.\<close>

lemma labels_prefix_free: "list_all (\<lambda>l. list_all (\<lambda>l'. prefix l l' \<longrightarrow> l = l') all_labels) all_labels"
  by code_simp

lemma labels_distinct: "distinct all_labels"
  by code_simp

lemma label_prefix: "l \<in> set all_labels \<Longrightarrow> l' \<in> set all_labels \<Longrightarrow> prefix l (l' @ k) \<Longrightarrow> l = l'"
  using labels_prefix_free unfolding list_all_iff by (metis prefix_append prefix_def)

lemmas label_neq [simp] =
  labels_distinct [unfolded all_labels_def, simplified]
  labels_distinct [folded distinct_rev [of all_labels], unfolded all_labels_def, simplified]

lemma label_mem [simp]:
  "KEY_PACKAGE_LABEL \<in> set all_labels" "PSK_LABEL \<in> set all_labels" "ENCRYPTION_KEY_PAIR_LABEL \<in> set all_labels"
  "SIGNATURE_KEY_PAIR_LABEL \<in> set all_labels" "EPOCH_KEY_PAIRS_LABEL \<in> set all_labels" "TREE_LABEL \<in> set all_labels"
  "GROUP_CONTEXT_LABEL \<in> set all_labels" "APPLICATION_EXPORT_TREE_LABEL \<in> set all_labels"
  "VC_DERIVATION_EPOCH_STATE_LABEL \<in> set all_labels" "VC_EMULATION_BINDING_LABEL \<in> set all_labels"
  "VC_DERIVATION_EPOCH_LOG_ENTRY_LABEL \<in> set all_labels" "VC_OPERATION_TREE_LABEL \<in> set all_labels"
  "RETAINED_KEY_PACKAGE_MATERIAL_LABEL \<in> set all_labels" "RETAINED_KEY_PACKAGE_EPOCH_LABEL \<in> set all_labels"
  "INTERIM_TRANSCRIPT_HASH_LABEL \<in> set all_labels" "CONFIRMATION_TAG_LABEL \<in> set all_labels"
  "JOIN_CONFIG_LABEL \<in> set all_labels" "OWN_LEAF_NODES_LABEL \<in> set all_labels" "GROUP_STATE_LABEL \<in> set all_labels"
  "QUEUED_PROPOSAL_LABEL \<in> set all_labels" "PROPOSAL_QUEUE_REFS_LABEL \<in> set all_labels"
  "OWN_LEAF_NODE_INDEX_LABEL \<in> set all_labels" "EPOCH_SECRETS_LABEL \<in> set all_labels"
  "RESUMPTION_PSK_STORE_LABEL \<in> set all_labels" "MESSAGE_SECRETS_LABEL \<in> set all_labels"
  by (simp_all add: all_labels_def)

abbreviation row_key :: "bytes \<Rightarrow> bytes \<Rightarrow> bytes" where
  "row_key \<equiv> build_key_from_vec CURRENT_VERSION"

lemma row_key_eqs:
  "build_composite_key CURRENT_VERSION l a b = row_key l (a @ b)"
  "l @ k @ version_bytes CURRENT_VERSION = row_key l k"
  by (simp_all add: build_composite_key_def build_key_from_vec_def)

lemma build_key_ok [simp]: "serde_ok sj \<Longrightarrow> build_key sj CURRENT_VERSION l T k = Inr (row_key l (enc sj T k))"
  by (simp add: build_key_def)

lemma row_key_inj:
  assumes "l \<in> set all_labels" "l' \<in> set all_labels"
  shows "row_key l k = row_key l' k' \<longleftrightarrow> l = l' \<and> k = k'"
proof
  assume eq: "row_key l k = row_key l' k'"
  then have "prefix l (l' @ k' @ version_bytes CURRENT_VERSION)"
    unfolding build_key_from_vec_def by (metis prefixI)
  then have "l = l'" using label_prefix assms by blast
  then show "l = l' \<and> k = k'" using eq by (simp add: build_key_from_vec_def)
qed simp

text \<open>The rows of a store, by label and serialized key.\<close>

definition row :: "(bytes, bytes) hash_map \<Rightarrow> bytes \<Rightarrow> bytes \<Rightarrow> bytes option" where
  "row values l k = (if l \<in> set all_labels then hm_get values (row_key l k) else None)"

lemma row_get: "l \<in> set all_labels \<Longrightarrow> hm_get values (row_key l k) = row values l k"
  by (simp add: row_def)

lemma row_insert:
  "hm_ok values \<Longrightarrow> l \<in> set all_labels \<Longrightarrow>
     row (hm_insert (row_key l k) v values) = (row values)(l := (row values l)(k \<mapsto> v))"
  by (auto simp: row_def hm.get_ins row_key_inj fun_eq_iff)

lemma row_remove:
  "hm_ok values \<Longrightarrow> l \<in> set all_labels \<Longrightarrow>
     row (hm_remove (row_key l k) values) = (row values)(l := (row values l)(k := None))"
  by (auto simp: row_def hm.get_del row_key_inj fun_eq_iff)

text \<open>Every key of the store is the key of a row; then a scan by prefix finds the rows of a label.\<close>

definition known_keys :: "(bytes, bytes) hash_map \<Rightarrow> bool" where
  "known_keys values \<longleftrightarrow> (\<forall>key v. hm_get values key = Some v \<longrightarrow> (\<exists>l \<in> set all_labels. \<exists>k. key = row_key l k))"

definition store_ok :: "(bytes, bytes) hash_map \<Rightarrow> bool" where
  "store_ok values \<longleftrightarrow> hm_ok values \<and> known_keys values"

lemma store_ok_insert: "store_ok values \<Longrightarrow> l \<in> set all_labels \<Longrightarrow> store_ok (hm_insert (row_key l k) v values)"
  by (auto simp: store_ok_def known_keys_def hm.ok_ins hm.get_ins)

lemma store_ok_remove: "store_ok values \<Longrightarrow> store_ok (hm_remove key values)"
  by (auto simp: store_ok_def known_keys_def hm.ok_del hm.get_del)

lemma store_ok_retain: "store_ok values \<Longrightarrow> store_ok (hm_retain P values)"
  by (auto simp: store_ok_def known_keys_def hm.ok_keep hm.get_keep split: option.splits)

lemma store_ok_new: "store_ok hm_new" "row hm_new = (\<lambda>_ _. None)"
  by (auto simp: store_ok_def known_keys_def hm_new_def hm_ok_def hm_get_def row_def fun_eq_iff)


lemma prefix_row_key:
  assumes "store_ok values" "l \<in> set all_labels" "(key, v) \<in> set values" "prefix (l @ p) key"
  obtains k where "key = row_key l k" "row values l k = Some v" "prefix p (k @ version_bytes CURRENT_VERSION)"
proof -
  have get: "hm_get values key = Some v" using assms(1,3) by (simp add: store_ok_def hm_in_get)
  then obtain l' k where l': "l' \<in> set all_labels" "key = row_key l' k"
    using assms(1) unfolding store_ok_def known_keys_def by blast
  have pre: "prefix (l @ p) (l' @ k @ version_bytes CURRENT_VERSION)"
    using assms(4) l'(2) by (simp add: build_key_from_vec_def)
  then have "l = l'" using label_prefix [OF assms(2) l'(1)] append_prefixD by blast
  then show ?thesis using that [of k] get l' pre assms(2) by (simp add: row_def)
qed

lemma row_in_values: "store_ok values \<Longrightarrow> row values l k = Some v \<Longrightarrow> (row_key l k, v) \<in> set values"
  by (auto simp: row_def store_ok_def hm_in_get split: if_splits)

end
