(* ===== verification/StorageSpec.thy ===== *)
theory StorageSpec
  imports MemoryStorage
begin

text \<open>
  The contract of a storage provider (\<^verbatim>\<open>traits/src/storage.rs\<close>): all calls of the provider as one
  step function over the in-memory store, and the abstract store with one map per kind of data
  that says what every call returns.
\<close>

section \<open>The contract of a storage provider\<close>

text \<open>
  The entities that are stored one by one under a key, with the operations of each.  The last
  two have no deletion of their own: only the sweep removes them.
\<close>

datatype Entity =
    TreeE | InterimTranscriptHashE | GroupContextE | ConfirmationTagE | GroupStateE | MessageSecretsE
  | ResumptionPskStoreE | OwnLeafIndexE | GroupEpochSecretsE | JoinConfigE | ApplicationExportTreeE
  | SignatureKeyPairE | KeyPackageE | PskE | EncryptionKeyPairE

datatype Row = Entity Entity | DerivationEpochStateRow | OperationTreeRow

fun entity_label :: "Entity \<Rightarrow> bytes" where
  "entity_label TreeE = TREE_LABEL"
| "entity_label InterimTranscriptHashE = INTERIM_TRANSCRIPT_HASH_LABEL"
| "entity_label GroupContextE = GROUP_CONTEXT_LABEL"
| "entity_label ConfirmationTagE = CONFIRMATION_TAG_LABEL"
| "entity_label GroupStateE = GROUP_STATE_LABEL"
| "entity_label MessageSecretsE = MESSAGE_SECRETS_LABEL"
| "entity_label ResumptionPskStoreE = RESUMPTION_PSK_STORE_LABEL"
| "entity_label OwnLeafIndexE = OWN_LEAF_NODE_INDEX_LABEL"
| "entity_label GroupEpochSecretsE = EPOCH_SECRETS_LABEL"
| "entity_label JoinConfigE = JOIN_CONFIG_LABEL"
| "entity_label ApplicationExportTreeE = APPLICATION_EXPORT_TREE_LABEL"
| "entity_label SignatureKeyPairE = SIGNATURE_KEY_PAIR_LABEL"
| "entity_label KeyPackageE = KEY_PACKAGE_LABEL"
| "entity_label PskE = PSK_LABEL"
| "entity_label EncryptionKeyPairE = ENCRYPTION_KEY_PAIR_LABEL"

fun row_label :: "Row \<Rightarrow> bytes" where
  "row_label (Entity E) = entity_label E"
| "row_label DerivationEpochStateRow = VC_DERIVATION_EPOCH_STATE_LABEL"
| "row_label OperationTreeRow = VC_OPERATION_TREE_LABEL"

fun key_type :: "Row \<Rightarrow> StorageType" where
  "key_type (Entity SignatureKeyPairE) = SignaturePublicKeyT"
| "key_type (Entity KeyPackageE) = HashReferenceT"
| "key_type (Entity PskE) = PskIdT"
| "key_type (Entity EncryptionKeyPairE) = EncryptionKeyT"
| "key_type (Entity _) = GroupIdT"
| "key_type _ = VcEpochIdT"

fun value_type :: "Row \<Rightarrow> StorageType" where
  "value_type (Entity TreeE) = TreeSyncT"
| "value_type (Entity InterimTranscriptHashE) = InterimTranscriptHashT"
| "value_type (Entity GroupContextE) = GroupContextT"
| "value_type (Entity ConfirmationTagE) = ConfirmationTagT"
| "value_type (Entity GroupStateE) = GroupStateT"
| "value_type (Entity MessageSecretsE) = MessageSecretsT"
| "value_type (Entity ResumptionPskStoreE) = ResumptionPskStoreT"
| "value_type (Entity OwnLeafIndexE) = LeafNodeIndexT"
| "value_type (Entity GroupEpochSecretsE) = GroupEpochSecretsT"
| "value_type (Entity JoinConfigE) = MlsGroupJoinConfigT"
| "value_type (Entity ApplicationExportTreeE) = ApplicationExportTreeT"
| "value_type (Entity SignatureKeyPairE) = SignatureKeyPairT"
| "value_type (Entity KeyPackageE) = KeyPackageT"
| "value_type (Entity PskE) = PskBundleT"
| "value_type (Entity EncryptionKeyPairE) = HpkeKeyPairT"
| "value_type DerivationEpochStateRow = VcDerivationEpochStateT"
| "value_type OperationTreeRow = VcOperationTreeT"

fun write_entity :: "Row \<Rightarrow> 'v Serde \<Rightarrow> 'v \<Rightarrow> 'v \<Rightarrow> unit storage_write" where
  "write_entity (Entity TreeE) = write_tree"
| "write_entity (Entity InterimTranscriptHashE) = write_interim_transcript_hash"
| "write_entity (Entity GroupContextE) = write_context"
| "write_entity (Entity ConfirmationTagE) = write_confirmation_tag"
| "write_entity (Entity GroupStateE) = write_group_state"
| "write_entity (Entity MessageSecretsE) = write_message_secrets"
| "write_entity (Entity ResumptionPskStoreE) = write_resumption_psk_store"
| "write_entity (Entity OwnLeafIndexE) = write_own_leaf_index"
| "write_entity (Entity GroupEpochSecretsE) = write_group_epoch_secrets"
| "write_entity (Entity JoinConfigE) = write_mls_join_config"
| "write_entity (Entity ApplicationExportTreeE) = write_application_export_tree"
| "write_entity (Entity SignatureKeyPairE) = write_signature_key_pair"
| "write_entity (Entity KeyPackageE) = write_key_package"
| "write_entity (Entity PskE) = write_psk"
| "write_entity (Entity EncryptionKeyPairE) = write_encryption_key_pair"
| "write_entity DerivationEpochStateRow = write_vc_derivation_epoch_state"
| "write_entity OperationTreeRow = write_vc_operation_tree"

fun read_entity :: "Row \<Rightarrow> 'v Serde \<Rightarrow> 'v \<Rightarrow> 'v option storage_read" where
  "read_entity (Entity TreeE) = storage_tree"
| "read_entity (Entity InterimTranscriptHashE) = storage_interim_transcript_hash"
| "read_entity (Entity GroupContextE) = storage_group_context"
| "read_entity (Entity ConfirmationTagE) = storage_confirmation_tag"
| "read_entity (Entity GroupStateE) = storage_group_state"
| "read_entity (Entity MessageSecretsE) = storage_message_secrets"
| "read_entity (Entity ResumptionPskStoreE) = storage_resumption_psk_store"
| "read_entity (Entity OwnLeafIndexE) = storage_own_leaf_index"
| "read_entity (Entity GroupEpochSecretsE) = storage_group_epoch_secrets"
| "read_entity (Entity JoinConfigE) = storage_mls_group_join_config"
| "read_entity (Entity ApplicationExportTreeE) = storage_application_export_tree"
| "read_entity (Entity SignatureKeyPairE) = storage_signature_key_pair"
| "read_entity (Entity KeyPackageE) = storage_key_package"
| "read_entity (Entity PskE) = storage_psk"
| "read_entity (Entity EncryptionKeyPairE) = storage_encryption_key_pair"
| "read_entity DerivationEpochStateRow = storage_vc_derivation_epoch_state"
| "read_entity OperationTreeRow = storage_vc_operation_tree"

fun delete_entity :: "bool \<Rightarrow> Entity \<Rightarrow> 'v Serde \<Rightarrow> 'v \<Rightarrow> unit storage_write" where
  "delete_entity vc TreeE = delete_tree"
| "delete_entity vc InterimTranscriptHashE = delete_interim_transcript_hash"
| "delete_entity vc GroupContextE = delete_context"
| "delete_entity vc ConfirmationTagE = delete_confirmation_tag"
| "delete_entity vc GroupStateE = delete_group_state"
| "delete_entity vc MessageSecretsE = delete_message_secrets"
| "delete_entity vc ResumptionPskStoreE = delete_all_resumption_psk_secrets"
| "delete_entity vc OwnLeafIndexE = delete_own_leaf_index"
| "delete_entity vc GroupEpochSecretsE = delete_group_epoch_secrets"
| "delete_entity vc JoinConfigE = delete_group_config"
| "delete_entity vc ApplicationExportTreeE = delete_application_export_tree"
| "delete_entity vc SignatureKeyPairE = delete_signature_key_pair"
| "delete_entity vc KeyPackageE = delete_key_package vc"
| "delete_entity vc PskE = delete_psk"
| "delete_entity vc EncryptionKeyPairE = delete_encryption_key_pair"

text \<open>All calls of the storage provider, and their results.\<close>

datatype 'v StorageOp =
    WriteEntity Row 'v 'v | ReadEntity Row 'v | DeleteEntity Entity 'v
  | QueueProposal 'v 'v 'v | QueuedProposalRefs 'v | QueuedProposals 'v | RemoveProposal 'v 'v | ClearProposalQueue 'v
  | OwnLeafNodes 'v | AppendOwnLeafNode 'v 'v | DeleteOwnLeafNodes 'v
  | WriteEpochKeyPairs 'v 'v u32 "'v list" | EpochKeyPairs 'v 'v u32 | DeleteEpochKeyPairs 'v 'v u32
  | WriteBinding 'v 'v 'v 'v | ReadBinding 'v 'v | Bindings 'v | DeleteBindings 'v "'v list" | DeleteAllBindings 'v
  | WriteLogEntry 'v 'v 'v | LogEntries 'v | DeleteLogEntries 'v "'v list" | DeleteLog 'v
  | WriteRetainedBatch 'v 'v "('v \<times> 'v) list" | RetainedMaterial 'v | DeleteRetained 'v
  | SweepEpochs

datatype 'v StorageResult = Done | Found "'v option" | Items "'v list" | Queue "('v \<times> 'v) list"

definition m_map :: "('a \<Rightarrow> 'b) \<Rightarrow> ('s, 'a, 'e) mutator \<Rightarrow> ('s, 'b, 'e) mutator" where
  "m_map f m = m_then m (\<lambda>x s. (Inr (f x), s))"

abbreviation m_done :: "unit storage_write \<Rightarrow> 'v StorageResult storage_write" where
  "m_done \<equiv> m_map (\<lambda>_. Done)"

fun storage_step :: "bool \<Rightarrow> 'v Serde \<Rightarrow> 'v StorageOp \<Rightarrow> 'v StorageResult storage_write" where
  "storage_step vc sj (WriteEntity R k v) = m_done (write_entity R sj k v)"
| "storage_step vc sj (ReadEntity R k) = m_map Found (m_get (read_entity R sj k))"
| "storage_step vc sj (DeleteEntity E k) = m_done (delete_entity vc E sj k)"
| "storage_step vc sj (QueueProposal g r p) = m_done (queue_proposal sj g r p)"
| "storage_step vc sj (QueuedProposalRefs g) = m_map Items (m_get (queued_proposal_refs sj g))"
| "storage_step vc sj (QueuedProposals g) = m_map Queue (m_get (queued_proposals sj g))"
| "storage_step vc sj (RemoveProposal g r) = m_done (remove_proposal sj g r)"
| "storage_step vc sj (ClearProposalQueue g) = m_done (clear_proposal_queue sj g)"
| "storage_step vc sj (OwnLeafNodes g) = m_map Items (m_get (own_leaf_nodes sj g))"
| "storage_step vc sj (AppendOwnLeafNode g n) = m_done (append_own_leaf_node sj g n)"
| "storage_step vc sj (DeleteOwnLeafNodes g) = m_done (delete_own_leaf_nodes sj g)"
| "storage_step vc sj (WriteEpochKeyPairs g e i ks) = m_done (write_encryption_epoch_key_pairs sj g e i ks)"
| "storage_step vc sj (EpochKeyPairs g e i) = m_map Items (m_get (encryption_epoch_key_pairs sj g e i))"
| "storage_step vc sj (DeleteEpochKeyPairs g e i) = m_done (delete_encryption_epoch_key_pairs sj g e i)"
| "storage_step vc sj (WriteBinding g e d b) = m_done (write_vc_emulation_binding sj g e d b)"
| "storage_step vc sj (ReadBinding g e) = m_map Found (m_get (vc_emulation_binding sj g e))"
| "storage_step vc sj (Bindings g) = m_map Items (m_get (vc_emulation_bindings sj g))"
| "storage_step vc sj (DeleteBindings g es) = m_done (delete_vc_emulation_bindings sj g es)"
| "storage_step vc sj (DeleteAllBindings g) = m_done (delete_all_vc_emulation_bindings sj g)"
| "storage_step vc sj (WriteLogEntry g d x) = m_done (write_vc_derivation_epoch_log_entry sj g d x)"
| "storage_step vc sj (LogEntries g) = m_map Items (m_get (vc_derivation_epoch_log_entries sj g))"
| "storage_step vc sj (DeleteLogEntries g ds) = m_done (delete_vc_derivation_epoch_log_entries sj g ds)"
| "storage_step vc sj (DeleteLog g) = m_done (delete_vc_derivation_epoch_log sj g)"
| "storage_step vc sj (WriteRetainedBatch d t ms) = m_done (write_retained_key_package_material_batch sj d t ms)"
| "storage_step vc sj (RetainedMaterial h) = m_map Found (m_get (storage_retained_key_package_material sj h))"
| "storage_step vc sj (DeleteRetained h) = m_done (delete_retained_key_package_material sj h)"
| "storage_step vc sj SweepEpochs = m_map Items (delete_unreferenced_vc_derivation_epoch_states sj)"

text \<open>
  The abstract store: one map per kind of data.  Epoch key pairs are indexed by the text that
  \<open>epoch_key_pairs_id\<close> builds, because different epochs and leaves can share it.
\<close>

record 'v StorageSpec =
  sp_rows :: "Row \<times> 'v \<Rightarrow> 'v option"
  sp_queue :: "'v \<Rightarrow> 'v list"
  sp_proposals :: "'v \<times> 'v \<Rightarrow> 'v option"
  sp_leaves :: "'v \<Rightarrow> 'v list"
  sp_epoch_keys :: "bytes \<Rightarrow> 'v list"
  sp_bindings :: "'v \<times> 'v \<Rightarrow> ('v \<times> 'v) option"
  sp_log :: "'v \<times> 'v \<Rightarrow> 'v option"
  sp_retained :: "'v \<Rightarrow> ('v \<times> 'v) option"

definition spec_empty :: "'v StorageSpec" where
  "spec_empty = \<lparr>sp_rows = \<lambda>_. None, sp_queue = \<lambda>_. [], sp_proposals = \<lambda>_. None, sp_leaves = \<lambda>_. [],
     sp_epoch_keys = \<lambda>_. [], sp_bindings = \<lambda>_. None, sp_log = \<lambda>_. None, sp_retained = \<lambda>_. None\<rparr>"

text \<open>
  A derivation epoch is referenced by retained key package material, by a log entry or by an
  emulation binding; the sweep removes the state and the operation tree of the others.
\<close>

definition spec_referenced :: "'v StorageSpec \<Rightarrow> 'v \<Rightarrow> bool" where
  "spec_referenced sp d \<longleftrightarrow> (\<exists>h m. sp_retained sp h = Some (m, d)) \<or> (\<exists>g x. sp_log sp (g, d) = Some x) \<or>
     (\<exists>g e b. sp_bindings sp (g, e) = Some (d, b))"

definition spec_unreferenced :: "'v StorageSpec \<Rightarrow> 'v set" where
  "spec_unreferenced sp = {d. (sp_rows sp (DerivationEpochStateRow, d) \<noteq> None \<or> sp_rows sp (OperationTreeRow, d) \<noteq> None) \<and>
     \<not> spec_referenced sp d}"

fun spec_next :: "bool \<Rightarrow> 'v Serde \<Rightarrow> 'v StorageOp \<Rightarrow> 'v StorageSpec \<Rightarrow> 'v StorageSpec" where
  "spec_next vc sj (WriteEntity R k v) sp = sp\<lparr>sp_rows := (sp_rows sp)((R, k) \<mapsto> v)\<rparr>"
| "spec_next vc sj (DeleteEntity E k) sp = sp\<lparr>sp_rows := (sp_rows sp)((Entity E, k) := None),
     sp_retained := if vc \<and> E = KeyPackageE then (sp_retained sp)(k := None) else sp_retained sp\<rparr>"
| "spec_next vc sj (QueueProposal g r p) sp = sp\<lparr>sp_queue := (sp_queue sp)(g := sp_queue sp g @ [r]),
     sp_proposals := (sp_proposals sp)((g, r) \<mapsto> p)\<rparr>"
| "spec_next vc sj (RemoveProposal g r) sp = sp\<lparr>sp_queue := (sp_queue sp)(g := remove1 r (sp_queue sp g)),
     sp_proposals := (sp_proposals sp)((g, r) := None)\<rparr>"
| "spec_next vc sj (ClearProposalQueue g) sp = sp\<lparr>sp_queue := (sp_queue sp)(g := []),
     sp_proposals := (\<lambda>(g', r). if g' = g \<and> r \<in> set (sp_queue sp g) then None else sp_proposals sp (g', r))\<rparr>"
| "spec_next vc sj (AppendOwnLeafNode g n) sp = sp\<lparr>sp_leaves := (sp_leaves sp)(g := sp_leaves sp g @ [n])\<rparr>"
| "spec_next vc sj (DeleteOwnLeafNodes g) sp = sp\<lparr>sp_leaves := (sp_leaves sp)(g := [])\<rparr>"
| "spec_next vc sj (WriteEpochKeyPairs g e i ks) sp =
     sp\<lparr>sp_epoch_keys := (sp_epoch_keys sp)(enc_epoch sj g e i := ks)\<rparr>"
| "spec_next vc sj (DeleteEpochKeyPairs g e i) sp =
     sp\<lparr>sp_epoch_keys := (sp_epoch_keys sp)(enc_epoch sj g e i := [])\<rparr>"
| "spec_next vc sj (WriteBinding g e d b) sp = sp\<lparr>sp_bindings := (sp_bindings sp)((g, e) \<mapsto> (d, b))\<rparr>"
| "spec_next vc sj (DeleteBindings g es) sp =
     sp\<lparr>sp_bindings := (\<lambda>(g', e). if g' = g \<and> e \<in> set es then None else sp_bindings sp (g', e))\<rparr>"
| "spec_next vc sj (DeleteAllBindings g) sp =
     sp\<lparr>sp_bindings := (\<lambda>(g', e). if g' = g then None else sp_bindings sp (g', e))\<rparr>"
| "spec_next vc sj (WriteLogEntry g d x) sp = sp\<lparr>sp_log := (sp_log sp)((g, d) \<mapsto> x)\<rparr>"
| "spec_next vc sj (DeleteLogEntries g ds) sp =
     sp\<lparr>sp_log := (\<lambda>(g', d). if g' = g \<and> d \<in> set ds then None else sp_log sp (g', d))\<rparr>"
| "spec_next vc sj (DeleteLog g) sp = sp\<lparr>sp_log := (\<lambda>(g', d). if g' = g then None else sp_log sp (g', d))\<rparr>"
| "spec_next vc sj (WriteRetainedBatch d t ms) sp =
     sp\<lparr>sp_rows := (sp_rows sp)((OperationTreeRow, d) \<mapsto> t),
        sp_retained := fold (\<lambda>(h, m) f. f(h \<mapsto> (m, d))) ms (sp_retained sp)\<rparr>"
| "spec_next vc sj (DeleteRetained h) sp = sp\<lparr>sp_retained := (sp_retained sp)(h := None)\<rparr>"
| "spec_next vc sj SweepEpochs sp = sp\<lparr>sp_rows := (\<lambda>(R, d).
     if R \<in> {DerivationEpochStateRow, OperationTreeRow} \<and> d \<in> spec_unreferenced sp then None else sp_rows sp (R, d))\<rparr>"
| "spec_next vc sj _ sp = sp"

text \<open>
  The result of each call.  The scans return their values in the iteration order of the hash
  map, which is unspecified, so the contract fixes them as a multiset.
\<close>

fun spec_result :: "'v Serde \<Rightarrow> 'v StorageOp \<Rightarrow> 'v StorageSpec \<Rightarrow> ('v StorageResult, MemoryStorageError) outcome \<Rightarrow> bool" where
  "spec_result sj (ReadEntity R k) sp r \<longleftrightarrow> r = Inr (Found (sp_rows sp (R, k)))"
| "spec_result sj (QueuedProposalRefs g) sp r \<longleftrightarrow> r = Inr (Items (sp_queue sp g))"
| "spec_result sj (QueuedProposals g) sp r \<longleftrightarrow>
     r = (if \<forall>p \<in> set (sp_queue sp g). sp_proposals sp (g, p) \<noteq> None
          then Inr (Queue (map (\<lambda>p. (p, the (sp_proposals sp (g, p)))) (sp_queue sp g))) else Inl Panics)"
| "spec_result sj (OwnLeafNodes g) sp r \<longleftrightarrow> r = Inr (Items (sp_leaves sp g))"
| "spec_result sj (EpochKeyPairs g e i) sp r \<longleftrightarrow> r = Inr (Items (sp_epoch_keys sp (enc_epoch sj g e i)))"
| "spec_result sj (ReadBinding g e) sp r \<longleftrightarrow> r = Inr (Found (map_option snd (sp_bindings sp (g, e))))"
| "spec_result sj (Bindings g) sp r \<longleftrightarrow> (\<exists>xs. r = Inr (Items xs) \<and>
     mset xs = image_mset (\<lambda>e. snd (the (sp_bindings sp (g, e)))) (mset_set {e. sp_bindings sp (g, e) \<noteq> None}))"
| "spec_result sj (LogEntries g) sp r \<longleftrightarrow> (\<exists>xs. r = Inr (Items xs) \<and>
     mset xs = image_mset (\<lambda>d. the (sp_log sp (g, d))) (mset_set {d. sp_log sp (g, d) \<noteq> None}))"
| "spec_result sj (RetainedMaterial h) sp r \<longleftrightarrow> r = Inr (Found (map_option fst (sp_retained sp h)))"
| "spec_result sj SweepEpochs sp r \<longleftrightarrow>
     (\<exists>xs. r = Inr (Items xs) \<and> distinct xs \<and> set xs = spec_unreferenced sp)"
| "spec_result sj _ sp r \<longleftrightarrow> r = Inr Done"

end
