(* ===== verification/StorageRefinement.thy ===== *)
theory StorageRefinement
  imports StorageSpec
begin

text \<open>
  The in-memory store implements the contract of a storage provider: a simulation between
  \<open>storage_step\<close> and the abstract store, lifted to all sequences of calls.
\<close>

section \<open>The store as a table of rows\<close>

type_synonym rows = "bytes \<Rightarrow> bytes \<Rightarrow> bytes option"

definition holds :: "MemoryStorage \<Rightarrow> rows \<Rightarrow> bool" where
  "holds st \<rho> \<longleftrightarrow> \<not> poisoned st \<and> store_ok (storage_values st) \<and> row (storage_values st) = \<rho>"

text \<open>A call that succeeds with a result and leaves the given rows.\<close>

definition yields :: "'a storage_write \<Rightarrow> MemoryStorage \<Rightarrow> 'a \<Rightarrow> rows \<Rightarrow> bool" where
  "yields m st x \<rho> \<longleftrightarrow> (\<exists>st'. m st = (Inr x, st') \<and> holds st' \<rho>)"

named_theorems yields_intros \<open>what the helpers of the store do to its rows\<close>

lemma yields_with_write:
  assumes "holds st \<rho>" "m (storage_values st) = (Inr x, vs)" "store_ok vs" "row vs = \<rho>'"
  shows "yields (with_write m) st x \<rho>'"
  using assms by (simp add: yields_def with_write_def holds_def)

lemma yields_write [yields_intros]:
  "holds st \<rho> \<Longrightarrow> l \<in> set all_labels \<Longrightarrow> yields (write_value CURRENT_VERSION l k v) st () (\<rho>(l := (\<rho> l)(k \<mapsto> v)))"
  unfolding write_value_def
  by (rule yields_with_write, assumption, rule refl)
    (auto simp: holds_def store_ok_insert row_insert store_ok_def [of "storage_values st"])

lemma yields_delete [yields_intros]:
  "holds st \<rho> \<Longrightarrow> l \<in> set all_labels \<Longrightarrow> yields (delete_value CURRENT_VERSION l k) st () (\<rho>(l := (\<rho> l)(k := None)))"
  unfolding delete_value_def row_key_eqs
  by (rule yields_with_write, assumption, rule refl)
    (auto simp: holds_def store_ok_remove row_remove store_ok_def [of "storage_values st"])

lemma insert_row_write: "serde_ok sj \<Longrightarrow> insert_row sj l K T k v = write_value CURRENT_VERSION l (enc sj K k) (enc sj T v)"
  by (simp add: insert_row_def write_value_def m_let_def [abs_def])

lemma yields_composite:
  "holds st \<rho> \<Longrightarrow> l \<in> set all_labels \<Longrightarrow>
     yields (with_write (\<lambda>values. (Inr (), hm_insert (build_composite_key CURRENT_VERSION l a b) v values))) st ()
       (\<rho>(l := (\<rho> l)(a @ b \<mapsto> v)))"
  using yields_write [of st \<rho> l "a @ b" v] by (simp add: write_value_def row_key_eqs)

lemma yields_then:
  "yields m st x \<rho> \<Longrightarrow> (\<And>st'. holds st' \<rho> \<Longrightarrow> yields (k x) st' y \<rho>') \<Longrightarrow> yields (m_then m k) st y \<rho>'"
  by (auto simp: yields_def m_then_def)

lemma yields_unwrap: "yields m st x \<rho> \<Longrightarrow> yields (m_unwrap m) st x \<rho>"
  by (auto simp: yields_def m_unwrap_def)

lemma yields_let: "yields (k x) st y \<rho> \<Longrightarrow> yields (m_let (Inr x) k) st y \<rho>"
  by (simp add: yields_def)

lemma yields_map: "yields m st x \<rho> \<Longrightarrow> yields (m_map f m) st (f x) \<rho>"
  by (auto simp: yields_def m_map_def m_then_def)

lemma yields_get: "holds st \<rho> \<Longrightarrow> f st = Inr x \<Longrightarrow> yields (m_get f) st x \<rho>"
  by (simp add: yields_def m_get_def)

subsection \<open>Reading a row\<close>

lemma holds_get: "holds st \<rho> \<Longrightarrow> l \<in> set all_labels \<Longrightarrow> hm_get (storage_values st) (row_key l k) = \<rho> l k"
  by (auto simp: holds_def row_def)

lemma read_value_row:
  "holds st \<rho> \<Longrightarrow> l \<in> set all_labels \<Longrightarrow> serde_ok sj \<Longrightarrow> \<rho> l k = map_option (enc sj T) v \<Longrightarrow>
     read_value sj CURRENT_VERSION T l k st = Inr v"
  by (cases v) (simp_all add: read_value_def with_read_def holds_get serde_enc, simp_all add: holds_def)

lemma get_row_row:
  "holds st \<rho> \<Longrightarrow> l \<in> set all_labels \<Longrightarrow> serde_ok sj \<Longrightarrow> \<rho> l (enc sj K k) = map_option (enc sj T) v \<Longrightarrow>
     get_row sj l K T k st = Inr v"
  by (cases v) (simp_all add: get_row_def with_read_def holds_get serde_enc, simp_all add: holds_def)

subsection \<open>Rows that hold a list\<close>

definition list_at :: "'v Serde \<Rightarrow> (bytes \<Rightarrow> bytes option) \<Rightarrow> bytes \<Rightarrow> bytes list option" where
  "list_at sj m k = (case m k of None \<Rightarrow> Some [] | Some b \<Rightarrow> from_slice_list sj b)"

lemma list_entry_row:
  assumes "serde_ok sj" "holds st \<rho>" "l \<in> set all_labels" "list_at sj (\<rho> l) k = Some xs"
  obtains b vs where "list_entry (row_key l k) (storage_values st) = (b, vs)"
    "from_slice_list sj b = Some xs" "store_ok vs" "row vs = \<rho>(l := (\<rho> l)(k \<mapsto> b))"
proof (cases "\<rho> l k")
  case None
  show ?thesis
    by (rule that [of "str_bytes ''[]''" "hm_insert (row_key l k) (str_bytes ''[]'') (storage_values st)"])
      (use assms None in \<open>auto simp: list_entry_def holds_get list_at_def serde_empty_list holds_def
        store_ok_insert row_insert store_ok_def [of "storage_values st"]\<close>)
next
  case (Some b)
  have "\<rho>(l := (\<rho> l)(k \<mapsto> b)) = \<rho>" using Some by (auto simp: fun_eq_iff)
  then show ?thesis
    using that [of b "storage_values st"] assms Some by (simp add: list_entry_def holds_get list_at_def holds_def)
qed

lemma yields_list_change:
  assumes "serde_ok sj" "holds st \<rho>" "l \<in> set all_labels" "list_at sj (\<rho> l) k = Some xs"
  obtains b where "from_slice_list sj b = Some (f xs)"
    "yields (with_write (\<lambda>values. let storage_key = row_key l k; (list_bytes, values) = list_entry storage_key values
       in m_let (ok_or (from_slice_list sj list_bytes) SerializationError) (\<lambda>list values.
            let (list_bytes, written) = to_writer_list sj (f list)
            in (if written then Inr () else throw SerializationError, hm_insert storage_key list_bytes values)) values))
      st () (\<rho>(l := (\<rho> l)(k \<mapsto> b)))"
proof -
  obtain c vs where c: "list_entry (row_key l k) (storage_values st) = (c, vs)"
    "from_slice_list sj c = Some xs" "store_ok vs" "row vs = \<rho>(l := (\<rho> l)(k \<mapsto> c))"
    using list_entry_row [OF assms] .
  obtain b where b: "to_writer_list sj (f xs) = (b, True)" "from_slice_list sj b = Some (f xs)"
    using serde_list [OF assms(1)] .
  have "store_ok (hm_insert (row_key l k) b vs)" "row (hm_insert (row_key l k) b vs) = \<rho>(l := (\<rho> l)(k \<mapsto> b))"
    using c(3,4) assms(3) by (simp_all add: store_ok_insert row_insert store_ok_def [of vs])
  then show ?thesis
    by (intro that [OF b(2)] yields_with_write [OF assms(2)]) (use c b(1) in \<open>simp_all add: Let_def\<close>)
qed

lemma yields_append_item:
  assumes "serde_ok sj" "holds st \<rho>" "l \<in> set all_labels" "list_at sj (\<rho> l) k = Some xs"
  obtains b where "from_slice_list sj b = Some (xs @ [v])"
    "yields (append_item sj CURRENT_VERSION l k v) st () (\<rho>(l := (\<rho> l)(k \<mapsto> b)))"
  using yields_list_change [OF assms, of "\<lambda>xs. xs @ [v]"] unfolding append_item_def by blast

lemma yields_remove_item:
  assumes "serde_ok sj" "holds st \<rho>" "l \<in> set all_labels" "list_at sj (\<rho> l) k = Some xs"
  obtains b where "from_slice_list sj b = Some (remove1 v xs)"
    "yields (remove_item sj CURRENT_VERSION l k v) st () (\<rho>(l := (\<rho> l)(k \<mapsto> b)))"
  using yields_list_change [OF assms, of "remove1 v"] unfolding remove_item_def by blast

lemma read_list_row:
  assumes "serde_ok sj" "holds st \<rho>" "l \<in> set all_labels" "list_at sj (\<rho> l) k = Some (map (enc sj T) xs)"
  shows "read_list sj CURRENT_VERSION T l k st = Inr xs"
proof -
  have "o_map (\<lambda>b. ok_or (from_slice sj T b) SerializationError) (map (enc sj T) xs) = Inr xs"
    by (induction xs) (simp_all add: serde_enc(3) [OF assms(1)])
  then show ?thesis
    using assms unfolding read_list_def with_read_def row_key_eqs list_at_def
    by (auto simp: holds_get split: option.splits) (auto simp: holds_def)
qed

lemma map_remove1_inj: "(\<And>x y. f x = f y \<longleftrightarrow> x = y) \<Longrightarrow> map f (remove1 a xs) = remove1 (f a) (map f xs)"
  by (induction xs) auto

section \<open>The abstraction relation\<close>

definition entities_rep :: "'v Serde \<Rightarrow> rows \<Rightarrow> (Row \<times> 'v \<Rightarrow> 'v option) \<Rightarrow> bool" where
  "entities_rep sj \<rho> f \<longleftrightarrow>
     (\<forall>R k. \<rho> (row_label R) (enc sj (key_type R) k) = map_option (enc sj (value_type R)) (f (R, k)))"

definition list_rep :: "'v Serde \<Rightarrow> StorageType \<Rightarrow> (bytes \<Rightarrow> bytes option) \<Rightarrow> ('v \<Rightarrow> 'v list) \<Rightarrow> bool" where
  "list_rep sj T m f \<longleftrightarrow> (\<forall>g. list_at sj m (enc sj GroupIdT g) = Some (map (enc sj T) (f g)))"

definition proposals_rep :: "'v Serde \<Rightarrow> (bytes \<Rightarrow> bytes option) \<Rightarrow> ('v \<times> 'v \<Rightarrow> 'v option) \<Rightarrow> bool" where
  "proposals_rep sj m f \<longleftrightarrow> (\<forall>g r. m (enc_pair sj g r) = map_option (enc sj QueuedProposalT) (f (g, r)))"

definition epoch_rep :: "'v Serde \<Rightarrow> (bytes \<Rightarrow> bytes option) \<Rightarrow> (bytes \<Rightarrow> 'v list) \<Rightarrow> bool" where
  "epoch_rep sj m f \<longleftrightarrow> 
     (\<forall>k. m k = None \<longrightarrow> f k = []) \<and> (\<forall>k b. m k = Some b \<longrightarrow> from_slice_vec sj HpkeKeyPairT b = Some (f k))"

text \<open>Rows under a group id and a second key, whose value carries the derivation epoch it refers to.\<close>

definition tagged_rep ::
  "'v Serde \<Rightarrow> StorageType \<Rightarrow> StorageType \<Rightarrow> (bytes \<Rightarrow> bytes option) \<Rightarrow> ('v \<times> 'v \<Rightarrow> ('v \<times> 'v) option) \<Rightarrow> bool" where
  "tagged_rep sj K T m f \<longleftrightarrow>
     (\<forall>g e. m (enc sj GroupIdT g @ enc sj K e) =
        map_option (\<lambda>(d, x). enc_tagged sj (enc sj VcEpochIdT d) (enc sj T x)) (f (g, e))) \<and>
     (\<forall>k \<in> dom m. \<exists>g e. k = enc sj GroupIdT g @ enc sj K e)"

definition retained_rep ::
  "'v Serde \<Rightarrow> (bytes \<Rightarrow> bytes option) \<Rightarrow> (bytes \<Rightarrow> bytes option) \<Rightarrow> ('v \<Rightarrow> ('v \<times> 'v) option) \<Rightarrow> bool" where
  "retained_rep sj m m' f \<longleftrightarrow>
     (\<forall>h. m (enc sj HashReferenceT h) = map_option (\<lambda>x. enc sj RetainedKeyPackageMaterialT (fst x)) (f h) \<and>
          m' (enc sj HashReferenceT h) = map_option (\<lambda>x. enc sj VcEpochIdT (snd x)) (f h)) \<and>
     (\<forall>k \<in> dom m'. \<exists>h. k = enc sj HashReferenceT h)"

definition epoch_rows :: "'v Serde \<Rightarrow> rows \<Rightarrow> bool" where
  "epoch_rows sj \<rho> \<longleftrightarrow>
     (\<forall>k \<in> dom (\<rho> VC_DERIVATION_EPOCH_STATE_LABEL) \<union> dom (\<rho> VC_OPERATION_TREE_LABEL). \<exists>d. k = enc sj VcEpochIdT d)"

text \<open>A log entry refers to the epoch it is stored under.\<close>

definition log_tags :: "('v \<times> 'v \<Rightarrow> 'v option) \<Rightarrow> 'v \<times> 'v \<Rightarrow> ('v \<times> 'v) option" where
  "log_tags f = (\<lambda>(g, d). map_option (Pair d) (f (g, d)))"

definition rep :: "'v Serde \<Rightarrow> rows \<Rightarrow> 'v StorageSpec \<Rightarrow> bool" where
  "rep sj \<rho> sp \<longleftrightarrow>
     entities_rep sj \<rho> (sp_rows sp) \<and> epoch_rows sj \<rho> \<and>
     list_rep sj ProposalRefT (\<rho> PROPOSAL_QUEUE_REFS_LABEL) (sp_queue sp) \<and>
     proposals_rep sj (\<rho> QUEUED_PROPOSAL_LABEL) (sp_proposals sp) \<and>
     list_rep sj LeafNodeT (\<rho> OWN_LEAF_NODES_LABEL) (sp_leaves sp) \<and>
     epoch_rep sj (\<rho> EPOCH_KEY_PAIRS_LABEL) (sp_epoch_keys sp) \<and>
     tagged_rep sj EpochKeyT VcEmulationBindingT (\<rho> VC_EMULATION_BINDING_LABEL) (sp_bindings sp) \<and>
     tagged_rep sj VcEpochIdT VcDerivationEpochLogEntryT (\<rho> VC_DERIVATION_EPOCH_LOG_ENTRY_LABEL) (log_tags (sp_log sp)) \<and>
     retained_rep sj (\<rho> RETAINED_KEY_PACKAGE_MATERIAL_LABEL) (\<rho> RETAINED_KEY_PACKAGE_EPOCH_LABEL) (sp_retained sp)"

definition represents :: "'v Serde \<Rightarrow> MemoryStorage \<Rightarrow> 'v StorageSpec \<Rightarrow> bool" where
  "represents sj st sp \<longleftrightarrow> serde_ok sj \<and> (\<exists>\<rho>. holds st \<rho> \<and> rep sj \<rho> sp)"

lemma row_label_mem [simp]: "row_label R \<in> set all_labels"
proof (cases R)
  case (Entity E)
  then show ?thesis by (cases E) simp_all
qed simp_all

lemma row_label_inj [simp]: "row_label R = row_label R' \<longleftrightarrow> R = R'"
proof
  assume eq: "row_label R = row_label R'"
  have ent: "entity_label E = entity_label E' \<Longrightarrow> E = E'" for E E'
    by (cases E; cases E'; simp)
  have "entity_label E \<noteq> VC_DERIVATION_EPOCH_STATE_LABEL \<and> entity_label E \<noteq> VC_OPERATION_TREE_LABEL" for E
    by (cases E) simp_all
  then show "R = R'" using eq ent by (cases R; cases R') (auto simp: eq_commute)
qed simp

lemma row_label_neq [simp]:
  "row_label R \<noteq> PROPOSAL_QUEUE_REFS_LABEL" "row_label R \<noteq> QUEUED_PROPOSAL_LABEL" "row_label R \<noteq> OWN_LEAF_NODES_LABEL"
  "row_label R \<noteq> EPOCH_KEY_PAIRS_LABEL" "row_label R \<noteq> VC_EMULATION_BINDING_LABEL"
  "row_label R \<noteq> VC_DERIVATION_EPOCH_LOG_ENTRY_LABEL" "row_label R \<noteq> RETAINED_KEY_PACKAGE_MATERIAL_LABEL"
  "row_label R \<noteq> RETAINED_KEY_PACKAGE_EPOCH_LABEL"
  using row_label.simps by (cases R; cases "case R of Entity E \<Rightarrow> E | _ \<Rightarrow> TreeE"; simp)+

lemmas row_label_neq' [simp] = row_label_neq [symmetric]

lemma row_label_vc [simp]:
  "row_label R = VC_DERIVATION_EPOCH_STATE_LABEL \<longleftrightarrow> R = DerivationEpochStateRow"
  "row_label R = VC_OPERATION_TREE_LABEL \<longleftrightarrow> R = OperationTreeRow"
  "VC_DERIVATION_EPOCH_STATE_LABEL = row_label R \<longleftrightarrow> R = DerivationEpochStateRow"
  "VC_OPERATION_TREE_LABEL = row_label R \<longleftrightarrow> R = OperationTreeRow"
  using row_label_inj [of R DerivationEpochStateRow] row_label_inj [of R OperationTreeRow]
  by (simp_all del: row_label_inj add: eq_commute)

section \<open>Simulation of every call\<close>

subsection \<open>Entities\<close>

lemma m_unwrap_write [simp]: "m_unwrap (write_value V l k v) = write_value V l k v"
  by (simp add: fun_eq_iff m_unwrap_def write_value_def with_write_def)

lemma m_let_Inr_fun [simp]: "m_let (Inr x) k = k x"
  by (simp add: fun_eq_iff)

lemmas write_defs =
  write_tree_def write_interim_transcript_hash_def write_context_def write_confirmation_tag_def write_group_state_def
  write_message_secrets_def write_resumption_psk_store_def write_own_leaf_index_def write_group_epoch_secrets_def
  write_mls_join_config_def write_application_export_tree_def write_signature_key_pair_def write_key_package_def
  write_psk_def write_encryption_key_pair_def write_vc_derivation_epoch_state_def write_vc_operation_tree_def

lemmas delete_defs =
  delete_tree_def delete_interim_transcript_hash_def delete_context_def delete_confirmation_tag_def
  delete_group_state_def delete_message_secrets_def delete_all_resumption_psk_secrets_def delete_own_leaf_index_def
  delete_group_epoch_secrets_def delete_group_config_def delete_application_export_tree_def
  delete_signature_key_pair_def delete_psk_def delete_encryption_key_pair_def

lemmas read_defs =
  storage_tree_def storage_interim_transcript_hash_def storage_group_context_def storage_confirmation_tag_def
  storage_group_state_def storage_message_secrets_def storage_resumption_psk_store_def storage_own_leaf_index_def
  storage_group_epoch_secrets_def storage_mls_group_join_config_def storage_application_export_tree_def
  storage_signature_key_pair_def storage_key_package_def storage_psk_def storage_encryption_key_pair_def
  storage_vc_derivation_epoch_state_def storage_vc_operation_tree_def

text \<open>Every setter writes one row, every getter reads it and every deletion removes it.\<close>

lemma write_entity_eq:
  assumes "serde_ok sj"
  shows "write_entity R sj k v = write_value CURRENT_VERSION (row_label R) (enc sj (key_type R) k) (enc sj (value_type R) v)"
proof (cases R)
  case (Entity E)
  then show ?thesis using assms by (cases E) (simp_all add: write_defs insert_row_write)
qed (use assms in \<open>simp_all add: write_defs\<close>)

lemma delete_entity_eq:
  assumes "serde_ok sj" "E \<noteq> KeyPackageE"
  shows "delete_entity vc E sj k = delete_value CURRENT_VERSION (entity_label E) (enc sj (key_type (Entity E)) k)"
  using assms by (cases E) (simp_all add: delete_defs)

lemma read_entity_eq:
  assumes "serde_ok sj" "holds st \<rho>" "entities_rep sj \<rho> f"
  shows "read_entity R sj k st = Inr (f (R, k))"
proof -
  have r: "\<rho> (row_label R) (enc sj (key_type R) k) = map_option (enc sj (value_type R)) (f (R, k))"
    using assms(3) by (simp add: entities_rep_def)
  show ?thesis
  proof (cases R)
    case (Entity E)
    then show ?thesis using r assms(1,2)
      by (cases E) (simp_all add: read_defs read_value_row get_row_row)
  qed (use r assms(1,2) in \<open>simp_all add: read_defs read_value_row get_row_row\<close>)
qed

lemma entities_rep_update:
  "serde_ok sj \<Longrightarrow> entities_rep sj \<rho> f \<Longrightarrow>
     entities_rep sj (\<rho>(row_label R := (\<rho> (row_label R))(enc sj (key_type R) k := map_option (enc sj (value_type R)) w)))
       (f((R, k) := w))"
  unfolding entities_rep_def by (simp add: enc_inj)

lemma rep_update:
  assumes "serde_ok sj" "rep sj \<rho> sp"
  shows "rep sj (\<rho>(row_label R := (\<rho> (row_label R))(enc sj (key_type R) k := map_option (enc sj (value_type R)) w)))
       (sp\<lparr>sp_rows := (sp_rows sp)((R, k) := w)\<rparr>)"
proof -
  have "epoch_rows sj (\<rho>(row_label R := (\<rho> (row_label R))(enc sj (key_type R) k := map_option (enc sj (value_type R)) w)))"
    using assms(2) by (cases "R = DerivationEpochStateRow"; cases "R = OperationTreeRow")
      (auto simp: rep_def epoch_rows_def split: if_splits)
  then show ?thesis using assms by (simp add: rep_def entities_rep_update)
qed

lemmas rep_write = rep_update [where w = "Some v" for v, simplified]
lemmas rep_delete = rep_update [where w = None, simplified]

lemma rep_delete_retained:
  "serde_ok sj \<Longrightarrow> rep sj \<rho> sp \<Longrightarrow>
     rep sj (\<rho>(RETAINED_KEY_PACKAGE_MATERIAL_LABEL := (\<rho> RETAINED_KEY_PACKAGE_MATERIAL_LABEL)(enc sj HashReferenceT h := None),
       RETAINED_KEY_PACKAGE_EPOCH_LABEL := (\<rho> RETAINED_KEY_PACKAGE_EPOCH_LABEL)(enc sj HashReferenceT h := None)))
       (sp\<lparr>sp_retained := (sp_retained sp)(h := None)\<rparr>)"
  unfolding rep_def by (auto simp: entities_rep_def epoch_rows_def retained_rep_def enc_inj split: if_splits)

lemma rep_write_retained:
  "serde_ok sj \<Longrightarrow> rep sj \<rho> sp \<Longrightarrow>
     rep sj (\<rho>(RETAINED_KEY_PACKAGE_MATERIAL_LABEL := (\<rho> RETAINED_KEY_PACKAGE_MATERIAL_LABEL)
          (enc sj HashReferenceT h \<mapsto> enc sj RetainedKeyPackageMaterialT x),
       RETAINED_KEY_PACKAGE_EPOCH_LABEL := (\<rho> RETAINED_KEY_PACKAGE_EPOCH_LABEL)
          (enc sj HashReferenceT h \<mapsto> enc sj VcEpochIdT d)))
       (sp\<lparr>sp_retained := (sp_retained sp)(h \<mapsto> (x, d))\<rparr>)"
  unfolding rep_def by (auto simp: entities_rep_def epoch_rows_def retained_rep_def enc_inj split: if_splits)

lemma yields_delete_retained:
  assumes "holds st \<rho>"
  shows "yields (m_then (delete_value CURRENT_VERSION RETAINED_KEY_PACKAGE_MATERIAL_LABEL k)
      (\<lambda>_. delete_value CURRENT_VERSION RETAINED_KEY_PACKAGE_EPOCH_LABEL k)) st ()
    (\<rho>(RETAINED_KEY_PACKAGE_MATERIAL_LABEL := (\<rho> RETAINED_KEY_PACKAGE_MATERIAL_LABEL)(k := None),
       RETAINED_KEY_PACKAGE_EPOCH_LABEL := (\<rho> RETAINED_KEY_PACKAGE_EPOCH_LABEL)(k := None)))"
proof (rule yields_then)
  show "yields (delete_value CURRENT_VERSION RETAINED_KEY_PACKAGE_MATERIAL_LABEL k) st ()
      (\<rho>(RETAINED_KEY_PACKAGE_MATERIAL_LABEL := (\<rho> RETAINED_KEY_PACKAGE_MATERIAL_LABEL)(k := None)))"
    using yields_delete [OF assms] by simp
qed (drule yields_delete [where l = RETAINED_KEY_PACKAGE_EPOCH_LABEL and k = k], simp_all)

text \<open>The two obligations of the simulation.\<close>

definition simulates :: "bool \<Rightarrow> 'v Serde \<Rightarrow> 'v StorageOp \<Rightarrow> MemoryStorage \<Rightarrow> 'v StorageSpec \<Rightarrow> bool" where
  "simulates vc sj opn st sp \<longleftrightarrow> spec_result sj opn sp (fst (storage_step vc sj opn st)) \<and>
     represents sj (snd (storage_step vc sj opn st)) (spec_next vc sj opn sp)"

lemma simulatesI:
  assumes "serde_ok sj" "yields (storage_step vc sj opn) st x \<rho>" "rep sj \<rho> (spec_next vc sj opn sp)"
    "spec_result sj opn sp (Inr x)"
  shows "simulates vc sj opn st sp"
  using assms by (auto simp: simulates_def yields_def represents_def)

lemma sim_write:
  assumes "serde_ok sj" "holds st \<rho>" "rep sj \<rho> sp" shows "simulates vc sj (WriteEntity R k v) st sp"
  by (rule simulatesI [OF assms(1)])
    (use assms in \<open>auto simp: write_entity_eq intro!: yields_map yields_write rep_write\<close>)

lemma sim_read:
  assumes "serde_ok sj" "holds st \<rho>" "rep sj \<rho> sp" shows "simulates vc sj (ReadEntity R k) st sp"
  by (rule simulatesI [OF assms(1)])
    (use assms in \<open>auto simp: rep_def intro!: yields_map yields_get [OF assms(2)] read_entity_eq\<close>)

lemma sim_delete:
  assumes "serde_ok sj" "holds st \<rho>" "rep sj \<rho> sp" shows "simulates vc sj (DeleteEntity E k) st sp"
proof (cases "E = KeyPackageE")
  case False
  then show ?thesis
    by (intro simulatesI [OF assms(1)])
      (use assms rep_delete [OF assms(1,3), of "Entity E" k] row_label_mem [of "Entity E"] in
        \<open>auto simp: delete_entity_eq intro!: yields_map yields_delete\<close>)
next
  case True
  let ?kp = "KEY_PACKAGE_LABEL" and ?k = "enc sj HashReferenceT k"
  let ?m = "RETAINED_KEY_PACKAGE_MATERIAL_LABEL" and ?e = "RETAINED_KEY_PACKAGE_EPOCH_LABEL"
  define \<rho>1 where "\<rho>1 = (if vc then \<rho>(?m := (\<rho> ?m)(?k := None), ?e := (\<rho> ?e)(?k := None)) else \<rho>)"
  have vc: "yields (if vc then m_then (delete_value CURRENT_VERSION ?m ?k) (\<lambda>_. delete_value CURRENT_VERSION ?e ?k)
      else (\<lambda>st. (Inr (), st))) st () \<rho>1"
  proof (cases vc)
    case True
    then show ?thesis using yields_delete_retained [OF assms(2)] by (simp add: \<rho>1_def)
  qed (use assms(2) in \<open>simp add: \<rho>1_def yields_def\<close>)
  have del: "yields (delete_value CURRENT_VERSION ?kp ?k) st' () (\<rho>1(?kp := (\<rho>1 ?kp)(?k := None)))" if "holds st' \<rho>1" for st'
    using yields_delete [OF that] by simp
  have "yields (storage_step vc sj (DeleteEntity E k)) st Done (\<rho>1(?kp := (\<rho>1 ?kp)(?k := None)))"
    using yields_map [OF yields_then [OF vc del], of "\<lambda>_. Done"] True assms(1) by (cases vc) (simp_all add: delete_key_package_def fun_upd_def)
  moreover have "rep sj \<rho>1 (sp\<lparr>sp_retained := if vc then (sp_retained sp)(k := None) else sp_retained sp\<rparr>)"
    using rep_delete_retained [OF assms(1,3)] assms(3) by (simp add: \<rho>1_def)
  from rep_delete [OF assms(1) this, of "Entity KeyPackageE" k]
  have "rep sj (\<rho>1(?kp := (\<rho>1 ?kp)(?k := None))) (spec_next vc sj (DeleteEntity E k) sp)"
    using True by (cases vc) (simp_all add: rep_def)
  ultimately show ?thesis by (rule simulatesI [OF assms(1)]) simp
qed

subsection \<open>Proposals and own leaf nodes\<close>

lemma list_rep_update:
  "serde_ok sj \<Longrightarrow> list_rep sj T m f \<Longrightarrow> from_slice_list sj b = Some (map (enc sj T) xs) \<Longrightarrow>
     list_rep sj T (m(enc sj GroupIdT g \<mapsto> b)) (f(g := xs))"
  unfolding list_rep_def list_at_def by (simp add: enc_inj)

lemma list_rep_delete:
  "serde_ok sj \<Longrightarrow> list_rep sj T m f \<Longrightarrow> list_rep sj T (m(enc sj GroupIdT g := None)) (f(g := []))"
  unfolding list_rep_def list_at_def by (simp add: enc_inj)

lemma entities_rep_other [simp]:
  "(\<And>R. row_label R \<noteq> l) \<Longrightarrow> entities_rep sj (\<rho>(l := m)) f \<longleftrightarrow> entities_rep sj \<rho> f"
  by (simp add: entities_rep_def)

lemma epoch_rows_other [simp]:
  "l \<noteq> VC_DERIVATION_EPOCH_STATE_LABEL \<Longrightarrow> l \<noteq> VC_OPERATION_TREE_LABEL \<Longrightarrow> epoch_rows sj (\<rho>(l := m)) \<longleftrightarrow> epoch_rows sj \<rho>"
  by (simp add: epoch_rows_def)

lemma proposals_rep_update:
  "serde_ok sj \<Longrightarrow> proposals_rep sj m f \<Longrightarrow>
     proposals_rep sj (m(enc_pair sj g r := map_option (enc sj QueuedProposalT) w)) (f((g, r) := w))"
  unfolding proposals_rep_def by (simp add: serde_pair(2))

lemma sim_queue:
  assumes "serde_ok sj" "holds st \<rho>" "rep sj \<rho> sp" shows "simulates vc sj (QueueProposal g r p) st sp"
proof -
  let ?q = PROPOSAL_QUEUE_REFS_LABEL and ?p = QUEUED_PROPOSAL_LABEL
  let ?\<rho>1 = "\<rho>(?p := (\<rho> ?p)(enc_pair sj g r \<mapsto> enc sj QueuedProposalT p))"
  obtain st1 where st1: "write_value CURRENT_VERSION ?p (enc_pair sj g r) (enc sj QueuedProposalT p) st = (Inr (), st1)"
    "holds st1 ?\<rho>1"
    using yields_write [OF assms(2), of ?p] by (auto simp: yields_def)
  have "list_at sj (?\<rho>1 ?q) (enc sj GroupIdT g) = Some (map (enc sj ProposalRefT) (sp_queue sp g))"
    using assms(3) by (simp add: rep_def list_rep_def)
  then obtain b where b: "from_slice_list sj b = Some (map (enc sj ProposalRefT) (sp_queue sp g) @ [enc sj ProposalRefT r])"
    "yields (append_item sj CURRENT_VERSION ?q (enc sj GroupIdT g) (enc sj ProposalRefT r)) st1 ()
      (?\<rho>1(?q := (?\<rho>1 ?q)(enc sj GroupIdT g \<mapsto> b)))"
    using yields_append_item [OF assms(1) st1(2), of ?q] by (metis label_mem(21))
  have "yields (storage_step vc sj (QueueProposal g r p)) st Done (?\<rho>1(?q := (?\<rho>1 ?q)(enc sj GroupIdT g \<mapsto> b)))"
    using b(2) st1(1) assms(1) by (auto simp: queue_proposal_def m_then_def yields_def m_map_def)
  then show ?thesis
  proof (rule simulatesI [OF assms(1)])
    show "rep sj (?\<rho>1(?q := (?\<rho>1 ?q)(enc sj GroupIdT g \<mapsto> b))) (spec_next vc sj (QueueProposal g r p) sp)"
      using assms(3) b(1) proposals_rep_update [OF assms(1), of "\<rho> ?p" "sp_proposals sp" g r "Some p"]
      by (simp add: rep_def list_rep_update [OF assms(1)])
  qed simp
qed

lemma sim_remove:
  assumes "serde_ok sj" "holds st \<rho>" "rep sj \<rho> sp" shows "simulates vc sj (RemoveProposal g r) st sp"
proof -
  let ?q = PROPOSAL_QUEUE_REFS_LABEL and ?p = QUEUED_PROPOSAL_LABEL
  have "list_at sj (\<rho> ?q) (enc sj GroupIdT g) = Some (map (enc sj ProposalRefT) (sp_queue sp g))"
    using assms(3) by (simp add: rep_def list_rep_def)
  then obtain b where b: "from_slice_list sj b = Some (map (enc sj ProposalRefT) (remove1 r (sp_queue sp g)))"
    "yields (remove_item sj CURRENT_VERSION ?q (enc sj GroupIdT g) (enc sj ProposalRefT r)) st ()
      (\<rho>(?q := (\<rho> ?q)(enc sj GroupIdT g \<mapsto> b)))"
    using yields_remove_item [OF assms(1,2), of ?q] map_remove1_inj [of "enc sj ProposalRefT" r] enc_inj [OF assms(1)]
    by (metis label_mem(21))
  let ?\<rho>1 = "\<rho>(?q := (\<rho> ?q)(enc sj GroupIdT g \<mapsto> b))"
  have "yields (storage_step vc sj (RemoveProposal g r)) st Done (?\<rho>1(?p := (?\<rho>1 ?p)(enc_pair sj g r := None)))"
    using b(2) assms(1) yields_delete [of _ ?\<rho>1 ?p "enc_pair sj g r"]
    by (auto simp: remove_proposal_def serde_pair(1) intro!: yields_map elim!: yields_then)
  then show ?thesis
  proof (rule simulatesI [OF assms(1)])
    show "rep sj (?\<rho>1(?p := (?\<rho>1 ?p)(enc_pair sj g r := None))) (spec_next vc sj (RemoveProposal g r) sp)"
      using assms(3) b(1) proposals_rep_update [OF assms(1), of "\<rho> ?p" "sp_proposals sp" g r None]
      by (simp add: rep_def list_rep_update [OF assms(1)])
  qed simp
qed

lemma refs_row:
  assumes "serde_ok sj" "holds st \<rho>" "rep sj \<rho> sp"
  shows "read_list sj CURRENT_VERSION ProposalRefT PROPOSAL_QUEUE_REFS_LABEL (enc sj GroupIdT g) st = Inr (sp_queue sp g)"
  using assms by (intro read_list_row) (auto simp: rep_def list_rep_def)

lemma sim_refs:
  assumes "serde_ok sj" "holds st \<rho>" "rep sj \<rho> sp" shows "simulates vc sj (QueuedProposalRefs g) st sp"
  by (rule simulatesI [OF assms(1)])
    (use assms in \<open>auto simp: queued_proposal_refs_def refs_row intro!: yields_map yields_get [OF assms(2)]\<close>)

lemma proposals_of_refs:
  assumes "serde_ok sj" "holds st \<rho>" "proposals_rep sj (\<rho> QUEUED_PROPOSAL_LABEL) f"
  shows "o_map (\<lambda>r. and_then (json_pair sj g r) (\<lambda>key.
      and_then (read_value sj CURRENT_VERSION QueuedProposalT QUEUED_PROPOSAL_LABEL key st) (\<lambda>found.
      and_then (unwrap found) (\<lambda>p. Inr (r, p))))) rs =
    (if \<forall>r \<in> set rs. f (g, r) \<noteq> None then Inr (map (\<lambda>r. (r, the (f (g, r)))) rs) else Inl Panics)"
proof (induction rs)
  case (Cons r rs)
  have "read_value sj CURRENT_VERSION QueuedProposalT QUEUED_PROPOSAL_LABEL (enc_pair sj g r) st = Inr (f (g, r))"
    using assms(3) by (intro read_value_row [OF assms(2) _ assms(1)]) (auto simp: proposals_rep_def)
  then show ?case using assms(1) Cons by (cases "f (g, r)") auto
qed simp

lemma sim_proposals:
  assumes "serde_ok sj" "holds st \<rho>" "rep sj \<rho> sp" shows "simulates vc sj (QueuedProposals g) st sp"
proof -
  have "proposals_rep sj (\<rho> QUEUED_PROPOSAL_LABEL) (sp_proposals sp)" using assms(3) by (simp add: rep_def)
  from proposals_of_refs [OF assms(1,2) this, of g "sp_queue sp g"]
  have "queued_proposals sj g st = (if \<forall>r \<in> set (sp_queue sp g). sp_proposals sp (g, r) \<noteq> None
      then Inr (map (\<lambda>r. (r, the (sp_proposals sp (g, r)))) (sp_queue sp g)) else Inl Panics)"
    using assms(1) by (simp add: queued_proposals_def refs_row [OF assms])
  then show ?thesis using assms
    by (auto simp: simulates_def m_map_def m_get_def m_then_def represents_def)
qed

text \<open>A loop that removes the rows of a list of keys while the lock is held.\<close>

lemma m_for_remove:
  assumes "store_ok vs" "l \<in> set all_labels"
  shows "\<exists>vs'. m_for (\<lambda>x values. (Inr (), hm_remove (row_key l (k x)) values)) xs vs = (Inr (), vs') \<and>
    store_ok vs' \<and> row vs' = (row vs)(l := (\<lambda>q. if q \<in> k ` set xs then None else row vs l q))"
  using assms
proof (induction xs arbitrary: vs)
  case (Cons x xs)
  let ?vs = "hm_remove (row_key l (k x)) vs"
  have "store_ok ?vs" "row ?vs = (row vs)(l := (row vs l)(k x := None))"
    using Cons.prems by (simp_all add: store_ok_remove row_remove store_ok_def [of vs])
  then show ?case using Cons.IH [of ?vs] Cons.prems by (auto simp: m_then_def fun_eq_iff)
qed (auto simp: fun_eq_iff)

lemma sim_clear:
  assumes "serde_ok sj" "holds st \<rho>" "rep sj \<rho> sp" shows "simulates vc sj (ClearProposalQueue g) st sp"
proof -
  let ?q = PROPOSAL_QUEUE_REFS_LABEL and ?p = QUEUED_PROPOSAL_LABEL
  obtain vs where vs: "m_for (\<lambda>r values. (Inr (), hm_remove (row_key ?p (enc_pair sj g r)) values)) (sp_queue sp g) (storage_values st) =
      (Inr () :: (unit, MemoryStorageError) outcome, vs)" "store_ok vs"
    "row vs = \<rho>(?p := (\<lambda>q. if q \<in> enc_pair sj g ` set (sp_queue sp g) then None else \<rho> ?p q))"
    using m_for_remove [of "storage_values st" ?p "enc_pair sj g" "sp_queue sp g"] assms(2) by (auto simp: holds_def)
  define \<rho>1 where "\<rho>1 = (row vs)(?q := (row vs ?q)(enc sj GroupIdT g := None))"
  have "yields (storage_step vc sj (ClearProposalQueue g)) st Done \<rho>1"
  proof -
    have "yields (with_write
         (m_then (m_for (\<lambda>r values. (Inr (), hm_remove (row_key ?p (enc_pair sj g r)) values)) (sp_queue sp g)) (\<lambda>_.
          m_let (build_key sj CURRENT_VERSION ?q GroupIdT g) (\<lambda>key values. (Inr (), hm_remove key values))))) st () \<rho>1"
      by (rule yields_with_write [OF assms(2), where vs = "hm_remove (row_key ?q (enc sj GroupIdT g)) vs"])
        (use vs assms(1) in \<open>auto simp: m_then_def \<rho>1_def store_ok_remove row_remove store_ok_def [of vs, THEN iffD1]\<close>)
    then show ?thesis using assms(1) refs_row [OF assms, of g]
      by (auto simp: yields_def clear_proposal_queue_def queued_proposal_refs_def m_map_def m_then_def)
  qed
  then show ?thesis
  proof (rule simulatesI [OF assms(1)])
    have "proposals_rep sj (\<rho>1 ?p) (sp_proposals (spec_next vc sj (ClearProposalQueue g) sp))"
      using assms(3) vs(3) serde_pair(2) [OF assms(1)] by (auto simp: rep_def proposals_rep_def \<rho>1_def)
    then show "rep sj \<rho>1 (spec_next vc sj (ClearProposalQueue g) sp)"
      using assms(3) vs(3) by (simp add: rep_def \<rho>1_def list_rep_delete [OF assms(1)])
  qed simp
qed

lemma sim_leaves:
  assumes "serde_ok sj" "holds st \<rho>" "rep sj \<rho> sp"
  shows "simulates vc sj (OwnLeafNodes g) st sp" "simulates vc sj (AppendOwnLeafNode g n) st sp"
    "simulates vc sj (DeleteOwnLeafNodes g) st sp"
proof -
  let ?l = OWN_LEAF_NODES_LABEL and ?k = "enc sj GroupIdT g"
  have at: "list_at sj (\<rho> ?l) ?k = Some (map (enc sj LeafNodeT) (sp_leaves sp g))"
    using assms(3) by (simp add: rep_def list_rep_def)
  have "own_leaf_nodes sj g st = Inr (sp_leaves sp g)"
    using read_list_row [OF assms(1,2) _ at] assms(1) by (simp add: own_leaf_nodes_def)
  then show "simulates vc sj (OwnLeafNodes g) st sp"
    by (intro simulatesI [OF assms(1)]) (use assms in \<open>auto intro!: yields_map yields_get [OF assms(2)]\<close>)
  obtain b where b: "from_slice_list sj b = Some (map (enc sj LeafNodeT) (sp_leaves sp g) @ [enc sj LeafNodeT n])"
    "yields (append_item sj CURRENT_VERSION ?l ?k (enc sj LeafNodeT n)) st () (\<rho>(?l := (\<rho> ?l)(?k \<mapsto> b)))"
    using yields_append_item [OF assms(1,2) _ at] by (metis label_mem(18))
  then have "yields (storage_step vc sj (AppendOwnLeafNode g n)) st Done (\<rho>(?l := (\<rho> ?l)(?k \<mapsto> b)))"
    using assms(1) by (auto simp: append_own_leaf_node_def intro!: yields_map)
  then show "simulates vc sj (AppendOwnLeafNode g n) st sp"
    by (rule simulatesI [OF assms(1)]) (use assms(3) b(1) in \<open>auto simp: rep_def list_rep_update [OF assms(1)]\<close>)
  have "yields (storage_step vc sj (DeleteOwnLeafNodes g)) st Done (\<rho>(?l := (\<rho> ?l)(?k := None)))"
    using assms(1,2) yields_delete [OF assms(2), of ?l ?k] by (auto simp: delete_own_leaf_nodes_def intro!: yields_map)
  then show "simulates vc sj (DeleteOwnLeafNodes g) st sp"
    by (rule simulatesI [OF assms(1)]) (use assms(3) in \<open>auto simp: rep_def list_rep_delete [OF assms(1)]\<close>)
qed

lemma epoch_rep_update:
  assumes "epoch_rep sj m f"
  shows "from_slice_vec sj HpkeKeyPairT b = Some ks \<Longrightarrow> epoch_rep sj (m(k \<mapsto> b)) (f(k := ks))"
    "epoch_rep sj (m(k := None)) (f(k := []))"
  using assms unfolding epoch_rep_def by simp_all

lemma sim_epoch_keys:
  assumes "serde_ok sj" "holds st \<rho>" "rep sj \<rho> sp"
  shows "simulates vc sj (EpochKeyPairs g e i) st sp" "simulates vc sj (WriteEpochKeyPairs g e i ks) st sp"
    "simulates vc sj (DeleteEpochKeyPairs g e i) st sp"
proof -
  let ?l = EPOCH_KEY_PAIRS_LABEL and ?k = "enc_epoch sj g e i"
  have er: "epoch_rep sj (\<rho> ?l) (sp_epoch_keys sp)" using assms(3) by (simp add: rep_def)
  have "encryption_epoch_key_pairs sj g e i st = Inr (sp_epoch_keys sp ?k)"
    using er by (auto simp: epoch_rep_def encryption_epoch_key_pairs_def serde_epoch [OF assms(1)] with_read_def holds_get [OF assms(2)]
        split: option.splits) (use assms(2) in \<open>auto simp: holds_def\<close>)
  then show "simulates vc sj (EpochKeyPairs g e i) st sp"
    by (intro simulatesI [OF assms(1)]) (use assms in \<open>auto intro!: yields_map yields_get [OF assms(2)]\<close>)
  obtain b where b: "to_vec_slice sj HpkeKeyPairT ks = Some b" "from_slice_vec sj HpkeKeyPairT b = Some ks"
    using serde_slice [OF assms(1)] .
  have "yields (storage_step vc sj (WriteEpochKeyPairs g e i ks)) st Done (\<rho>(?l := (\<rho> ?l)(?k \<mapsto> b)))"
    using b(1) yields_write [OF assms(2), of ?l ?k b]
    by (auto simp: write_encryption_epoch_key_pairs_def serde_epoch [OF assms(1)] intro!: yields_map)
  then show "simulates vc sj (WriteEpochKeyPairs g e i ks) st sp"
    by (rule simulatesI [OF assms(1)]) (use assms(3) epoch_rep_update(1) [OF er b(2)] in \<open>auto simp: rep_def\<close>)
  have "yields (storage_step vc sj (DeleteEpochKeyPairs g e i)) st Done (\<rho>(?l := (\<rho> ?l)(?k := None)))"
    using yields_delete [OF assms(2), of ?l ?k]
    by (auto simp: delete_encryption_epoch_key_pairs_def serde_epoch [OF assms(1)] intro!: yields_map)
  then show "simulates vc sj (DeleteEpochKeyPairs g e i) st sp"
    by (rule simulatesI [OF assms(1)]) (use assms(3) epoch_rep_update(2) [OF er] in \<open>auto simp: rep_def\<close>)
qed

subsection \<open>Rows that refer to a derivation epoch\<close>

lemma tagged_rep_update:
  "serde_ok sj \<Longrightarrow> tagged_rep sj K T m f \<Longrightarrow>
     tagged_rep sj K T (m(enc sj GroupIdT g @ enc sj K e \<mapsto> enc_tagged sj (enc sj VcEpochIdT d) (enc sj T x))) (f((g, e) \<mapsto> (d, x)))"
  unfolding tagged_rep_def by (auto simp: composite_inj)

lemma tagged_rep_restrict:
  assumes "tagged_rep sj K T m f" "\<And>g e. Q (enc sj GroupIdT g @ enc sj K e) \<longleftrightarrow> P g e"
  shows "tagged_rep sj K T (\<lambda>q. if Q q then None else m q) (\<lambda>(g, e). if P g e then None else f (g, e))"
  unfolding tagged_rep_def
proof (intro conjI allI ballI)
  fix g e
  show "(if Q (enc sj GroupIdT g @ enc sj K e) then None else m (enc sj GroupIdT g @ enc sj K e)) =
      map_option (\<lambda>(d, x). enc_tagged sj (enc sj VcEpochIdT d) (enc sj T x)) ((\<lambda>(g, e). if P g e then None else f (g, e)) (g, e))"
    using assms by (simp add: tagged_rep_def)
next
  fix k assume "k \<in> dom (\<lambda>q. if Q q then None else m q)"
  then have "k \<in> dom m" by (auto split: if_splits)
  then show "\<exists>g e. k = enc sj GroupIdT g @ enc sj K e" using assms(1) by (simp add: tagged_rep_def)
qed

lemma tagged_row_decode:
  assumes "serde_ok sj" "tagged_rep sj K T m f" "m k = Some v"
  obtains g e d x where "k = enc sj GroupIdT g @ enc sj K e" "f (g, e) = Some (d, x)"
    "v = enc_tagged sj (enc sj VcEpochIdT d) (enc sj T x)"
proof -
  obtain g e where k: "k = enc sj GroupIdT g @ enc sj K e"
    using assms(2,3) unfolding tagged_rep_def by blast
  then have "Some v = map_option (\<lambda>(d, x). enc_tagged sj (enc sj VcEpochIdT d) (enc sj T x)) (f (g, e))"
    using assms(2,3) unfolding tagged_rep_def by metis
  then show ?thesis using that k by (cases "f (g, e)") auto
qed

text \<open>A scan by the prefix of a group finds the rows of that group, each once.\<close>

lemma scan_rows:
  assumes sj: "serde_ok sj" and ok: "store_ok vs" and l: "l \<in> set all_labels" and rep: "tagged_rep sj K T (row vs l) f"
  obtains es where "filter (\<lambda>(key, value). prefix (l @ enc sj GroupIdT g) key) (hash_order sj vs) =
      map (\<lambda>e. (row_key l (enc sj GroupIdT g @ enc sj K e),
        enc_tagged sj (enc sj VcEpochIdT (fst (the (f (g, e))))) (enc sj T (snd (the (f (g, e))))))) es"
    "distinct es" "set es = {e. f (g, e) \<noteq> None}"
proof -
  let ?pre = "l @ enc sj GroupIdT g" and ?ys = "filter (\<lambda>(key, value). prefix (l @ enc sj GroupIdT g) key) (hash_order sj vs)"
  let ?h = "\<lambda>e. (row_key l (enc sj GroupIdT g @ enc sj K e),
      enc_tagged sj (enc sj VcEpochIdT (fst (the (f (g, e))))) (enc sj T (snd (the (f (g, e))))))"
  have set_ys: "(key, v) \<in> set ?ys \<longleftrightarrow> (key, v) \<in> set vs \<and> prefix ?pre key" for key v
    using set_iteration [OF serde_order [OF sj]] by auto
  have shape: "\<exists>e. y = ?h e \<and> f (g, e) \<noteq> None" if y: "y \<in> set ?ys" for y
  proof -
    obtain key v where yk: "y = (key, v)" by (rule prod.exhaust)
    then have kv: "(key, v) \<in> set vs" "prefix ?pre key" using y set_ys by blast+
    obtain k where k: "key = row_key l k" "row vs l k = Some v" "prefix (enc sj GroupIdT g) (k @ version_bytes CURRENT_VERSION)"
      using prefix_row_key [OF ok l kv] .
    obtain g' e d x where r: "k = enc sj GroupIdT g' @ enc sj K e" "f (g', e) = Some (d, x)"
      "v = enc_tagged sj (enc sj VcEpochIdT d) (enc sj T x)"
      using tagged_row_decode [OF sj rep k(2)] .
    have "g = g'" using group_id_delimited [OF sj, of g g'] k(3) r(1) by simp
    then show ?thesis using yk k(1) r by auto
  qed
  then obtain es where es: "?ys = map ?h es" "\<forall>e \<in> set es. f (g, e) \<noteq> None"
  proof -
    obtain es where "?ys = map ?h es" using shape ex_map_conv [of ?ys ?h] by blast
    moreover have "f (g, e) \<noteq> None" if e: "e \<in> set es" for e
    proof -
      have "?h e \<in> set ?ys" using e \<open>?ys = map ?h es\<close> by simp
      then obtain e' where "?h e = ?h e'" "f (g, e') \<noteq> None" using shape by blast
      then show ?thesis using composite_inj [OF sj, of g K e g e'] row_key_inj [OF l l] by auto
    qed
    ultimately show ?thesis using that by blast
  qed
  have "distinct (hash_order sj vs)"
    using ok serde_order [OF sj] unfolding store_ok_def hm_ok_def iteration_order_def
    by (metis distinct_map mset_eq_imp_distinct_iff)
  then have "distinct ?ys" by (rule distinct_filter)
  then have dist: "distinct es" unfolding es(1) distinct_map by blast
  have "e \<in> set es" if e: "f (g, e) \<noteq> None" for e
  proof -
    obtain d x where "f (g, e) = Some (d, x)" using e by auto
    then have "row vs l (enc sj GroupIdT g @ enc sj K e) = Some (snd (?h e))"
      using rep unfolding tagged_rep_def by simp
    from row_in_values [OF ok this] have "?h e \<in> set ?ys"
      using set_iteration [OF serde_order [OF sj]] by (simp add: build_key_from_vec_def)
    then obtain e' where "e' \<in> set es" "?h e = ?h e'" using es(1) by auto
    then show ?thesis using composite_inj [OF sj, of g K e g e'] row_key_inj [OF l l] by auto
  qed
  then have "set es = {e. f (g, e) \<noteq> None}" using es(2) by blast
  then show ?thesis using that es(1) dist by blast
qed

lemma tagged_scan:
  assumes "serde_ok sj" "store_ok vs" "l \<in> set all_labels" "tagged_rep sj K T (row vs l) f"
  shows "\<exists>xs. tagged_under_prefix sj T (l @ enc sj GroupIdT g) vs = Inr xs \<and>
    mset xs = image_mset (\<lambda>e. snd (the (f (g, e)))) (mset_set {e. f (g, e) \<noteq> None})"
proof -
  obtain es where es: "filter (\<lambda>(key, value). prefix (l @ enc sj GroupIdT g) key) (hash_order sj vs) =
      map (\<lambda>e. (row_key l (enc sj GroupIdT g @ enc sj K e),
        enc_tagged sj (enc sj VcEpochIdT (fst (the (f (g, e))))) (enc sj T (snd (the (f (g, e))))))) es"
    "distinct es" "set es = {e. f (g, e) \<noteq> None}"
    using scan_rows [OF assms, of g] .
  have "tagged_under_prefix sj T (l @ enc sj GroupIdT g) vs = Inr (map (\<lambda>e. snd (the (f (g, e)))) es)"
    unfolding tagged_under_prefix_def es(1)
    by (induction es) (simp_all add: assms(1) serde_enc(3))
  moreover have "mset es = mset_set {e. f (g, e) \<noteq> None}"
    using es(2,3) mset_set_set by metis
  ultimately show ?thesis by (metis mset_map)
qed

lemma tagged_scan_holds:
  assumes "serde_ok sj" "holds st \<rho>" "l \<in> set all_labels" "tagged_rep sj K T (\<rho> l) f"
  shows "\<exists>xs. tagged_under_prefix sj T (l @ enc sj GroupIdT g) (storage_values st) = Inr xs \<and>
    mset xs = image_mset (\<lambda>e. snd (the (f (g, e)))) (mset_set {e. f (g, e) \<noteq> None})"
  using tagged_scan [OF assms(1) _ assms(3)] assms(2,4) unfolding holds_def by metis

lemma sim_bindings_row:
  assumes "serde_ok sj" "holds st \<rho>" "rep sj \<rho> sp"
  shows "simulates vc sj (WriteBinding g e d b) st sp" "simulates vc sj (ReadBinding g e) st sp"
    "simulates vc sj (Bindings g) st sp"
proof -
  let ?l = VC_EMULATION_BINDING_LABEL and ?k = "enc sj GroupIdT g @ enc sj EpochKeyT e"
  have tr: "tagged_rep sj EpochKeyT VcEmulationBindingT (\<rho> ?l) (sp_bindings sp)" using assms(3) by (simp add: rep_def)
  have "yields (storage_step vc sj (WriteBinding g e d b)) st Done
      (\<rho>(?l := (\<rho> ?l)(?k \<mapsto> enc_tagged sj (enc sj VcEpochIdT d) (enc sj VcEmulationBindingT b))))"
    using assms(1,2) by (auto simp: write_vc_emulation_binding_def intro!: yields_map yields_composite)
  then show "simulates vc sj (WriteBinding g e d b) st sp"
    by (rule simulatesI [OF assms(1)]) (use assms(3) tagged_rep_update [OF assms(1) tr, of g e d b] in \<open>auto simp: rep_def\<close>)
  have row: "\<rho> ?l ?k = map_option (\<lambda>(d, x). enc_tagged sj (enc sj VcEpochIdT d) (enc sj VcEmulationBindingT x)) (sp_bindings sp (g, e))"
    using tr unfolding tagged_rep_def by blast
  have "vc_emulation_binding sj g e st = Inr (map_option snd (sp_bindings sp (g, e)))"
    using row assms(1) holds_get [OF assms(2), of ?l ?k] assms(2)
    by (cases "sp_bindings sp (g, e)")
      (auto simp: vc_emulation_binding_def row_key_eqs with_read_def serde_enc(3), auto simp: holds_def)
  then show "simulates vc sj (ReadBinding g e) st sp"
    by (intro simulatesI [OF assms(1)]) (use assms in \<open>auto intro!: yields_map yields_get [OF assms(2)]\<close>)
  obtain xs where xs: "tagged_under_prefix sj VcEmulationBindingT (?l @ enc sj GroupIdT g) (storage_values st) = Inr xs"
    "mset xs = image_mset (\<lambda>e. snd (the (sp_bindings sp (g, e)))) (mset_set {e. sp_bindings sp (g, e) \<noteq> None})"
    using tagged_scan_holds [OF assms(1,2) _ tr, of g] by (metis label_mem(10,11))
  then have "vc_emulation_bindings sj g st = Inr xs"
    using assms(1,2) by (simp add: vc_emulation_bindings_def with_read_def holds_def)
  then show "simulates vc sj (Bindings g) st sp"
    by (intro simulatesI [OF assms(1)]) (use assms xs(2) in \<open>auto intro!: yields_map yields_get [OF assms(2)]\<close>)
qed

lemma sim_log_row:
  assumes "serde_ok sj" "holds st \<rho>" "rep sj \<rho> sp"
  shows "simulates vc sj (WriteLogEntry g d x) st sp" "simulates vc sj (LogEntries g) st sp"
proof -
  let ?l = VC_DERIVATION_EPOCH_LOG_ENTRY_LABEL and ?k = "enc sj GroupIdT g @ enc sj VcEpochIdT d"
  let ?T = VcDerivationEpochLogEntryT
  have tr: "tagged_rep sj VcEpochIdT ?T (\<rho> ?l) (log_tags (sp_log sp))" using assms(3) by (simp add: rep_def)
  have "yields (storage_step vc sj (WriteLogEntry g d x)) st Done
      (\<rho>(?l := (\<rho> ?l)(?k \<mapsto> enc_tagged sj (enc sj VcEpochIdT d) (enc sj ?T x))))"
    using assms(1,2) by (auto simp: write_vc_derivation_epoch_log_entry_def intro!: yields_map yields_composite)
  moreover have "(log_tags (sp_log sp))((g, d) \<mapsto> (d, x)) = log_tags ((sp_log sp)((g, d) \<mapsto> x))"
    by (auto simp: log_tags_def fun_eq_iff)
  ultimately show "simulates vc sj (WriteLogEntry g d x) st sp"
    by (intro simulatesI [OF assms(1)]) (use assms(3) tagged_rep_update [OF assms(1) tr, of g d d x] in \<open>auto simp: rep_def\<close>)
  obtain xs where xs: "tagged_under_prefix sj ?T (?l @ enc sj GroupIdT g) (storage_values st) = Inr xs"
    "mset xs = image_mset (\<lambda>e. snd (the (log_tags (sp_log sp) (g, e)))) (mset_set {e. log_tags (sp_log sp) (g, e) \<noteq> None})"
    using tagged_scan_holds [OF assms(1,2) _ tr, of g] by (metis label_mem(10,11))
  have fin: "{e. log_tags (sp_log sp) (g, e) \<noteq> None} = {e. sp_log sp (g, e) \<noteq> None}" by (auto simp: log_tags_def)
  have "mset xs = image_mset (\<lambda>e. the (sp_log sp (g, e))) (mset_set {e. sp_log sp (g, e) \<noteq> None})"
    unfolding xs(2) fin
    by (cases "finite {e. sp_log sp (g, e) \<noteq> None}") (auto intro!: image_mset_cong simp: log_tags_def)
  moreover have "vc_derivation_epoch_log_entries sj g st = Inr xs"
    using xs(1) assms(1,2) by (simp add: vc_derivation_epoch_log_entries_def with_read_def holds_def)
  ultimately show "simulates vc sj (LogEntries g) st sp"
    by (intro simulatesI [OF assms(1)]) (use assms in \<open>auto intro!: yields_map yields_get [OF assms(2)]\<close>)
qed

text \<open>Removing rows of one label, by a list of keys or by a prefix.\<close>

lemma yields_remove_keys:
  assumes "holds st \<rho>" "l \<in> set all_labels"
  shows "yields (with_write (m_for (\<lambda>x values. (Inr (), hm_remove (build_composite_key CURRENT_VERSION l a (k x)) values)) xs))
    st () (\<rho>(l := (\<lambda>q. if q \<in> (\<lambda>x. a @ k x) ` set xs then None else \<rho> l q)))"
proof -
  obtain vs where "m_for (\<lambda>x values. (Inr (), hm_remove (row_key l (a @ k x)) values)) xs (storage_values st) =
      (Inr () :: (unit, MemoryStorageError) outcome, vs)"
    "store_ok vs" "row vs = \<rho>(l := (\<lambda>q. if q \<in> (\<lambda>x. a @ k x) ` set xs then None else \<rho> l q))"
    using m_for_remove [of "storage_values st" l "\<lambda>x. a @ k x" xs] assms by (auto simp: holds_def)
  then show ?thesis unfolding row_key_eqs by (intro yields_with_write [OF assms(1)])
qed

lemma row_retain:
  assumes "store_ok vs" "l \<in> set all_labels"
  shows "row (hm_retain (\<lambda>key _. \<not> prefix (l @ p) key) vs) =
    (row vs)(l := (\<lambda>q. if prefix p (q @ version_bytes CURRENT_VERSION) then None else row vs l q))"
proof (intro ext)
  fix l' q
  have get: "hm_get (hm_retain (\<lambda>key _. \<not> prefix (l @ p) key) vs) key =
      (if prefix (l @ p) key then None else hm_get vs key)" for key
    using assms(1) by (auto simp: store_ok_def hm_get_retain split: option.splits)
  have "prefix (l @ p) (row_key l' q) \<longleftrightarrow> l' = l \<and> prefix p (q @ version_bytes CURRENT_VERSION)"
    if l': "l' \<in> set all_labels"
  proof
    assume pre: "prefix (l @ p) (row_key l' q)"
    then have "l = l'" using label_prefix [OF assms(2) l'] append_prefixD unfolding build_key_from_vec_def by blast
    then show "l' = l \<and> prefix p (q @ version_bytes CURRENT_VERSION)" using pre by (simp add: build_key_from_vec_def)
  qed (simp add: build_key_from_vec_def)
  then show "row (hm_retain (\<lambda>key _. \<not> prefix (l @ p) key) vs) l' q =
      ((row vs)(l := (\<lambda>q. if prefix p (q @ version_bytes CURRENT_VERSION) then None else row vs l q))) l' q"
    by (auto simp: row_def get)
qed

lemma yields_retain:
  "holds st \<rho> \<Longrightarrow> l \<in> set all_labels \<Longrightarrow>
     yields (with_write (\<lambda>values. (Inr (), hm_retain (\<lambda>key _. \<not> prefix (l @ p) key) values))) st ()
       (\<rho>(l := (\<lambda>q. if prefix p (q @ version_bytes CURRENT_VERSION) then None else \<rho> l q)))"
  by (rule yields_with_write, assumption, rule refl) (auto simp: holds_def store_ok_retain row_retain)

lemma prefix_of_group: "serde_ok sj \<Longrightarrow> prefix (enc sj GroupIdT g) ((enc sj GroupIdT g' @ x) @ y) \<longleftrightarrow> g' = g"
  using group_id_delimited [of sj g g' "x @ y"] by auto

lemma sim_delete_bindings:
  assumes "serde_ok sj" "holds st \<rho>" "rep sj \<rho> sp"
  shows "simulates vc sj (DeleteBindings g es) st sp" "simulates vc sj (DeleteAllBindings g) st sp"
proof -
  let ?l = VC_EMULATION_BINDING_LABEL and ?g = "enc sj GroupIdT g"
  have tr: "tagged_rep sj EpochKeyT VcEmulationBindingT (\<rho> ?l) (sp_bindings sp)" using assms(3) by (simp add: rep_def)
  have "yields (storage_step vc sj (DeleteBindings g es)) st Done
      (\<rho>(?l := (\<lambda>q. if q \<in> (\<lambda>e. ?g @ enc sj EpochKeyT e) ` set es then None else \<rho> ?l q)))"
    using assms(1,2) by (auto simp: delete_vc_emulation_bindings_def intro!: yields_map yields_remove_keys)
  moreover have "tagged_rep sj EpochKeyT VcEmulationBindingT (\<lambda>q. if q \<in> (\<lambda>e. ?g @ enc sj EpochKeyT e) ` set es then None else \<rho> ?l q)
      (\<lambda>(g', e). if g' = g \<and> e \<in> set es then None else sp_bindings sp (g', e))"
    by (rule tagged_rep_restrict [OF tr]) (auto simp: composite_inj [OF assms(1)])
  ultimately show "simulates vc sj (DeleteBindings g es) st sp"
    by (intro simulatesI [OF assms(1)]) (use assms(3) in \<open>auto simp: rep_def\<close>)
  have "yields (storage_step vc sj (DeleteAllBindings g)) st Done
      (\<rho>(?l := (\<lambda>q. if prefix ?g (q @ version_bytes CURRENT_VERSION) then None else \<rho> ?l q)))"
    using assms(1,2) by (auto simp: delete_all_vc_emulation_bindings_def intro!: yields_map yields_retain)
  moreover have "tagged_rep sj EpochKeyT VcEmulationBindingT (\<lambda>q. if prefix ?g (q @ version_bytes CURRENT_VERSION) then None else \<rho> ?l q)
      (\<lambda>(g', e). if g' = g then None else sp_bindings sp (g', e))"
    by (rule tagged_rep_restrict [OF tr]) (simp only: prefix_of_group [OF assms(1)])
  ultimately show "simulates vc sj (DeleteAllBindings g) st sp"
    by (intro simulatesI [OF assms(1)]) (use assms(3) in \<open>auto simp: rep_def\<close>)
qed

lemma log_tags_restrict:
  "log_tags (\<lambda>(g, d). if P g d then None else f (g, d)) = (\<lambda>(g, d). if P g d then None else log_tags f (g, d))"
  by (auto simp: log_tags_def fun_eq_iff)

lemma sim_delete_log:
  assumes "serde_ok sj" "holds st \<rho>" "rep sj \<rho> sp"
  shows "simulates vc sj (DeleteLogEntries g ds) st sp" "simulates vc sj (DeleteLog g) st sp"
proof -
  let ?l = VC_DERIVATION_EPOCH_LOG_ENTRY_LABEL and ?g = "enc sj GroupIdT g" and ?T = VcDerivationEpochLogEntryT
  have tr: "tagged_rep sj VcEpochIdT ?T (\<rho> ?l) (log_tags (sp_log sp))" using assms(3) by (simp add: rep_def)
  have "yields (storage_step vc sj (DeleteLogEntries g ds)) st Done
      (\<rho>(?l := (\<lambda>q. if q \<in> (\<lambda>e. ?g @ enc sj VcEpochIdT e) ` set ds then None else \<rho> ?l q)))"
    using assms(1,2) by (auto simp: delete_vc_derivation_epoch_log_entries_def intro!: yields_map yields_remove_keys)
  moreover have "tagged_rep sj VcEpochIdT ?T (\<lambda>q. if q \<in> (\<lambda>e. ?g @ enc sj VcEpochIdT e) ` set ds then None else \<rho> ?l q)
      (log_tags (\<lambda>(g', e). if g' = g \<and> e \<in> set ds then None else sp_log sp (g', e)))"
    unfolding log_tags_restrict [where f = "sp_log sp"] by (rule tagged_rep_restrict [OF tr]) (auto simp: composite_inj [OF assms(1)])
  ultimately show "simulates vc sj (DeleteLogEntries g ds) st sp"
    by (intro simulatesI [OF assms(1)]) (use assms(3) in \<open>auto simp: rep_def\<close>)
  have "yields (storage_step vc sj (DeleteLog g)) st Done
      (\<rho>(?l := (\<lambda>q. if prefix ?g (q @ version_bytes CURRENT_VERSION) then None else \<rho> ?l q)))"
    using assms(1,2) by (auto simp: delete_vc_derivation_epoch_log_def intro!: yields_map yields_retain)
  moreover have "tagged_rep sj VcEpochIdT ?T (\<lambda>q. if prefix ?g (q @ version_bytes CURRENT_VERSION) then None else \<rho> ?l q)
      (log_tags (\<lambda>(g', e). if g' = g then None else sp_log sp (g', e)))"
    unfolding log_tags_restrict [where f = "sp_log sp"] by (rule tagged_rep_restrict [OF tr]) (simp only: prefix_of_group [OF assms(1)])
  ultimately show "simulates vc sj (DeleteLog g) st sp"
    by (intro simulatesI [OF assms(1)]) (use assms(3) in \<open>auto simp: rep_def\<close>)
qed

subsection \<open>Retained key package material\<close>

definition material_rows :: "'v Serde \<Rightarrow> 'v \<Rightarrow> 'v \<Rightarrow> 'v \<Rightarrow> rows \<Rightarrow> rows" where
  "material_rows sj d h x \<rho> = \<rho>(RETAINED_KEY_PACKAGE_MATERIAL_LABEL := (\<rho> RETAINED_KEY_PACKAGE_MATERIAL_LABEL)
          (enc sj HashReferenceT h \<mapsto> enc sj RetainedKeyPackageMaterialT x),
       RETAINED_KEY_PACKAGE_EPOCH_LABEL := (\<rho> RETAINED_KEY_PACKAGE_EPOCH_LABEL)
          (enc sj HashReferenceT h \<mapsto> enc sj VcEpochIdT d))"

lemma batch_loop:
  assumes "serde_ok sj" "store_ok vs" "rep sj (row vs) sp"
  shows "\<exists>vs'. m_for (\<lambda>(h, x). m_let (json_try sj HashReferenceT h) (\<lambda>serialized_ref.
            m_let (json_try sj RetainedKeyPackageMaterialT x) (\<lambda>r values.
              (Inr (), hm_insert (row_key RETAINED_KEY_PACKAGE_EPOCH_LABEL serialized_ref) (enc sj VcEpochIdT d)
                 (hm_insert (row_key RETAINED_KEY_PACKAGE_MATERIAL_LABEL serialized_ref) r values))))) ms vs =
      (Inr () :: (unit, MemoryStorageError) outcome, vs') \<and>
    store_ok vs' \<and> rep sj (row vs') (sp\<lparr>sp_retained := fold (\<lambda>(h, x) f. f(h \<mapsto> (x, d))) ms (sp_retained sp)\<rparr>)"
  using assms(2,3)
proof (induction ms arbitrary: vs sp)
  case (Cons hx ms)
  obtain h x where hx: "hx = (h, x)" by (rule prod.exhaust)
  let ?k = "enc sj HashReferenceT h"
  let ?vs = "hm_insert (row_key RETAINED_KEY_PACKAGE_EPOCH_LABEL ?k) (enc sj VcEpochIdT d)
      (hm_insert (row_key RETAINED_KEY_PACKAGE_MATERIAL_LABEL ?k) (enc sj RetainedKeyPackageMaterialT x) vs)"
  have ok: "store_ok ?vs" using Cons.prems(1) by (simp add: store_ok_insert)
  have "row ?vs = material_rows sj d h x (row vs)"
    using Cons.prems(1) by (simp add: material_rows_def row_insert hm.ok_ins store_ok_def [of vs])
  then have "rep sj (row ?vs) (sp\<lparr>sp_retained := (sp_retained sp)(h \<mapsto> (x, d))\<rparr>)"
    using rep_write_retained [OF assms(1) Cons.prems(2), of h x d] by (simp add: material_rows_def)
  from Cons.IH [OF ok this] show ?case using hx assms(1) by (simp add: m_then_def)
qed simp

lemma sim_batch:
  assumes "serde_ok sj" "holds st \<rho>" "rep sj \<rho> sp" shows "simulates vc sj (WriteRetainedBatch d t ms) st sp"
proof -
  let ?vs = "hm_insert (row_key VC_OPERATION_TREE_LABEL (enc sj VcEpochIdT d)) (enc sj VcOperationTreeT t) (storage_values st)"
  have ok: "store_ok ?vs" "row ?vs = \<rho>(VC_OPERATION_TREE_LABEL := (\<rho> VC_OPERATION_TREE_LABEL)(enc sj VcEpochIdT d \<mapsto> enc sj VcOperationTreeT t))"
    using assms(2) by (auto simp: holds_def store_ok_insert row_insert store_ok_def [of "storage_values st"])
  have "rep sj (row ?vs) (sp\<lparr>sp_rows := (sp_rows sp)((OperationTreeRow, d) \<mapsto> t)\<rparr>)"
    using rep_write [OF assms(1,3), of OperationTreeRow d t] ok(2) by simp
  from batch_loop [OF assms(1) ok(1) this, of d ms] obtain vs' where vs':
    "m_for (\<lambda>(h, x). m_let (json_try sj HashReferenceT h) (\<lambda>serialized_ref.
            m_let (json_try sj RetainedKeyPackageMaterialT x) (\<lambda>r values.
              (Inr (), hm_insert (row_key RETAINED_KEY_PACKAGE_EPOCH_LABEL serialized_ref) (enc sj VcEpochIdT d)
                 (hm_insert (row_key RETAINED_KEY_PACKAGE_MATERIAL_LABEL serialized_ref) r values))))) ms ?vs =
      (Inr () :: (unit, MemoryStorageError) outcome, vs')"
    "store_ok vs'" "rep sj (row vs') (spec_next vc sj (WriteRetainedBatch d t ms) sp)"
    by auto
  have "yields (storage_step vc sj (WriteRetainedBatch d t ms)) st Done (row vs')"
    using assms(1) vs'(1,2)
    by (auto simp: write_retained_key_package_material_batch_def m_then_def intro!: yields_map yields_with_write [OF assms(2)])
  then show ?thesis by (rule simulatesI [OF assms(1)]) (use vs'(3) in simp_all)
qed

lemma sim_retained:
  assumes "serde_ok sj" "holds st \<rho>" "rep sj \<rho> sp"
  shows "simulates vc sj (RetainedMaterial h) st sp" "simulates vc sj (DeleteRetained h) st sp"
proof -
  have "\<rho> RETAINED_KEY_PACKAGE_MATERIAL_LABEL (enc sj HashReferenceT h) =
      map_option (enc sj RetainedKeyPackageMaterialT) (map_option fst (sp_retained sp h))"
    using assms(3) unfolding rep_def retained_rep_def by (simp add: option.map_comp comp_def)
  then have "storage_retained_key_package_material sj h st = Inr (map_option fst (sp_retained sp h))"
    unfolding storage_retained_key_package_material_def by (intro get_row_row [OF assms(2) _ assms(1)]) simp_all
  then show "simulates vc sj (RetainedMaterial h) st sp"
    by (intro simulatesI [OF assms(1)]) (use assms in \<open>auto intro!: yields_map yields_get [OF assms(2)]\<close>)
  show "simulates vc sj (DeleteRetained h) st sp"
    by (rule simulatesI [OF assms(1)])
      (use assms(1) rep_delete_retained [OF assms(1,3), of h] in
        \<open>auto simp: delete_retained_key_package_material_def intro!: yields_map yields_delete_retained [OF assms(2)]\<close>)
qed

subsection \<open>The sweep\<close>

lemma enc_tagged_inj:
  assumes "serde_ok sj" shows "enc_tagged sj d b = enc_tagged sj d' b' \<longleftrightarrow> d = d' \<and> b = b'"
proof
  assume eq: "enc_tagged sj d b = enc_tagged sj d' b'"
  have "Some (d, b) = Some (d', b')"
    unfolding serde_tagged(2) [OF assms, symmetric] eq by (rule refl)
  then show "d = d' \<and> b = b'" by simp
qed simp

lemma any_tagged_result:
  assumes "\<And>key v. (key, v) \<in> set rest \<Longrightarrow> prefix label key \<Longrightarrow> \<exists>d b. v = enc_tagged sj d b" "serde_ok sj"
  shows "any_tagged sj label e rest = Inr (\<exists>key b. prefix label key \<and> (key, enc_tagged sj e b) \<in> set rest)"
  using assms(1)
proof (induction rest)
  case (Cons kv rest)
  obtain key v where kv: "kv = (key, v)" by (rule prod.exhaust)
  have IH: "any_tagged sj label e rest = Inr (\<exists>key b. prefix label key \<and> (key, enc_tagged sj e b) \<in> set rest)"
    by (rule Cons.IH) (use Cons.prems in auto)
  show ?case
  proof (cases "prefix label key")
    case True
    obtain d b where v: "v = enc_tagged sj d b" using Cons.prems [of key v] True kv by auto
    then show ?thesis using True kv IH assms(2) by (auto simp: enc_tagged_inj)
  next
    case False
    then show ?thesis using kv IH by auto
  qed
qed simp

lemma tagged_referenced:
  assumes "serde_ok sj" "store_ok vs" "l \<in> set all_labels" "tagged_rep sj K T (row vs l) f"
  shows "any_epoch_tagged_under_label sj vs l (enc sj VcEpochIdT d) = Inr (\<exists>g e x. f (g, e) = Some (d, x))"
proof -
  have set_eq: "set (hash_order sj vs) = set vs" using set_iteration [OF serde_order [OF assms(1)]] .
  have shape: "\<exists>g e d x. key = row_key l (enc sj GroupIdT g @ enc sj K e) \<and> f (g, e) = Some (d, x) \<and>
      v = enc_tagged sj (enc sj VcEpochIdT d) (enc sj T x)" if kv: "(key, v) \<in> set vs" "prefix l key" for key v
  proof -
    obtain k where k: "key = row_key l k" "row vs l k = Some v"
      using prefix_row_key [OF assms(2,3) kv(1), of "[]"] kv(2) by auto
    show ?thesis using tagged_row_decode [OF assms(1,4) k(2)] k(1) by metis
  qed
  have "any_epoch_tagged_under_label sj vs l (enc sj VcEpochIdT d) =
      Inr (\<exists>key b. prefix l key \<and> (key, enc_tagged sj (enc sj VcEpochIdT d) b) \<in> set vs)"
    unfolding any_epoch_tagged_under_label_def set_eq [symmetric]
    by (rule any_tagged_result [OF _ assms(1)]) (use shape set_eq in blast)
  moreover have "(\<exists>key b. prefix l key \<and> (key, enc_tagged sj (enc sj VcEpochIdT d) b) \<in> set vs) \<longleftrightarrow> (\<exists>g e x. f (g, e) = Some (d, x))"
  proof
    assume "\<exists>key b. prefix l key \<and> (key, enc_tagged sj (enc sj VcEpochIdT d) b) \<in> set vs"
    then obtain key b where "prefix l key" "(key, enc_tagged sj (enc sj VcEpochIdT d) b) \<in> set vs" by blast
    from shape [OF this(2,1)] obtain g e d' x where d': "f (g, e) = Some (d', x)"
      "enc_tagged sj (enc sj VcEpochIdT d) b = enc_tagged sj (enc sj VcEpochIdT d') (enc sj T x)" by blast
    then have "f (g, e) = Some (d, x)" using enc_inj [OF assms(1)] enc_tagged_inj [OF assms(1)] by simp
    then show "\<exists>g e x. f (g, e) = Some (d, x)" by blast
  next
    assume "\<exists>g e x. f (g, e) = Some (d, x)"
    then obtain g e x where "f (g, e) = Some (d, x)" by blast
    then have "row vs l (enc sj GroupIdT g @ enc sj K e) = Some (enc_tagged sj (enc sj VcEpochIdT d) (enc sj T x))"
      using assms(4) unfolding tagged_rep_def by simp
    from row_in_values [OF assms(2) this]
    show "\<exists>key b. prefix l key \<and> (key, enc_tagged sj (enc sj VcEpochIdT d) b) \<in> set vs"
      by (metis build_key_from_vec_def prefixI)
  qed
  ultimately show ?thesis by simp
qed

lemma retained_referenced:
  assumes "serde_ok sj" "store_ok vs"
    "retained_rep sj (row vs RETAINED_KEY_PACKAGE_MATERIAL_LABEL) (row vs RETAINED_KEY_PACKAGE_EPOCH_LABEL) f"
  shows "any_entry_under_label vs RETAINED_KEY_PACKAGE_EPOCH_LABEL (enc sj VcEpochIdT d) \<longleftrightarrow> (\<exists>h m. f h = Some (m, d))"
proof
  let ?l = RETAINED_KEY_PACKAGE_EPOCH_LABEL
  assume "any_entry_under_label vs ?l (enc sj VcEpochIdT d)"
  then obtain key where "(key, enc sj VcEpochIdT d) \<in> set vs" "prefix ?l key"
    by (auto simp: any_entry_under_label_def list_ex_iff)
  then obtain k where k: "row vs ?l k = Some (enc sj VcEpochIdT d)"
    using prefix_row_key [OF assms(2), of ?l key "enc sj VcEpochIdT d" "[]"] by auto
  then obtain h where "k = enc sj HashReferenceT h" using assms(3) unfolding retained_rep_def by blast
  then have "map_option (\<lambda>x. enc sj VcEpochIdT (snd x)) (f h) = Some (enc sj VcEpochIdT d)"
    using assms(3) k unfolding retained_rep_def by metis
  then show "\<exists>h m. f h = Some (m, d)" using enc_inj [OF assms(1)] by auto
next
  let ?l = RETAINED_KEY_PACKAGE_EPOCH_LABEL
  assume "\<exists>h m. f h = Some (m, d)"
  then obtain h m where "f h = Some (m, d)" by blast
  then have "row vs ?l (enc sj HashReferenceT h) = Some (enc sj VcEpochIdT d)"
    using assms(3) unfolding retained_rep_def by simp
  from row_in_values [OF assms(2) this] show "any_entry_under_label vs ?l (enc sj VcEpochIdT d)"
    unfolding any_entry_under_label_def list_ex_iff by (rule bexI [rotated]) (simp add: build_key_from_vec_def)
qed

lemma epoch_referenced_spec:
  assumes "serde_ok sj" "store_ok vs" "rep sj (row vs) sp"
  shows "epoch_referenced sj vs (enc sj VcEpochIdT d) = Inr (spec_referenced sp d)"
proof -
  have parts: "tagged_rep sj EpochKeyT VcEmulationBindingT (row vs VC_EMULATION_BINDING_LABEL) (sp_bindings sp)"
    "tagged_rep sj VcEpochIdT VcDerivationEpochLogEntryT (row vs VC_DERIVATION_EPOCH_LOG_ENTRY_LABEL) (log_tags (sp_log sp))"
    using assms(3) by (simp_all add: rep_def)
  have "any_epoch_tagged_under_label sj vs VC_EMULATION_BINDING_LABEL (enc sj VcEpochIdT d) =
      Inr (\<exists>g e x. sp_bindings sp (g, e) = Some (d, x))"
    by (rule tagged_referenced [OF assms(1,2) _ parts(1)]) simp
  moreover have "any_epoch_tagged_under_label sj vs VC_DERIVATION_EPOCH_LOG_ENTRY_LABEL (enc sj VcEpochIdT d) =
      Inr (\<exists>g e x. log_tags (sp_log sp) (g, e) = Some (d, x))"
    by (rule tagged_referenced [OF assms(1,2) _ parts(2)]) simp
  moreover have "(\<exists>g e x. log_tags (sp_log sp) (g, e) = Some (d, x)) \<longleftrightarrow> (\<exists>g x. sp_log sp (g, d) = Some x)"
    by (auto simp: log_tags_def)
  moreover have "any_entry_under_label vs RETAINED_KEY_PACKAGE_EPOCH_LABEL (enc sj VcEpochIdT d) \<longleftrightarrow>
      (\<exists>h m. sp_retained sp h = Some (m, d))"
    by (rule retained_referenced [OF assms(1,2)]) (use assms(3) in \<open>simp add: rep_def\<close>)
  ultimately show ?thesis by (auto simp: epoch_referenced_def spec_referenced_def)
qed

lemma row_candidate_key:
  assumes "l \<in> set all_labels" "l' \<in> set all_labels"
  shows "row_candidate (row_key l k) l' = (if l' = l \<and> k \<noteq> [] then [k] else [])"
proof (cases "l' = l")
  case True
  then show ?thesis by (simp add: row_candidate_def build_key_from_vec_def)
next
  case False
  then have "\<not> prefix l' (row_key l k)" using label_prefix [OF assms(2,1)] unfolding build_key_from_vec_def by blast
  then show ?thesis using False by (simp add: row_candidate_def)
qed

lemma sweep_candidates_set:
  assumes "serde_ok sj" "store_ok vs"
  shows "set (sweep_candidates sj vs) =
    {k. k \<noteq> [] \<and> (row vs VC_DERIVATION_EPOCH_STATE_LABEL k \<noteq> None \<or> row vs VC_OPERATION_TREE_LABEL k \<noteq> None)}"
proof -
  let ?s = VC_DERIVATION_EPOCH_STATE_LABEL and ?t = VC_OPERATION_TREE_LABEL
  have set_eq: "set (sweep_candidates sj vs) = (\<Union>(key, v) \<in> set vs. set (row_candidate key ?s) \<union> set (row_candidate key ?t))"
    using set_iteration [OF serde_order [OF assms(1)], of vs] by (auto simp: sweep_candidates_def)
  show ?thesis
  proof (intro set_eqI iffI)
    fix k assume "k \<in> set (sweep_candidates sj vs)"
    then obtain key v where kv: "(key, v) \<in> set vs" "k \<in> set (row_candidate key ?s) \<union> set (row_candidate key ?t)"
      unfolding set_eq by blast
    have "hm_get vs key = Some v" using assms(2) kv(1) by (simp add: store_ok_def hm_in_get)
    then obtain l k' where l: "l \<in> set all_labels" "key = row_key l k'" "row vs l k' = Some v"
      using assms(2) unfolding store_ok_def known_keys_def row_def by auto
    then show "k \<in> {k. k \<noteq> [] \<and> (row vs ?s k \<noteq> None \<or> row vs ?t k \<noteq> None)}"
      using kv(2) by (auto simp: row_candidate_key split: if_splits)
  next
    fix k assume "k \<in> {k. k \<noteq> [] \<and> (row vs ?s k \<noteq> None \<or> row vs ?t k \<noteq> None)}"
    then obtain l v where l: "l = ?s \<or> l = ?t" "k \<noteq> []" "row vs l k = Some v" by auto
    from row_in_values [OF assms(2) l(3)] have "(row_key l k, v) \<in> set vs" .
    moreover have "k \<in> set (row_candidate (row_key l k) ?s) \<union> set (row_candidate (row_key l k) ?t)"
      using l(1,2) by (auto simp: row_candidate_key)
    ultimately show "k \<in> set (sweep_candidates sj vs)" unfolding set_eq by blast
  qed
qed

definition swept :: "'v set \<Rightarrow> 'v StorageSpec \<Rightarrow> 'v StorageSpec" where
  "swept D sp = sp\<lparr>sp_rows := (\<lambda>(R, d). if R \<in> {DerivationEpochStateRow, OperationTreeRow} \<and> d \<in> D then None else sp_rows sp (R, d))\<rparr>"

lemma swept_insert:
  "swept (insert d D) sp = swept D (sp\<lparr>sp_rows := (sp_rows sp)((DerivationEpochStateRow, d) := None, (OperationTreeRow, d) := None)\<rparr>)"
  by (cases sp) (auto simp: swept_def fun_eq_iff)

lemma referenced_rows [simp]: "spec_referenced (sp\<lparr>sp_rows := f\<rparr>) = spec_referenced sp"
  by (simp add: fun_eq_iff spec_referenced_def)

lemma sweep_loop:
  assumes "serde_ok sj" "store_ok vs" "rep sj (row vs) sp"
  shows "\<exists>vs'. sweep_epochs sj (map (enc sj VcEpochIdT) ds) acc vs = (Inr (acc @ filter (\<lambda>d. \<not> spec_referenced sp d) ds), vs') \<and>
    store_ok vs' \<and> rep sj (row vs') (swept {d \<in> set ds. \<not> spec_referenced sp d} sp)"
  using assms(2,3)
proof (induction ds arbitrary: vs sp acc)
  case Nil
  then show ?case by (simp add: swept_def)
next
  case (Cons d ds)
  let ?e = "enc sj VcEpochIdT d"
  have ref: "epoch_referenced sj vs ?e = Inr (spec_referenced sp d)"
    using epoch_referenced_spec [OF assms(1) Cons.prems] .
  show ?case
  proof (cases "spec_referenced sp d")
    case True
    then have "{d' \<in> set (d # ds). \<not> spec_referenced sp d'} = {d' \<in> set ds. \<not> spec_referenced sp d'}" by auto
    then show ?thesis using Cons.IH [OF Cons.prems, of acc] True ref by simp
  next
    case False
    let ?vs = "hm_remove (row_key VC_OPERATION_TREE_LABEL ?e) (hm_remove (row_key VC_DERIVATION_EPOCH_STATE_LABEL ?e) vs)"
    let ?sp = "sp\<lparr>sp_rows := (sp_rows sp)((DerivationEpochStateRow, d) := None, (OperationTreeRow, d) := None)\<rparr>"
    have ok: "store_ok ?vs" using Cons.prems(1) by (simp add: store_ok_remove)
    have "row ?vs = (row vs)(VC_DERIVATION_EPOCH_STATE_LABEL := (row vs VC_DERIVATION_EPOCH_STATE_LABEL)(?e := None),
        VC_OPERATION_TREE_LABEL := (row vs VC_OPERATION_TREE_LABEL)(?e := None))"
      using Cons.prems(1) by (simp add: row_remove hm.ok_del store_ok_def [of vs])
    then have rep: "rep sj (row ?vs) ?sp"
      using rep_delete [OF assms(1) rep_delete [OF assms(1) Cons.prems(2), of DerivationEpochStateRow d], of OperationTreeRow d]
      by simp
    have "{d' \<in> set (d # ds). \<not> spec_referenced sp d'} = insert d {d' \<in> set ds. \<not> spec_referenced ?sp d'}" using False by auto
    then have sw: "swept {d' \<in> set (d # ds). \<not> spec_referenced sp d'} sp = swept {d' \<in> set ds. \<not> spec_referenced ?sp d'} ?sp"
      by (simp only: swept_insert)
    from Cons.IH [OF ok rep, of "acc @ [d]"] show ?thesis
      unfolding sw using False ref assms(1) by (simp add: serde_enc(3))
  qed
qed

lemma sim_sweep:
  assumes "serde_ok sj" "holds st \<rho>" "rep sj \<rho> sp" shows "simulates vc sj SweepEpochs st sp"
proof -
  let ?vs = "storage_values st"
  have st: "store_ok ?vs" "rep sj (row ?vs) sp" using assms(2,3) by (auto simp: holds_def)
  have keys: "k \<in> set (sweep_candidates sj ?vs) \<longleftrightarrow> (\<exists>d. k = enc sj VcEpochIdT d \<and>
      (sp_rows sp (DerivationEpochStateRow, d) \<noteq> None \<or> sp_rows sp (OperationTreeRow, d) \<noteq> None))" for k
  proof -
    have rows: "row ?vs VC_DERIVATION_EPOCH_STATE_LABEL (enc sj VcEpochIdT d) = map_option (enc sj VcDerivationEpochStateT) (sp_rows sp (DerivationEpochStateRow, d))"
      "row ?vs VC_OPERATION_TREE_LABEL (enc sj VcEpochIdT d) = map_option (enc sj VcOperationTreeT) (sp_rows sp (OperationTreeRow, d))" for d
      using st(2) unfolding rep_def entities_rep_def by (metis key_type.simps row_label.simps value_type.simps)+
    have shape: "\<exists>d. k = enc sj VcEpochIdT d" if "row ?vs VC_DERIVATION_EPOCH_STATE_LABEL k \<noteq> None \<or> row ?vs VC_OPERATION_TREE_LABEL k \<noteq> None"
      using st(2) that unfolding rep_def epoch_rows_def by blast
    show ?thesis
    proof (cases "\<exists>d. k = enc sj VcEpochIdT d")
      case True
      then obtain d where "k = enc sj VcEpochIdT d" by blast
      then show ?thesis
        by (simp add: sweep_candidates_set [OF assms(1) st(1)] rows serde_enc(2) [OF assms(1)] enc_inj [OF assms(1)])
    next
      case False
      then show ?thesis using shape unfolding sweep_candidates_set [OF assms(1) st(1)] by blast
    qed
  qed
  then obtain ds where ds: "sweep_candidates sj ?vs = map (enc sj VcEpochIdT) ds"
    using ex_map_conv [of "sweep_candidates sj ?vs" "enc sj VcEpochIdT"] by blast
  have "distinct (sweep_candidates sj ?vs)" by (simp add: sweep_candidates_def)
  then have dist: "distinct ds" using ds by (simp add: distinct_map)
  have set_ds: "set ds = {d. sp_rows sp (DerivationEpochStateRow, d) \<noteq> None \<or> sp_rows sp (OperationTreeRow, d) \<noteq> None}"
  proof (rule set_eqI)
    fix d
    have "d \<in> set ds \<longleftrightarrow> enc sj VcEpochIdT d \<in> set (sweep_candidates sj ?vs)"
      unfolding ds by (auto simp: enc_inj [OF assms(1)])
    then show "d \<in> set ds \<longleftrightarrow> d \<in> {d. sp_rows sp (DerivationEpochStateRow, d) \<noteq> None \<or> sp_rows sp (OperationTreeRow, d) \<noteq> None}"
      unfolding keys by (simp add: enc_inj [OF assms(1)])
  qed
  then have un: "{d \<in> set ds. \<not> spec_referenced sp d} = spec_unreferenced sp" by (auto simp: spec_unreferenced_def)
  obtain vs' where vs': "sweep_epochs sj (sweep_candidates sj ?vs) [] ?vs = (Inr (filter (\<lambda>d. \<not> spec_referenced sp d) ds), vs')"
    "store_ok vs'" "rep sj (row vs') (swept (spec_unreferenced sp) sp)"
    using sweep_loop [OF assms(1) st, of ds "[]"] un ds by auto
  have "yields (storage_step vc sj SweepEpochs) st (Items (filter (\<lambda>d. \<not> spec_referenced sp d) ds)) (row vs')"
    unfolding storage_step.simps delete_unreferenced_vc_derivation_epoch_states_def
    by (rule yields_map, rule yields_with_write [OF assms(2) _ vs'(2) refl], rule vs'(1))
  then show ?thesis
    by (rule simulatesI [OF assms(1)]) (use vs'(3) un dist in \<open>auto simp: swept_def\<close>)
qed

section \<open>The simulation\<close>

lemma storage_simulation: "represents sj st sp \<Longrightarrow> simulates vc sj opn st sp"
proof -
  assume "represents sj st sp"
  then obtain \<rho> where r: "serde_ok sj" "holds st \<rho>" "rep sj \<rho> sp" unfolding represents_def by blast
  show ?thesis
    by (cases opn)
      (simp_all only: sim_write [OF r] sim_read [OF r] sim_delete [OF r] sim_queue [OF r] sim_refs [OF r]
        sim_proposals [OF r] sim_remove [OF r] sim_clear [OF r] sim_leaves [OF r] sim_epoch_keys [OF r]
        sim_bindings_row [OF r] sim_delete_bindings [OF r] sim_log_row [OF r] sim_delete_log [OF r]
        sim_batch [OF r] sim_retained [OF r] sim_sweep [OF r])
qed

interpretation storage: simulation "storage_step vc sj" "spec_next vc sj" "spec_result sj" "represents sj" for vc sj
  using storage_simulation [of sj _ _ vc] by unfold_locales (simp_all add: simulates_def)

lemma represents_default: "serde_ok sj \<Longrightarrow> represents sj memory_storage_default spec_empty"
proof -
  assume ok: "serde_ok sj"
  have "holds memory_storage_default (\<lambda>_ _. None)"
    by (simp add: holds_def memory_storage_default_def store_ok_new)
  moreover have "rep sj (\<lambda>_ _. None) spec_empty"
    by (simp add: rep_def spec_empty_def entities_rep_def epoch_rows_def list_rep_def list_at_def proposals_rep_def
        epoch_rep_def tagged_rep_def retained_rep_def log_tags_def)
  ultimately show ?thesis using ok by (auto simp: represents_def)
qed

text \<open>The states of the contract after a number of calls on an empty store.\<close>

definition spec_after :: "bool \<Rightarrow> 'v Serde \<Rightarrow> 'v StorageOp list \<Rightarrow> 'v StorageSpec" where
  "spec_after vc sj ops = fold (spec_next vc sj) ops spec_empty"

abbreviation storage_results :: "bool \<Rightarrow> 'v Serde \<Rightarrow> 'v StorageOp list \<Rightarrow> ('v StorageResult, MemoryStorageError) outcome list" where
  "storage_results vc sj ops \<equiv> fst (run_ops (storage_step vc sj) ops memory_storage_default)"


definition queue_ok :: "'v StorageSpec \<Rightarrow> bool" where
  "queue_ok sp \<longleftrightarrow> (\<forall>g. distinct (sp_queue sp g) \<and> (\<forall>r \<in> set (sp_queue sp g). sp_proposals sp (g, r) \<noteq> None))"

lemma queue_ok_next:
  assumes "queue_ok sp" "\<And>g r p. opn = QueueProposal g r p \<Longrightarrow> r \<notin> set (sp_queue sp g)"
  shows "queue_ok (spec_next vc sj opn sp)"
  using assms by (cases opn) (auto simp: queue_ok_def)

lemma queue_ok_result: "queue_ok sp \<Longrightarrow> spec_result sj opn sp r \<Longrightarrow> \<exists>x. r = Inr x"
  by (cases opn) (auto simp: queue_ok_def)

text \<open>
  C27: No call of the store fails or panics, for every sequence of calls that never queues a
  proposal reference of a group while it is queued already.
\<close>

theorem storage_never_fails:
  assumes "serde_ok sj"
    and "\<And>j g r p. j < length ops \<Longrightarrow> ops ! j = QueueProposal g r p \<Longrightarrow> r \<notin> set (sp_queue (spec_after vc sj (take j ops)) g)"
    and "i < length ops"
  shows "\<exists>x. storage_results vc sj ops ! i = Inr x"
proof -
  have "queue_ok (spec_after vc sj (take j ops))" if "j \<le> length ops" for j
    using that
  proof (induction j)
    case (Suc j)
    then have "spec_after vc sj (take (Suc j) ops) = spec_next vc sj (ops ! j) (spec_after vc sj (take j ops))"
      by (simp add: spec_after_def take_Suc_conv_app_nth)
    then show ?case using queue_ok_next [OF Suc.IH, of "ops ! j" vc sj] assms(2) [of j] Suc.prems by simp
  qed (simp add: spec_after_def spec_empty_def queue_ok_def)
  then have "queue_ok (spec_after vc sj (take i ops))" using assms(3) by simp
  moreover have "spec_result sj (ops ! i) (spec_after vc sj (take i ops)) (storage_results vc sj ops ! i)"
    unfolding spec_after_def by (rule storage.sim_results [OF represents_default [OF assms(1)] assms(3)])
  ultimately show ?thesis by (rule queue_ok_result)
qed

text \<open>
  Without that condition the queue breaks: queueing a reference twice and removing it once leaves
  a reference without a proposal, and reading the queue then panics.
\<close>

theorem requeued_proposal_panics:
  assumes "serde_ok sj"
  shows "storage_results vc sj [QueueProposal g r p, QueueProposal g r p, RemoveProposal g r, QueuedProposals g] ! 3 = Inl Panics"
  using storage.sim_results [OF represents_default [OF assms], of 3
      "[QueueProposal g r p, QueueProposal g r p, RemoveProposal g r, QueuedProposals g]" vc]
  by (simp add: spec_empty_def numeral_eq_Suc)

text \<open>
  The row of the encryption keys of an epoch is not determined by epoch and leaf index: the
  decimal texts of the two numbers are concatenated without a separator, so epoch 1 with leaf
  23 and epoch 12 with leaf 3 share one row.
\<close>

theorem epoch_key_pairs_share_row:
  assumes "to_vec sj EpochKeyT e = Some (str_bytes ''1'')" and "to_vec sj EpochKeyT e' = Some (str_bytes ''12'')"
    and "to_vec_u32 sj 23 = Some (str_bytes ''23'')" and "to_vec_u32 sj 3 = Some (str_bytes ''3'')"
  shows "epoch_key_pairs_id sj g e 23 = epoch_key_pairs_id sj g e' 3"
  using assms by (cases "to_vec sj GroupIdT g") (simp_all add: epoch_key_pairs_id_def json_try_def str_bytes_def)

section \<open>An instance of the serialization\<close>

text \<open>Numbers in unary, and lists of byte strings with the length of each in front.\<close>

definition unary :: "nat \<Rightarrow> bytes" where
  "unary n = replicate n 1 @ [0]"

fun read_unary :: "bytes \<Rightarrow> (nat \<times> bytes) option" where
  "read_unary [] = None"
| "read_unary (b # bs) = (if b = 0 then Some (0, bs) else map_option (\<lambda>(n, r). (Suc n, r)) (read_unary bs))"

definition items_bytes :: "bytes list \<Rightarrow> bytes" where
  "items_bytes l = concat (map (\<lambda>b. unary (length b) @ b) l)"

fun read_items :: "nat \<Rightarrow> bytes \<Rightarrow> bytes list option" where
  "read_items fuel [] = Some []"
| "read_items 0 (b # bs) = None"
| "read_items (Suc fuel) (b # bs) = (case read_unary (b # bs) of
     None \<Rightarrow> None
   | Some (n, r) \<Rightarrow> map_option (Cons (take n r)) (read_items fuel (drop n r)))"

definition unary_value :: "bytes \<Rightarrow> nat option" where
  "unary_value bs = map_option fst (read_unary bs)"

definition toy_serde :: "nat Serde" where
  "toy_serde = \<lparr>to_vec = \<lambda>T n. Some (unary n), from_slice = \<lambda>T. unary_value,
     from_slice_option = \<lambda>T bs. map_option Some (unary_value bs),
     to_vec_pair = \<lambda>T (a, b). Some (unary a @ unary b),
     to_vec_slice = \<lambda>T ns. Some (items_bytes (map unary ns)),
     from_slice_vec = \<lambda>T bs. map_option (map (\<lambda>b. the (unary_value b))) (read_items (length bs) bs),
     to_vec_u32 = \<lambda>n. Some (unary (unat n)),
     to_writer_list = \<lambda>l. (2 # items_bytes l, True),
     from_slice_list = \<lambda>bs. if bs = str_bytes ''[]'' then Some [] else read_items (length bs) (tl bs),
     to_vec_tagged = \<lambda>(d, b). Some (items_bytes [d, b]),
     from_slice_tagged = \<lambda>bs. map_option (\<lambda>l. (l ! 0, l ! 1)) (read_items (length bs) bs),
     hash_order = rev\<rparr>"

lemma read_unary [simp]: "read_unary (unary n @ r) = Some (n, r)" "read_unary (unary n) = Some (n, [])"
  by (induction n) (simp_all add: unary_def)

lemma unary_Cons: "\<exists>b bs. unary n @ r = b # bs"
  by (cases n) (simp_all add: unary_def)

lemma read_items_bytes: "length l \<le> fuel \<Longrightarrow> read_items fuel (items_bytes l) = Some l"
proof (induction l arbitrary: fuel)
  case (Cons x l)
  obtain fuel' where f: "fuel = Suc fuel'" "length l \<le> fuel'" using Cons.prems by (cases fuel) auto
  obtain b bs where b: "unary (length x) @ x @ items_bytes l = b # bs" using unary_Cons by metis
  have r: "read_unary (b # bs) = Some (length x, x @ items_bytes l)"
    unfolding b [symmetric] by (rule read_unary(1))
  have "items_bytes (x # l) = b # bs" using b by (simp add: items_bytes_def)
  then show ?case using Cons.IH [OF f(2)] r f(1) by simp
qed (simp add: items_bytes_def)

lemma length_items: "length l \<le> length (items_bytes l)"
  by (induction l) (auto simp: items_bytes_def unary_def)

lemma unary_prefix: "prefix (unary a) (unary b) \<Longrightarrow> a = b"
proof -
  assume "prefix (unary a) (unary b)"
  then obtain r where "unary b = unary a @ r" by (auto simp: prefix_def)
  then have "read_unary (unary b) = read_unary (unary a @ r)" by simp
  then show "a = b" unfolding read_unary by simp
qed

lemma toy_fields:
  "to_vec toy_serde T n = Some (unary n)" "from_slice toy_serde T = unary_value"
  "from_slice_option toy_serde T bs = map_option Some (unary_value bs)"
  "to_vec_pair toy_serde TT (a, b) = Some (unary a @ unary b)"
  "to_vec_slice toy_serde T ns = Some (items_bytes (map unary ns))"
  "from_slice_vec toy_serde T bs = map_option (map (\<lambda>b. the (unary_value b))) (read_items (length bs) bs)"
  "to_vec_u32 toy_serde i = Some (unary (unat i))" "to_writer_list toy_serde l = (2 # items_bytes l, True)"
  "from_slice_list toy_serde bs = (if bs = str_bytes ''[]'' then Some [] else read_items (length bs) (tl bs))"
  "to_vec_tagged toy_serde (c, d) = Some (items_bytes [c, d])"
  "from_slice_tagged toy_serde bs = map_option (\<lambda>l. (l ! 0, l ! 1)) (read_items (length bs) bs)"
  "hash_order toy_serde = rev"
  by (simp_all add: toy_serde_def)

lemma toy_serde_ok: "serde_ok toy_serde"
proof -
  have unary: "unary_value (unary n) = Some n" "unary n \<noteq> []" for n
    by (simp_all add: unary_value_def) (simp add: unary_def)
  have pair: "a = c \<and> b = d" if eq: "unary a @ unary b = unary c @ unary d" for a b c d
  proof -
    have "read_unary (unary a @ unary b) = read_unary (unary c @ unary d)" using eq by simp
    then have "a = c" "unary b = unary d" unfolding read_unary by simp_all
    then show ?thesis using unary_prefix [of b d] by simp
  qed
  have items: "read_items (length (items_bytes l)) (items_bytes l) = Some l"
    "read_items (Suc (length (items_bytes l))) (items_bytes l) = Some l" for l
    using read_items_bytes [of l] length_items [of l] by simp_all
  have vals: "map (\<lambda>b. the (unary_value b)) (map unary ns) = ns" for ns
    by (induction ns) (simp_all add: unary)
  show ?thesis
    unfolding serde_ok_def
  proof (intro conjI)
    show "\<forall>p q. to_vec_pair toy_serde (GroupIdT, ProposalRefT) p = to_vec_pair toy_serde (GroupIdT, ProposalRefT) q \<longrightarrow> p = q"
    proof (intro allI impI)
      fix p q :: "nat \<times> nat"
      assume eq: "to_vec_pair toy_serde (GroupIdT, ProposalRefT) p = to_vec_pair toy_serde (GroupIdT, ProposalRefT) q"
      obtain a b c d where pq: "p = (a, b)" "q = (c, d)" by (metis prod.exhaust)
      then have "unary a @ unary b = unary c @ unary d" using eq by (simp add: toy_fields)
      from pair [OF this] show "p = q" using pq by simp
    qed
    show "\<forall>g g' b b'. to_vec toy_serde GroupIdT g = Some b \<longrightarrow> to_vec toy_serde GroupIdT g' = Some b' \<longrightarrow> prefix b b' \<longrightarrow> g = g'"
      unfolding toy_fields option.inject using unary_prefix by blast
    show "\<forall>l. \<exists>b. to_writer_list toy_serde l = (b, True) \<and> from_slice_list toy_serde b = Some l"
      using items(2) by (simp add: toy_fields str_bytes_def)
    show "\<forall>T vs. \<exists>b. to_vec_slice toy_serde T vs = Some b \<and> from_slice_vec toy_serde T b = Some vs"
      using items(1) vals by (simp add: toy_fields del: map_map)
    show "\<forall>p. \<exists>b. to_vec_tagged toy_serde p = Some b \<and> from_slice_tagged toy_serde b = Some p"
      using items(1) by (simp add: toy_fields)
  qed (simp_all add: toy_fields unary iteration_order_def)
qed

text \<open>A store in use: derivation epoch 5 is bound, epoch 9 is not, and a sweep runs.\<close>

abbreviation sample_ops :: "nat StorageOp list" where
  "sample_ops \<equiv> [WriteEntity (Entity TreeE) 1 7, WriteBinding 1 4 5 6, WriteEntity DerivationEpochStateRow 5 8,
     WriteEntity DerivationEpochStateRow 9 8, SweepEpochs, ReadEntity DerivationEpochStateRow 5,
     ReadEntity DerivationEpochStateRow 9, ReadEntity (Entity TreeE) 1]"


theorem storage_never_fails_witness:
  "\<exists>x. storage_results False toy_serde [QueueProposal 1 2 3, QueuedProposals 1] ! 1 = Inr x"
proof (rule storage_never_fails [OF toy_serde_ok])
  fix j g r p :: nat
  assume "j < length [QueueProposal 1 2 3, QueuedProposals (1 :: nat)]" "[QueueProposal 1 2 3, QueuedProposals (1 :: nat)] ! j = QueueProposal g r p"
  then have "j = 0" by (cases j) auto
  then show "r \<notin> set (sp_queue (spec_after False toy_serde (take j [QueueProposal 1 2 3, QueuedProposals 1])) g)"
    by (simp add: spec_after_def spec_empty_def)
qed simp

end
