(* ===== verification/StorageDump.thy ===== *)
theory StorageDump
  imports MemoryStorage
begin

text \<open>
  The binary dump of the in-memory store (\<^verbatim>\<open>MemoryStorage::serialize\<close> and \<^verbatim>\<open>deserialize\<close>): the
  number of rows, then for each row the two lengths and the bytes of key and value.  A reader is
  the list of the bytes it still has; \<^verbatim>\<open>read_exact\<close> fails at the end of the input.
\<close>

unbundle bit_operations_syntax

datatype IoError = UnexpectedEof

definition u64_bytes :: "u64 \<Rightarrow> bytes" where
  "u64_bytes x = [ucast (drop_bit 56 x), ucast (drop_bit 48 x), ucast (drop_bit 40 x), ucast (drop_bit 32 x),
     ucast (drop_bit 24 x), ucast (drop_bit 16 x), ucast (drop_bit 8 x), ucast x]"

definition u64_of_bytes :: "bytes \<Rightarrow> u64" where
  "u64_of_bytes bs = foldl (\<lambda>x b. push_bit 8 x OR ucast b) 0 bs"

definition row_bytes :: "bytes \<times> bytes \<Rightarrow> bytes" where
  "row_bytes kv = (case kv of (k, v) \<Rightarrow>
     u64_bytes (of_nat (length k)) @ u64_bytes (of_nat (length v)) @ k @ v)"

text \<open>The result is the number of bytes written; writing to a vector does not fail.\<close>

definition storage_serialize ::
  "((bytes, bytes) hash_map \<Rightarrow> (bytes \<times> bytes) list) \<Rightarrow> MemoryStorage \<Rightarrow> (bytes, nat, IoError) mutator" where
  "storage_serialize ord st w =
     (if poisoned st then (Inl Panics, w)
      else (Inr (8 + (\<Sum>(k, v) \<leftarrow> ord (storage_values st). 8 + 8 + length k + length v)),
            w @ u64_bytes (of_nat (length (storage_values st))) @ concat (map row_bytes (ord (storage_values st)))))"

definition read_exact :: "nat \<Rightarrow> (bytes, bytes, IoError) mutator" where
  "read_exact n r = (if length r < n then (throw UnexpectedEof, []) else (Inr (take n r), drop n r))"

definition read_u64 :: "(bytes, u64, IoError) mutator" where
  "read_u64 = m_then (read_exact 8) (\<lambda>buf r. (Inr (u64_of_bytes buf), r))"

text \<open>\<^verbatim>\<open>vec![0u8; len]\<close> panics if the length exceeds \<^verbatim>\<open>isize::MAX\<close>.\<close>

definition read_bytes :: "u64 \<Rightarrow> (bytes, bytes, IoError) mutator" where
  "read_bytes len r = (if unat len \<ge> 2 ^ 63 then (Inl Panics, r) else read_exact (unat len) r)"

fun read_rows :: "nat \<Rightarrow> (bytes, bytes) hash_map \<Rightarrow> (bytes, (bytes, bytes) hash_map, IoError) mutator" where
  "read_rows 0 m r = (Inr m, r)"
| "read_rows (Suc n) m r =
     m_then read_u64 (\<lambda>k_len. m_then read_u64 (\<lambda>v_len.
     m_then (read_bytes k_len) (\<lambda>k. m_then (read_bytes v_len) (\<lambda>v.
       read_rows n (hm_insert k v m))))) r"

definition storage_deserialize :: "(bytes, MemoryStorage, IoError) mutator" where
  "storage_deserialize =
     m_then read_u64 (\<lambda>rows. m_then (read_rows (unat rows) hm_new) (\<lambda>m r.
       (Inr \<lparr>storage_values = m, poisoned = False\<rparr>, r)))"

section \<open>Round trip\<close>

lemma length_u64_bytes [simp]: "length (u64_bytes x) = 8"
  by (simp add: u64_bytes_def)

lemma u64_roundtrip [simp]: "u64_of_bytes (u64_bytes x) = x"
proof (rule bit_eqI)
  fix n assume "possible_bit TYPE(u64) n"
  then have n: "n < 64" by simp
  consider "n < 8" | "8 \<le> n" "n < 16" | "16 \<le> n" "n < 24" | "24 \<le> n" "n < 32" | "32 \<le> n" "n < 40" | "40 \<le> n" "n < 48"
    | "48 \<le> n" "n < 56" | "56 \<le> n" using n by linarith
  then show "bit (u64_of_bytes (u64_bytes x)) n = bit x n"
    by cases (use n in \<open>simp_all add: u64_of_bytes_def u64_bytes_def bit_simps less_diff_conv2\<close>)
qed

lemma read_exact_append [simp]: "length bs = n \<Longrightarrow> read_exact n (bs @ r) = (Inr bs, r)"
  by (simp add: read_exact_def)

lemma read_u64_append [simp]: "read_u64 (u64_bytes x @ r) = (Inr x, r)"
  by (simp add: read_u64_def m_then_def)

definition row_fits :: "bytes \<times> bytes \<Rightarrow> bool" where
  "row_fits kv \<longleftrightarrow> length (fst kv) < 2 ^ 63 \<and> length (snd kv) < 2 ^ 63"

lemma read_bytes_append: "length bs < 2 ^ 63 \<Longrightarrow> read_bytes (of_nat (length bs)) (bs @ r) = (Inr bs, r)"
  by (simp add: read_bytes_def unat_of_nat)

lemma read_row:
  assumes "row_fits kv"
  shows "read_rows (Suc n) m (row_bytes kv @ r) = read_rows n (hm_insert (fst kv) (snd kv) m) r"
  using assms by (cases kv) (simp add: row_bytes_def row_fits_def m_then_def read_bytes_append)

lemma read_rows_append:
  "\<forall>kv \<in> set rows. row_fits kv \<Longrightarrow>
     read_rows (length rows) m (concat (map row_bytes rows) @ r) = (Inr (fold (\<lambda>kv. hm_insert (fst kv) (snd kv)) rows m), r)"
  by (induction rows arbitrary: m) (simp_all add: read_row del: read_rows.simps(2))

lemma get_inserted:
  assumes "hm_ok m" "distinct (map fst rows)"
  shows "hm_get (fold (\<lambda>kv. hm_insert (fst kv) (snd kv)) rows m) k =
    (case map_of rows k of Some v \<Rightarrow> Some v | None \<Rightarrow> hm_get m k)"
  using assms
proof (induction rows arbitrary: m)
  case (Cons kv rows)
  have "map_of rows (fst kv) = None" using Cons.prems(2) by (simp add: map_of_eq_None_iff)
  then show ?case using Cons by (auto simp: hm.ok_ins hm.get_ins split: option.splits prod.splits)
qed simp

text \<open>
  C28: Reading a dump back gives a store with the same rows, whatever the iteration order was,
  leaves the bytes after the dump unread, and the dump has as many bytes as were reported.
\<close>

theorem storage_dump_roundtrip:
  assumes "iteration_order ord" and "hm_ok (storage_values st)" and "\<not> poisoned st"
    and "length (storage_values st) < 2 ^ 64" and "\<forall>kv \<in> set (storage_values st). row_fits kv"
  shows "\<exists>n dump st'. storage_serialize ord st w = (Inr n, w @ dump) \<and> length dump = n \<and>
    storage_deserialize (dump @ r) = (Inr st', r) \<and> \<not> poisoned st' \<and>
    (\<forall>k. hm_get (storage_values st') k = hm_get (storage_values st) k)"
proof -
  let ?rows = "ord (storage_values st)"
  let ?dump = "u64_bytes (of_nat (length (storage_values st))) @ concat (map row_bytes ?rows)"
  have ms: "mset ?rows = mset (storage_values st)" using assms(1) by (simp add: iteration_order_def)
  have len: "length ?rows = length (storage_values st)" using ms by (metis size_mset)
  have dist: "distinct (map fst ?rows)"
    using assms(2) ms unfolding hm_ok_def by (metis mset_eq_imp_distinct_iff mset_map)
  have fits: "\<forall>kv \<in> set ?rows. row_fits kv" using assms(5) set_iteration [OF assms(1)] by simp
  have "length (concat (map row_bytes rows)) = (\<Sum>(k, v) \<leftarrow> rows. 8 + 8 + length k + length v)" for rows
    by (induction rows) (auto simp: row_bytes_def split: prod.splits)
  then have ser: "storage_serialize ord st w = (Inr (length ?dump), w @ ?dump)"
    using assms(3) by (simp add: storage_serialize_def)
  let ?m = "fold (\<lambda>kv. hm_insert (fst kv) (snd kv)) ?rows hm_new"
  have "unat (of_nat (length (storage_values st)) :: u64) = length ?rows"
    using assms(4) len by (simp add: unat_of_nat)
  then have "storage_deserialize (?dump @ r) = (Inr \<lparr>storage_values = ?m, poisoned = False\<rparr>, r)"
    using read_rows_append [OF fits] by (simp add: storage_deserialize_def m_then_def)
  moreover have "hm_get ?m k = hm_get (storage_values st) k" for k
  proof -
    have "map_of ?rows k = map_of (storage_values st) k"
      using dist assms(2) set_iteration [OF assms(1)] unfolding hm_ok_def by (metis map_of_inject_set)
    then show ?thesis using get_inserted [OF _ dist, of hm_new k]
      by (simp add: hm_ok_def hm_new_def hm_get_def split: option.splits)
  qed
  ultimately show ?thesis using ser by (intro exI [of _ "length ?dump"] exI [of _ ?dump] exI) auto
qed

theorem storage_dump_roundtrip_witness:
  "\<exists>n dump st'. storage_serialize rev \<lparr>storage_values = [([1, 2], [3]), ([4], [])], poisoned = False\<rparr> [] = (Inr n, [] @ dump) \<and>
     length dump = n \<and> storage_deserialize (dump @ [9]) = (Inr st', [9]) \<and> \<not> poisoned st' \<and>
     (\<forall>k. hm_get (storage_values st') k = hm_get (storage_values \<lparr>storage_values = [([1, 2], [3]), ([4], [])], poisoned = False\<rparr>) k)"
  by (rule storage_dump_roundtrip) (simp_all add: iteration_order_def hm_ok_def row_fits_def)

end
