(* ===== verification/PreSharedKeys.thy ===== *)
theory PreSharedKeys
  imports Secrets
begin

text \<open>
  Pre-shared keys: \<^verbatim>\<open>schedule/psk.rs\<close> with the errors of \<^verbatim>\<open>schedule/errors.rs\<close> and
  \<^verbatim>\<open>error.rs\<close>.  Identifiers of keys and their validation in a Welcome, the secret that a list of
  keys contributes to the key schedule, the rollover list of resumption keys of past epochs, and
  the loading of keys from that list, from storage and from a parent group.

  The derived TLS encoding of a label and the two operations of the storage trait are parameters.
\<close>

section \<open>Errors\<close>

datatype LibraryError = LibMissingBoundsCheck | LibCryptoError CryptoError | LibCustom string

definition library_custom :: "string \<Rightarrow> LibraryError" where
  "library_custom s = LibCustom (''Error description: '' @ s)"

section \<open>Identifiers\<close>

type_synonym GroupId = bytes
type_synonym GroupEpoch = u64

datatype ResumptionPskUsage = UsageApplication | UsageReinit | UsageBranch

datatype ExternalPsk = ExternalPsk (external_psk_id: bytes)

record ResumptionPsk =
  usage :: ResumptionPskUsage
  psk_group_id :: GroupId
  psk_epoch :: GroupEpoch

record ApplicationPsk =
  psk_component_id :: u16
  application_psk_id :: bytes

datatype Psk = PskExternal ExternalPsk | PskResumption ResumptionPsk | PskApplication ApplicationPsk

datatype PskType = TypeExternal | TypeResumption | TypeApplication

record PreSharedKeyId =
  psk :: Psk
  psk_nonce :: bytes

datatype PskError =
    PskLibraryError LibraryError
  | TooManyKeys
  | KeyNotFound
  | PskStorageError
  | TypeMismatch "PskType list" PskType
  | UsageMismatch "ResumptionPskUsage list" ResumptionPskUsage
  | UsageConflict ResumptionPskUsage ResumptionPskUsage
  | UsageDuplicate ResumptionPskUsage
  | NonceLengthMismatch nat nat
  | PskDuplicate PreSharedKeyId
  | NotAllowed
  | DifferentGroupId GroupId GroupId

definition resumption_psk_new :: "ResumptionPskUsage \<Rightarrow> GroupId \<Rightarrow> GroupEpoch \<Rightarrow> ResumptionPsk" where
  "resumption_psk_new u gid epoch = \<lparr>usage = u, psk_group_id = gid, psk_epoch = epoch\<rparr>"

definition application_psk_new :: "u16 \<Rightarrow> bytes \<Rightarrow> ApplicationPsk" where
  "application_psk_new cid pid = \<lparr>psk_component_id = cid, application_psk_id = pid\<rparr>"

text \<open>\<open>rand n\<close> is the answer of the random source to a request for \<open>n\<close> bytes.\<close>

definition psk_id_new :: "Ciphersuite \<Rightarrow> (nat \<Rightarrow> bytes option) \<Rightarrow> Psk \<Rightarrow> (PreSharedKeyId, CryptoError) outcome" where
  "psk_id_new cs rand p =
     and_then (ok_or (rand (hash_length cs)) InsufficientRandomness)
       (\<lambda>nonce. Inr \<lparr>psk = p, psk_nonce = nonce\<rparr>)"

definition psk_id_external :: "bytes \<Rightarrow> bytes \<Rightarrow> PreSharedKeyId" where
  "psk_id_external pid nonce = \<lparr>psk = PskExternal (ExternalPsk pid), psk_nonce = nonce\<rparr>"

definition psk_id_resumption ::
  "ResumptionPskUsage \<Rightarrow> GroupId \<Rightarrow> GroupEpoch \<Rightarrow> bytes \<Rightarrow> PreSharedKeyId" where
  "psk_id_resumption u gid epoch nonce =
     \<lparr>psk = PskResumption (resumption_psk_new u gid epoch), psk_nonce = nonce\<rparr>"

definition psk_id_application :: "u16 \<Rightarrow> bytes \<Rightarrow> bytes \<Rightarrow> PreSharedKeyId" where
  "psk_id_application cid pid nonce =
     \<lparr>psk = PskApplication (application_psk_new cid pid), psk_nonce = nonce\<rparr>"

datatype PskBundle = PskBundle (bundle_secret: Secret)

text \<open>\<open>write_psk\<close> is the operation of the storage trait.\<close>

definition psk_id_store ::
  "(Psk \<Rightarrow> PskBundle \<Rightarrow> ('st, unit, 'e) mutator) \<Rightarrow> PreSharedKeyId \<Rightarrow> bytes \<Rightarrow> ('st, unit, PskError) mutator" where
  "psk_id_store write_psk pid key st =
     (let psk_bundle = PskBundle (Secret key);
          (r, st') = write_psk (psk pid) psk_bundle st
      in (map_err (\<lambda>_. PskStorageError) r, st'))"

definition validate_nonce :: "PreSharedKeyId \<Rightarrow> Ciphersuite \<Rightarrow> (unit, PskError) outcome" where
  "validate_nonce pid cs =
     (let expected = hash_length cs; got = length (psk_nonce pid) in
      if expected \<noteq> got then throw (NonceLengthMismatch expected got) else Inr ())"

text \<open>The body of the loop maps the usage found so far to the usage found afterwards.\<close>

definition welcome_usage ::
  "ResumptionPskUsage option \<Rightarrow> Psk \<Rightarrow> (ResumptionPskUsage option, PskError) outcome" where
  "welcome_usage seen p =
     (case p of
        PskResumption r \<Rightarrow>
          (case usage r of
             UsageApplication \<Rightarrow> throw (UsageMismatch [UsageReinit, UsageBranch] (usage r))
           | _ \<Rightarrow>
             (case seen of
                Some previous \<Rightarrow>
                  if previous = usage r then throw (UsageDuplicate previous)
                  else throw (UsageConflict previous (usage r))
              | None \<Rightarrow> Inr (Some (usage r))))
      | PskExternal _ \<Rightarrow> Inr seen
      | PskApplication _ \<Rightarrow> Inr seen)"

fun validate_loop ::
  "Ciphersuite \<Rightarrow> ResumptionPskUsage option \<Rightarrow> PreSharedKeyId list \<Rightarrow> (unit, PskError) outcome" where
  "validate_loop cs seen [] = Inr ()"
| "validate_loop cs seen (pid # ids) =
     and_then (validate_nonce pid cs) (\<lambda>_.
     and_then (welcome_usage seen (psk pid)) (\<lambda>seen'. validate_loop cs seen' ids))"

definition validate_in_welcome :: "PreSharedKeyId list \<Rightarrow> Ciphersuite \<Rightarrow> (unit, PskError) outcome" where
  "validate_in_welcome psk_ids cs = validate_loop cs None psk_ids"

section \<open>The secret of a list of keys\<close>

text \<open>\<open>tls_label id index count\<close> encodes a \<^verbatim>\<open>PskLabel\<close>; it is \<open>None\<close> when a field is too long.\<close>

type_synonym psk_label_codec = "PreSharedKeyId \<Rightarrow> u16 \<Rightarrow> u16 \<Rightarrow> bytes option"

definition psk_step ::
  "OpenMlsCrypto \<Rightarrow> psk_label_codec \<Rightarrow> Ciphersuite \<Rightarrow> u16 \<Rightarrow> nat \<times> PreSharedKeyId \<times> Secret \<Rightarrow> Secret \<Rightarrow>
   (Secret, PskError) outcome" where
  "psk_step crypto tls_label cs num_psks item psk_secret =
     (case item of (index, psk_id, key) \<Rightarrow>
      and_then (map_err (PskLibraryError \<circ> LibCryptoError) (hkdf_extract crypto cs (secret_zero cs) (Some key)))
        (\<lambda>psk_extracted.
      and_then (ok_or (tls_label psk_id (of_nat index) num_psks) (PskLibraryError LibMissingBoundsCheck))
        (\<lambda>psk_label.
      and_then (map_err (PskLibraryError \<circ> LibCryptoError)
          (kdf_expand_label crypto cs psk_extracted ''derived psk'' psk_label (hash_length cs)))
        (\<lambda>psk_input.
      map_err (PskLibraryError \<circ> LibCryptoError) (hkdf_extract crypto cs psk_input (Some psk_secret))))))"

fun psk_loop ::
  "OpenMlsCrypto \<Rightarrow> psk_label_codec \<Rightarrow> Ciphersuite \<Rightarrow> u16 \<Rightarrow> (nat \<times> PreSharedKeyId \<times> Secret) list \<Rightarrow> Secret \<Rightarrow>
   (Secret, PskError) outcome" where
  "psk_loop crypto tls_label cs num_psks [] psk_secret = Inr psk_secret"
| "psk_loop crypto tls_label cs num_psks (item # items) psk_secret =
     and_then (psk_step crypto tls_label cs num_psks item psk_secret)
       (\<lambda>psk_secret'. psk_loop crypto tls_label cs num_psks items psk_secret')"

datatype PskSecret = PskSecret (psk_secret_value: Secret)

definition psk_secret_new ::
  "OpenMlsCrypto \<Rightarrow> psk_label_codec \<Rightarrow> Ciphersuite \<Rightarrow> (PreSharedKeyId \<times> Secret) list \<Rightarrow> (PskSecret, PskError) outcome" where
  "psk_secret_new crypto tls_label cs psks =
     (if length psks > 65535 then throw TooManyKeys
      else let num_psks = of_nat (length psks) in
        and_then (psk_loop crypto tls_label cs num_psks (List.enumerate 0 psks) (secret_zero cs))
          (\<lambda>s. Inr (PskSecret s)))"

section \<open>The rollover list of resumption keys\<close>

record ResumptionPskStore =
  max_number_of_secrets :: nat
  resumption_psk :: "(GroupEpoch \<times> Secret) list"
  psk_cursor :: nat

definition psk_store_new :: "nat \<Rightarrow> ResumptionPskStore" where
  "psk_store_new n = \<lparr>max_number_of_secrets = n, resumption_psk = [], psk_cursor = 0\<rparr>"

definition psk_store_add :: "GroupEpoch \<Rightarrow> Secret \<Rightarrow> ResumptionPskStore \<Rightarrow> ResumptionPskStore" where
  "psk_store_add epoch key self =
     (if max_number_of_secrets self = 0 then self
      else let item = (epoch, key) in
        if length (resumption_psk self) < max_number_of_secrets self
        then self\<lparr>resumption_psk := resumption_psk self @ [item], psk_cursor := psk_cursor self + 1\<rparr>
        else let cursor = (psk_cursor self + 1) mod length (resumption_psk self)
          in self\<lparr>psk_cursor := cursor, resumption_psk := (resumption_psk self)[cursor := item]\<rparr>)"

definition psk_store_get :: "ResumptionPskStore \<Rightarrow> GroupEpoch \<Rightarrow> Secret option" where
  "psk_store_get self epoch = map_option snd (find (\<lambda>(e, _). e = epoch) (resumption_psk self))"

section \<open>Loading keys\<close>

text \<open>
  \<open>storage_psk\<close> is the operation of the storage trait; the key of a parent or predecessor group is
  taken out of its option by the first identifier that asks for it.
\<close>

definition load_psk ::
  "(Psk \<Rightarrow> (PskBundle option, 'e) outcome) \<Rightarrow> ResumptionPskStore \<Rightarrow> GroupId option \<Rightarrow>
   (PreSharedKeyId \<times> Secret) option \<Rightarrow> PreSharedKeyId \<Rightarrow>
   (Secret \<times> (PreSharedKeyId \<times> Secret) option, PskError) outcome" where
  "load_psk storage_psk store group_id foreign psk_id =
     (case psk psk_id of
        PskResumption r \<Rightarrow>
          (case usage r of
             UsageApplication \<Rightarrow>
               (case group_id of
                  None \<Rightarrow> throw NotAllowed
                | Some gid \<Rightarrow>
                    if psk_group_id r \<noteq> gid then throw (DifferentGroupId gid (psk_group_id r))
                    else (case psk_store_get store (psk_epoch r) of
                            Some key \<Rightarrow> Inr (key, foreign)
                          | None \<Rightarrow> throw KeyNotFound))
           | _ \<Rightarrow>
               (case foreign of
                  Some (foreign_id, foreign_key) \<Rightarrow>
                    if foreign_id = psk_id then Inr (foreign_key, None) else throw KeyNotFound
                | None \<Rightarrow> throw KeyNotFound))
      | _ \<Rightarrow>
          and_then (map_err (\<lambda>_. KeyNotFound) (storage_psk (psk psk_id)))
            (\<lambda>bundle. case bundle of Some b \<Rightarrow> Inr (bundle_secret b, foreign) | None \<Rightarrow> throw KeyNotFound))"

fun load_psks ::
  "(Psk \<Rightarrow> (PskBundle option, 'e) outcome) \<Rightarrow> ResumptionPskStore \<Rightarrow> GroupId option \<Rightarrow>
   (PreSharedKeyId \<times> Secret) option \<Rightarrow> PreSharedKeyId list \<Rightarrow>
   ((PreSharedKeyId \<times> Secret) list, PskError) outcome" where
  "load_psks storage_psk store group_id foreign [] = Inr []"
| "load_psks storage_psk store group_id foreign (psk_id # psk_ids) =
     and_then (load_psk storage_psk store group_id foreign psk_id) (\<lambda>(key, foreign').
     and_then (load_psks storage_psk store group_id foreign' psk_ids) (\<lambda>rest. Inr ((psk_id, key) # rest)))"

section \<open>What the rollover list holds\<close>

definition psk_store_of :: "nat \<Rightarrow> (GroupEpoch \<times> Secret) list \<Rightarrow> ResumptionPskStore" where
  "psk_store_of n items = fold (\<lambda>(e, k). psk_store_add e k) items (psk_store_new n)"

text \<open>The position written by the addition of item \<open>j\<close>, and the addition that overwrites it.\<close>

definition psk_slot :: "nat \<Rightarrow> nat \<Rightarrow> nat" where
  "psk_slot n j = (if j < n then j else (j + 1) mod n)"

definition evicted_at :: "nat \<Rightarrow> nat \<Rightarrow> nat" where
  "evicted_at n j = (if j = 0 then 2 * n - 1 else if j < n then j + n - 1 else j + n)"

definition psk_ring :: "nat \<Rightarrow> (GroupEpoch \<times> Secret) list \<Rightarrow> ResumptionPskStore \<Rightarrow> bool" where
  "psk_ring n items s \<longleftrightarrow>
     max_number_of_secrets s = n \<and> length (resumption_psk s) = min (length items) n \<and>
     psk_cursor s mod n = length items mod n \<and>
     (\<forall>i < min (length items) n. \<exists>j < length items. psk_slot n j = i \<and> resumption_psk s ! i = items ! j \<and>
        (\<forall>m. j < m \<longrightarrow> m < length items \<longrightarrow> psk_slot n m \<noteq> i))"

lemma psk_ring_push:
  assumes n: "0 < n" and ring: "psk_ring n items s" and room: "length items < n"
  shows "psk_ring n (items @ [x]) (case x of (e, k) \<Rightarrow> psk_store_add e k s)"
proof -
  obtain e k where x: "x = (e, k)" by (cases x)
  have new: "psk_store_add e k s =
      s\<lparr>resumption_psk := resumption_psk s @ [x], psk_cursor := psk_cursor s + 1\<rparr>"
    using assms by (simp add: psk_store_add_def psk_ring_def x)
  have entry: "\<exists>j < length (items @ [x]). psk_slot n j = i \<and> (resumption_psk s @ [x]) ! i = (items @ [x]) ! j \<and>
      (\<forall>m. j < m \<longrightarrow> m < length (items @ [x]) \<longrightarrow> psk_slot n m \<noteq> i)" if i: "i < length items + 1" for i
  proof (cases "i < length items")
    case True
    then obtain j where "j < length items" "psk_slot n j = i" "resumption_psk s ! i = items ! j"
      using ring room by (auto simp: psk_ring_def)
    moreover have "j = i" using calculation room by (simp add: psk_slot_def)
    ultimately show ?thesis
      using True ring room by (intro exI [of _ i]) (auto simp: psk_ring_def psk_slot_def nth_append)
  next
    case False
    then show ?thesis
      using i ring room by (intro exI [of _ i]) (auto simp: psk_ring_def psk_slot_def nth_append)
  qed
  show ?thesis
    unfolding psk_ring_def x
    using ring room entry by (auto simp: x new psk_ring_def mod_Suc)
qed

lemma psk_ring_overwrite:
  assumes n: "0 < n" and ring: "psk_ring n items s" and full: "n \<le> length items"
  shows "psk_ring n (items @ [x]) (case x of (e, k) \<Rightarrow> psk_store_add e k s)"
proof -
  obtain e k where x: "x = (e, k)" by (cases x)
  let ?c = "(length items + 1) mod n"
  have cursor: "(psk_cursor s + 1) mod n = ?c"
    using ring by (metis psk_ring_def mod_add_left_eq)
  have new: "psk_store_add e k s = s\<lparr>psk_cursor := ?c, resumption_psk := (resumption_psk s)[?c := x]\<rparr>"
    using assms cursor by (simp add: psk_store_add_def psk_ring_def x Let_def)
  have slot: "psk_slot n (length items) = ?c" using full by (simp add: psk_slot_def)
  have entry: "\<exists>j < length (items @ [x]). psk_slot n j = i \<and>
      (resumption_psk s)[?c := x] ! i = (items @ [x]) ! j \<and>
      (\<forall>m. j < m \<longrightarrow> m < length (items @ [x]) \<longrightarrow> psk_slot n m \<noteq> i)" if i: "i < n" for i
  proof (cases "i = ?c")
    case True
    then show ?thesis
      using ring full i slot by (intro exI [of _ "length items"]) (auto simp: psk_ring_def nth_append)
  next
    case False
    obtain j where j: "j < length items" "psk_slot n j = i" "resumption_psk s ! i = items ! j"
      "\<And>m. j < m \<Longrightarrow> m < length items \<Longrightarrow> psk_slot n m \<noteq> i"
      using ring full i by (auto simp: psk_ring_def)
    have "psk_slot n m \<noteq> i" if "j < m" "m < length items + 1" for m
      using j(4) [of m] that slot False by (cases "m = length items") auto
    then show ?thesis using j False by (intro exI [of _ j]) (auto simp: nth_append)
  qed
  show ?thesis
    unfolding psk_ring_def x
    using ring full entry by (auto simp: x new psk_ring_def)
qed

lemma psk_ring_of:
  assumes "0 < n" shows "psk_ring n items (psk_store_of n items)"
proof (induction items rule: rev_induct)
  case Nil
  then show ?case by (simp add: psk_ring_def psk_store_of_def psk_store_new_def)
next
  case (snoc x items)
  have "psk_store_of n (items @ [x]) = (case x of (e, k) \<Rightarrow> psk_store_add e k (psk_store_of n items))"
    by (cases x) (simp add: psk_store_of_def)
  then show ?case
    using psk_ring_push [OF assms snoc] psk_ring_overwrite [OF assms snoc] by (metis linorder_not_le)
qed

lemma psk_slot_evicted:
  assumes "0 < n" shows "psk_slot n (evicted_at n j) = psk_slot n j"
proof -
  have "Suc (j + n) mod n = Suc j mod n" using mod_add_self2 [of "Suc j" n] by simp
  moreover have "(j + n) mod n = j" if "j < n" using that by simp
  moreover have "(2 * n - 1 + 1) mod n = 0" using assms by simp
  ultimately show ?thesis using assms by (auto simp: psk_slot_def evicted_at_def)
qed

lemma psk_slot_kept:
  assumes n: "0 < n" and m: "j < m" "m < evicted_at n j" shows "psk_slot n m \<noteq> psk_slot n j"
proof (cases "j < n")
  case True
  then have "m + 1 < n + n" using m n by (auto simp: evicted_at_def split: if_splits)
  then have "m < n \<or> (m + 1) mod n = m + 1 - n" using le_mod_geq [of n "m + 1"] by (cases "m < n") auto
  then show ?thesis
    using True m n by (auto simp: psk_slot_def evicted_at_def split: if_splits)
next
  case False
  have "(m + 1) mod n \<noteq> (j + 1) mod n"
  proof
    assume "(m + 1) mod n = (j + 1) mod n"
    then have "n dvd m - j" using m(1) mod_eq_dvd_iff_nat [of "j + 1" "m + 1" n] by simp
    moreover have "evicted_at n j = j + n" using False n by (auto simp: evicted_at_def)
    then have "0 < m - j" "m - j < n" using m by auto
    ultimately show False using nat_dvd_not_less by blast
  qed
  then show ?thesis using False m by (simp add: psk_slot_def)
qed

lemma psk_store_items:
  assumes n: "0 < n" and j: "j < length items" and d: "distinct items"
  shows "items ! j \<in> set (resumption_psk (psk_store_of n items)) \<longleftrightarrow> length items \<le> evicted_at n j"
proof -
  let ?l = "resumption_psk (psk_store_of n items)"
  have ring: "psk_ring n items (psk_store_of n items)" by (rule psk_ring_of [OF n])
  have last: "\<exists>j < length items. psk_slot n j = i \<and> ?l ! i = items ! j \<and>
      (\<forall>m. j < m \<longrightarrow> m < length items \<longrightarrow> psk_slot n m \<noteq> i)" if "i < length ?l" for i
    using ring that by (simp add: psk_ring_def)
  have slot: "psk_slot n j < length ?l"
    using ring j mod_less_divisor [OF n, of "j + 1"] by (auto simp: psk_ring_def psk_slot_def)
  show ?thesis
  proof
    assume "items ! j \<in> set ?l"
    then obtain i where i: "i < length ?l" "?l ! i = items ! j" by (metis in_set_conv_nth)
    obtain j' where j': "j' < length items" "psk_slot n j' = i" "?l ! i = items ! j'"
      "\<forall>m. j' < m \<longrightarrow> m < length items \<longrightarrow> psk_slot n m \<noteq> i"
      using last [OF i(1)] by blast
    have "j' = j" using i(2) j'(1,3) j d by (simp add: nth_eq_iff_index_eq)
    moreover have "j < evicted_at n j" using n by (auto simp: evicted_at_def)
    ultimately show "length items \<le> evicted_at n j"
      using j' psk_slot_evicted [OF n, of j] by (metis linorder_not_le)
  next
    assume le: "length items \<le> evicted_at n j"
    obtain j' where j': "j' < length items" "psk_slot n j' = psk_slot n j" "?l ! psk_slot n j = items ! j'"
      "\<forall>m. j' < m \<longrightarrow> m < length items \<longrightarrow> psk_slot n m \<noteq> psk_slot n j"
      using last [OF slot] by blast
    have "\<not> j < j'" using psk_slot_kept [OF n, of j j'] j'(1,2) le by auto
    then have "j' = j" using j'(4) j by (metis linorder_neqE_nat)
    then show "items ! j \<in> set ?l" using j'(3) slot by (metis nth_mem)
  qed
qed

lemma psk_store_subset:
  assumes "0 < n" shows "set (resumption_psk (psk_store_of n items)) \<subseteq> set items"
proof
  fix x assume "x \<in> set (resumption_psk (psk_store_of n items))"
  then obtain i where "i < length (resumption_psk (psk_store_of n items))"
    "x = resumption_psk (psk_store_of n items) ! i" by (metis in_set_conv_nth)
  then show "x \<in> set items"
    using psk_ring_of [OF assms, of items] unfolding psk_ring_def by (metis nth_mem)
qed

lemma psk_store_get_map_of: "psk_store_get s e = map_of (resumption_psk s) e"
proof -
  have "map_option snd (find (\<lambda>(e', _). e' = e) xs) = map_of xs e" for xs :: "(GroupEpoch \<times> Secret) list"
    by (induction xs) auto
  then show ?thesis by (simp add: psk_store_get_def)
qed

lemma map_of_subset_distinct:
  assumes "distinct (map fst items)" and "set xs \<subseteq> set items"
  shows "map_of xs e = Some k \<longleftrightarrow> (e, k) \<in> set xs"
  using assms by (induction xs) (auto simp: eq_key_imp_eq_value dest: map_of_SomeD)

lemma rollover_get_iff:
  assumes "0 < n" and "distinct (map fst items)"
  shows "psk_store_get (psk_store_of n items) e = Some k \<longleftrightarrow>
         (e, k) \<in> set (resumption_psk (psk_store_of n items))"
  using map_of_subset_distinct [OF assms(2) psk_store_subset [OF assms(1)]]
  by (simp add: psk_store_get_map_of)

lemma rollover_get:
  assumes "0 < n" and "distinct (map fst items)" and j: "j < length items"
  shows "psk_store_get (psk_store_of n items) (fst (items ! j)) =
           (if length items \<le> evicted_at n j then Some (snd (items ! j)) else None)"
proof -
  let ?l = "resumption_psk (psk_store_of n items)"
  have iff: "items ! j \<in> set ?l \<longleftrightarrow> length items \<le> evicted_at n j"
    using psk_store_items [OF assms(1) j] assms(2) by (simp add: distinct_map)
  have "(fst (items ! j), k) \<in> set items \<longleftrightarrow> k = snd (items ! j)" for k
    using nth_mem [OF j] eq_key_imp_eq_value [OF assms(2), of "fst (items ! j)" k "snd (items ! j)"] by auto
  then have "(fst (items ! j), k) \<in> set ?l \<longleftrightarrow> k = snd (items ! j) \<and> items ! j \<in> set ?l" for k
    using psk_store_subset [OF assms(1), of items] by auto
  then have "\<forall>k. psk_store_get (psk_store_of n items) (fst (items ! j)) = Some k \<longleftrightarrow>
      k = snd (items ! j) \<and> length items \<le> evicted_at n j"
    using iff rollover_get_iff [OF assms(1,2), of "fst (items ! j)"] by blast
  then show ?thesis by (cases "psk_store_get (psk_store_of n items) (fst (items ! j))") auto
qed

text \<open>
  C29: The rollover list of resumption keys.  After any sequence of additions with different epochs
  to a new list for \<open>n > 0\<close> keys, looking up the epoch of the \<open>j\<close>-th addition gives its key exactly
  until the addition number \<open>evicted_at n j\<close> and nothing afterwards, an epoch that was never added
  gives nothing, and never more than \<open>n\<close> keys are held.  So the \<open>n - 1\<close> last keys are always found.
\<close>

theorem resumption_psk_rollover:
  assumes "0 < n" and "distinct (map fst items)"
  shows "(\<forall>j < length items. psk_store_get (psk_store_of n items) (fst (items ! j)) =
            (if length items \<le> evicted_at n j then Some (snd (items ! j)) else None)) \<and>
         (\<forall>e. e \<notin> fst ` set items \<longrightarrow> psk_store_get (psk_store_of n items) e = None) \<and>
         length (resumption_psk (psk_store_of n items)) \<le> n \<and>
         (\<forall>j. length items < j + n \<longrightarrow> length items \<le> evicted_at n j)"
proof -
  have "psk_store_get (psk_store_of n items) e = None" if "e \<notin> fst ` set items" for e
    using that rollover_get_iff [OF assms, of e] psk_store_subset [OF assms(1), of items]
    by (cases "psk_store_get (psk_store_of n items) e") force+
  moreover have "length (resumption_psk (psk_store_of n items)) \<le> n"
    using psk_ring_of [OF assms(1), of items] by (simp add: psk_ring_def)
  moreover have "length items \<le> evicted_at n j" if "length items < j + n" for j
    using that by (auto simp: evicted_at_def)
  ultimately show ?thesis using rollover_get [OF assms] by blast
qed

theorem resumption_psk_rollover_witness:
  "psk_store_get (psk_store_of 3 [(0, Secret [7]), (1, Secret [8]), (2, Secret [9]), (3, Secret [6])]) 2 =
     Some (Secret [9])"
proof -
  let ?items = "[(0, Secret [7]), (1, Secret [8]), (2, Secret [9]), (3, Secret [6])] :: (GroupEpoch \<times> Secret) list"
  have "distinct (map fst ?items)" by simp
  from conjunct1 [OF resumption_psk_rollover [OF _ this, of 3], rule_format, of 2]
  show ?thesis by (simp add: evicted_at_def)
qed

text \<open>
  The list does not roll over from the oldest key: the first key that a full list of at least two
  keys gives up is the second one that was added, and the first one stays for almost another round.
\<close>

theorem rollover_skips_oldest:
  assumes n: "2 \<le> n" and d: "distinct (map fst items)" and full: "length items = n + 1"
  shows "psk_store_get (psk_store_of n items) (fst (items ! 0)) = Some (snd (items ! 0)) \<and>
         psk_store_get (psk_store_of n items) (fst (items ! 1)) = None"
proof -
  have pos: "0 < n" using n by simp
  show ?thesis
    using rollover_get [OF pos d, of 0] rollover_get [OF pos d, of 1] n full by (simp add: evicted_at_def)
qed
section \<open>Keys of a Welcome\<close>

text \<open>Resumption keys of the usage \<open>application\<close>, and those of a parent or predecessor group.\<close>

definition own_resumption :: "PreSharedKeyId \<Rightarrow> bool" where
  "own_resumption pid \<longleftrightarrow> (case psk pid of PskResumption r \<Rightarrow> usage r = UsageApplication | _ \<Rightarrow> False)"

definition foreign_resumption :: "PreSharedKeyId \<Rightarrow> bool" where
  "foreign_resumption pid \<longleftrightarrow> (case psk pid of PskResumption r \<Rightarrow> usage r \<noteq> UsageApplication | _ \<Rightarrow> False)"

definition resumption_usage :: "PreSharedKeyId \<Rightarrow> ResumptionPskUsage" where
  "resumption_usage pid = (case psk pid of PskResumption r \<Rightarrow> usage r | _ \<Rightarrow> UsageApplication)"

lemma welcome_usage_Inr:
  "welcome_usage seen (psk pid) = Inr seen' \<longleftrightarrow>
     \<not> own_resumption pid \<and> (foreign_resumption pid \<longrightarrow> seen = None) \<and>
     seen' = (if foreign_resumption pid then Some (resumption_usage pid) else seen)"
  by (auto simp: welcome_usage_def own_resumption_def foreign_resumption_def resumption_usage_def
      split: Psk.splits ResumptionPskUsage.splits option.splits if_splits)

lemma validate_nonce_Inr: "validate_nonce pid cs = Inr () \<longleftrightarrow> length (psk_nonce pid) = hash_length cs"
  by (auto simp: validate_nonce_def Let_def)

lemma validate_loop_iff:
  "validate_loop cs seen ids = Inr () \<longleftrightarrow>
     (\<forall>pid \<in> set ids. length (psk_nonce pid) = hash_length cs \<and> \<not> own_resumption pid) \<and>
     length (filter foreign_resumption ids) + (if seen = None then 0 else 1) \<le> 1"
  by (induction ids arbitrary: seen)
    (auto simp: outcome_simps welcome_usage_Inr validate_nonce_Inr split: if_splits)

text \<open>
  C30: The keys named in a Welcome.  The list of identifiers is accepted if and only if every nonce
  has the length of the hash of the ciphersuite, no identifier is a resumption key of the usage
  \<open>application\<close>, and at most one is a resumption key at all; every other list is rejected with an
  error, and the check never panics.
\<close>

theorem welcome_psks_accepted_iff:
  "(validate_in_welcome ids cs = Inr () \<longleftrightarrow>
      (\<forall>pid \<in> set ids. length (psk_nonce pid) = hash_length cs \<and> \<not> own_resumption pid) \<and>
      length (filter foreign_resumption ids) \<le> 1) \<and>
   (\<forall>f. validate_in_welcome ids cs = Inl f \<longrightarrow> (\<exists>e. f = Throws e))"
proof -
  have "\<exists>e. f = Throws e" if "validate_loop cs seen ids = Inl f" for f seen
    using that
    by (induction ids arbitrary: seen)
      (auto simp: outcome_simps welcome_usage_def validate_nonce_def Let_def
        split: if_splits Psk.splits ResumptionPskUsage.splits option.splits)
  then show ?thesis by (simp add: validate_in_welcome_def validate_loop_iff)
qed

theorem welcome_psks_accepted_iff_witness:
  "validate_in_welcome [psk_id_resumption UsageBranch [1] 5 (replicate 32 0), psk_id_external [2] (replicate 32 1)]
     suite1 = Inr ()"
  using welcome_psks_accepted_iff [of "[psk_id_resumption UsageBranch [1] 5 (replicate 32 0), psk_id_external [2] (replicate 32 1)]"
      suite1]
  by (simp add: psk_id_resumption_def psk_id_external_def own_resumption_def foreign_resumption_def
      resumption_psk_new_def hash_length_def hash_algorithm_def algorithms_case)

section \<open>Loaded keys\<close>

text \<open>Where the key of an identifier comes from.\<close>

definition psk_source ::
  "(Psk \<Rightarrow> (PskBundle option, 'e) outcome) \<Rightarrow> ResumptionPskStore \<Rightarrow> GroupId option \<Rightarrow>
   (PreSharedKeyId \<times> Secret) option \<Rightarrow> PreSharedKeyId \<Rightarrow> Secret \<Rightarrow> bool" where
  "psk_source storage_psk store group_id foreign pid key \<longleftrightarrow>
     (case psk pid of
        PskResumption r \<Rightarrow>
          if usage r = UsageApplication
          then group_id = Some (psk_group_id r) \<and> psk_store_get store (psk_epoch r) = Some key
          else foreign = Some (pid, key)
      | _ \<Rightarrow> storage_psk (psk pid) = Inr (Some (PskBundle key)))"

lemma load_psk_Inr:
  "load_psk storage_psk store gid foreign pid = Inr (key, foreign') \<longleftrightarrow>
     psk_source storage_psk store gid foreign pid key \<and>
     foreign' = (if foreign_resumption pid then None else foreign)"
  by (auto simp: load_psk_def psk_source_def foreign_resumption_def outcome_simps
      split: Psk.splits ResumptionPskUsage.splits option.splits if_splits)

lemma psk_source_foreign:
  "psk_source storage_psk store gid None pid key \<longleftrightarrow>
     psk_source storage_psk store gid foreign pid key \<and> \<not> foreign_resumption pid"
  by (auto simp: psk_source_def foreign_resumption_def split: Psk.splits)

lemma load_psks_Inr:
  "load_psks storage_psk store gid foreign ids = Inr loaded \<longleftrightarrow>
     map fst loaded = ids \<and>
     (\<forall>(pid, key) \<in> set loaded. psk_source storage_psk store gid foreign pid key) \<and>
     length (filter foreign_resumption ids) \<le> 1"
proof (induction ids arbitrary: foreign loaded)
  case (Cons pid ids)
  show ?case
  proof (cases loaded)
    case (Cons x rest)
    obtain q key where x: "x = (q, key)" by (cases x)
    have none: "(\<forall>(p, k) \<in> set rest. psk_source storage_psk store gid None p k) \<longleftrightarrow>
        (\<forall>(p, k) \<in> set rest. psk_source storage_psk store gid foreign p k) \<and> filter foreign_resumption (map fst rest) = []"
      by (auto simp: psk_source_foreign [of _ _ _ _ _ foreign] filter_empty_conv)
    show ?thesis
      using none by (auto simp: Cons x outcome_simps load_psk_Inr Cons.IH split: if_splits)
  qed (auto simp: outcome_simps)
qed auto

lemma load_psk_Inl:
  assumes "\<And>p f. storage_psk p = Inl f \<Longrightarrow> \<exists>e. f = Throws e" and "\<not> own_resumption pid"
    and "load_psk storage_psk store gid foreign pid = Inl f"
  shows "f = Throws KeyNotFound"
  using assms(2,3) assms(1) [of "psk pid"]
  by (auto simp: load_psk_def own_resumption_def outcome_simps
      split: Psk.splits ResumptionPskUsage.splits option.splits if_splits)

lemma load_psks_Inl:
  assumes "\<And>p f. storage_psk p = Inl f \<Longrightarrow> \<exists>e. f = Throws e" and "\<forall>pid \<in> set ids. \<not> own_resumption pid"
    and "load_psks storage_psk store gid foreign ids = Inl f"
  shows "f = Throws KeyNotFound"
  using assms(2,3)
proof (induction ids arbitrary: foreign)
  case (Cons pid ids)
  then show ?case
    using load_psk_Inl [of storage_psk pid store gid foreign f] assms(1) by (auto simp: outcome_simps split: prod.splits)
qed simp

text \<open>
  C31: Loading keys.  The keys of a list of identifiers are loaded if and only if each has a source
  (the rollover list for a resumption key of this group, the key handed over for one of a parent
  or predecessor group, storage for any other) and the handed-over key is asked for at most once;
  the result has the identifiers in their order, each with the key of its source.  For a list that
  was accepted in a Welcome, loading without a group fails with nothing but \<open>KeyNotFound\<close>, provided
  that the storage itself only returns errors.
\<close>

theorem load_psks_correct:
  "(load_psks storage_psk store gid foreign ids = Inr loaded \<longleftrightarrow>
      map fst loaded = ids \<and>
      (\<forall>(pid, key) \<in> set loaded. psk_source storage_psk store gid foreign pid key) \<and>
      length (filter foreign_resumption ids) \<le> 1) \<and>
   (validate_in_welcome ids cs = Inr () \<longrightarrow> (\<forall>p f. storage_psk p = Inl f \<longrightarrow> (\<exists>e. f = Throws e)) \<longrightarrow>
      (\<forall>f. load_psks storage_psk store None foreign ids = Inl f \<longrightarrow> f = Throws KeyNotFound))"
proof (intro conjI impI allI)
  fix f
  assume "validate_in_welcome ids cs = Inr ()" "\<forall>p f. storage_psk p = Inl f \<longrightarrow> (\<exists>e. f = Throws e)"
    and "load_psks storage_psk store None foreign ids = Inl f"
  then show "f = Throws KeyNotFound"
    using load_psks_Inl [of storage_psk ids store None foreign f]
    by (auto simp: validate_in_welcome_def validate_loop_iff)
qed (rule load_psks_Inr)

definition sample_storage :: "Psk \<Rightarrow> (PskBundle option, unit) outcome" where
  "sample_storage p = (if p = PskExternal (ExternalPsk [2]) then Inr (Some (PskBundle (Secret [3]))) else Inr None)"

definition sample_ids :: "PreSharedKeyId list" where
  "sample_ids = [psk_id_resumption UsageBranch [1] 5 (replicate 32 0), psk_id_external [2] (replicate 32 1)]"

lemmas sample_psk_defs = sample_ids_def psk_id_resumption_def psk_id_external_def own_resumption_def
  foreign_resumption_def resumption_psk_new_def

theorem load_psks_correct_witness:
  "load_psks sample_storage (psk_store_new 0) None (Some (hd sample_ids, Secret [4])) sample_ids =
     Inr (zip sample_ids [Secret [4], Secret [3]]) \<and>
   load_psks sample_storage (psk_store_new 0) None None sample_ids = throw KeyNotFound"
proof
  show "load_psks sample_storage (psk_store_new 0) None (Some (hd sample_ids, Secret [4])) sample_ids =
     Inr (zip sample_ids [Secret [4], Secret [3]])"
    by (subst load_psks_correct [THEN conjunct1]) (simp add: sample_psk_defs sample_storage_def psk_source_def)
  have valid: "validate_in_welcome sample_ids suite1 = Inr ()"
    unfolding validate_in_welcome_def validate_loop_iff
    by (simp add: sample_psk_defs hash_length_def hash_algorithm_def algorithms_case)
  have only_errors: "\<And>p f. sample_storage p = Inl f \<Longrightarrow> \<exists>e. f = Throws e"
    by (simp add: sample_storage_def split: if_splits)
  have key_not_found: "f = Throws KeyNotFound"
    if "load_psks sample_storage (psk_store_new 0) None None sample_ids = Inl f" for f
    by (rule load_psks_correct [THEN conjunct2, rule_format, OF valid only_errors that])
  have "load_psks sample_storage (psk_store_new 0) None None sample_ids \<noteq> Inr loaded" for loaded
    by (subst load_psks_correct [THEN conjunct1]) (auto simp: sample_psk_defs psk_source_def)
  then show "load_psks sample_storage (psk_store_new 0) None None sample_ids = throw KeyNotFound"
    using key_not_found by (cases "load_psks sample_storage (psk_store_new 0) None None sample_ids") auto
qed

section \<open>The secret of a list of keys as the standard defines it\<close>

text \<open>
  RFC 9420, section 8.4: every key is extracted and expanded under its label to an input, and the
  inputs are chained by extraction from the all-zero secret.  \<open>None\<close> is a failure of the backend
  or of the encoding.
\<close>

definition succeeded :: "('a, 'e) outcome \<Rightarrow> 'a option" where
  "succeeded r = (case r of Inl _ \<Rightarrow> None | Inr x \<Rightarrow> Some x)"

definition rfc_psk_input ::
  "OpenMlsCrypto \<Rightarrow> psk_label_codec \<Rightarrow> Ciphersuite \<Rightarrow> (PreSharedKeyId \<times> Secret) list \<Rightarrow> nat \<Rightarrow> Secret option" where
  "rfc_psk_input crypto tls_label cs psks i =
     Option.bind (succeeded (hkdf_extract crypto cs (secret_zero cs) (Some (snd (psks ! i))))) (\<lambda>extracted.
     Option.bind (tls_label (fst (psks ! i)) (of_nat i) (of_nat (length psks))) (\<lambda>label.
     succeeded (kdf_expand_label crypto cs extracted ''derived psk'' label (hash_length cs))))"

primrec rfc_psk_secret ::
  "OpenMlsCrypto \<Rightarrow> psk_label_codec \<Rightarrow> Ciphersuite \<Rightarrow> (PreSharedKeyId \<times> Secret) list \<Rightarrow> nat \<Rightarrow> Secret option" where
  "rfc_psk_secret crypto tls_label cs psks 0 = Some (secret_zero cs)"
| "rfc_psk_secret crypto tls_label cs psks (Suc i) =
     Option.bind (rfc_psk_secret crypto tls_label cs psks i) (\<lambda>chained.
     Option.bind (rfc_psk_input crypto tls_label cs psks i) (\<lambda>inp.
     succeeded (hkdf_extract crypto cs inp (Some chained))))"

lemma succeeded_Some [outcome_simps]: "succeeded r = Some x \<longleftrightarrow> r = Inr x"
  by (simp add: succeeded_def split: sum.splits)

lemma Throws_map_fault: "Throws e = map_fault h f \<longleftrightarrow> (\<exists>e'. f = Throws e' \<and> e = h e')"
  by (cases f) auto

lemma psk_loop_snoc:
  "psk_loop crypto tls_label cs m (items @ [item]) s =
     and_then (psk_loop crypto tls_label cs m items s) (psk_step crypto tls_label cs m item)"
proof (induction items arbitrary: s)
  case Nil
  then show ?case by (cases "psk_step crypto tls_label cs m item s") simp_all
next
  case (Cons x items)
  then show ?case by (cases "psk_step crypto tls_label cs m x s") simp_all
qed

lemma psk_loop_rfc:
  assumes "i \<le> length psks"
  shows "psk_loop crypto tls_label cs (of_nat (length psks)) (List.enumerate 0 (take i psks)) (secret_zero cs) = Inr s \<longleftrightarrow>
         rfc_psk_secret crypto tls_label cs psks i = Some s"
  using assms
proof (induction i arbitrary: s)
  case (Suc i)
  have "List.enumerate 0 (take (Suc i) psks) = List.enumerate 0 (take i psks) @ [(i, psks ! i)]"
    using Suc.prems by (simp add: take_Suc_conv_app_nth enumerate_append_eq)
  then show ?case
    using Suc
    by (cases "psks ! i")
      (auto simp: psk_loop_snoc psk_step_def rfc_psk_input_def outcome_simps bind_eq_Some_conv)
qed auto

text \<open>
  C32: The secret of a list of keys.  The loop of the code computes exactly the chain that the
  standard defines by recursion on the number of keys, with every key under its own index and the
  number of keys, none of which is cut off; more than 65535 keys, and only those, are rejected as
  too many before anything is derived.
\<close>

theorem psk_secret_is_rfc_chain:
  "(psk_secret_new crypto tls_label cs psks = Inr (PskSecret s) \<longleftrightarrow>
      length psks \<le> 65535 \<and> rfc_psk_secret crypto tls_label cs psks (length psks) = Some s) \<and>
   (psk_secret_new crypto tls_label cs psks = throw TooManyKeys \<longleftrightarrow> 65535 < length psks) \<and>
   (length psks \<le> 65535 \<longrightarrow> (\<forall>i < length psks. unat (of_nat i :: u16) = i) \<and>
      unat (of_nat (length psks) :: u16) = length psks)"
proof -
  have step: "psk_step crypto tls_label cs m item z \<noteq> throw TooManyKeys" for m item z
    by (auto simp: psk_step_def outcome_simps Throws_map_fault split: prod.splits)
  have "psk_loop crypto tls_label cs m items z \<noteq> throw TooManyKeys" for m items z
    using step by (induction items arbitrary: z) (auto simp: outcome_simps)
  moreover have "unat (of_nat i :: u16) = i" if "i \<le> 65535" for i
    using that by (simp add: unat_of_nat)
  ultimately show ?thesis
    using psk_loop_rfc [of "length psks" psks crypto tls_label cs s]
    by (auto simp: psk_secret_new_def outcome_simps Let_def)
qed

theorem psk_secret_is_rfc_chain_witness:
  "unat (of_nat 2 :: u16) = 2 \<and> psk_secret_new toy_crypto (\<lambda>_ _ _. Some [1]) suite1 [] = Inr (PskSecret (secret_zero suite1))"
  using psk_secret_is_rfc_chain [of toy_crypto "\<lambda>_ _ _. Some [1]" suite1 "[]" "secret_zero suite1"]
    psk_secret_is_rfc_chain [of toy_crypto "\<lambda>_ _ _. Some [1]" suite1
      "[(psk_id_external [1] [], Secret []), (psk_id_external [2] [], Secret [])]"]
  by simp
end
