(* ===== verification/KeySchedule.thy ===== *)
theory KeySchedule
  imports PreSharedKeys SecretTree StepSystem
begin

text \<open>
  The key schedule of an epoch (\<^verbatim>\<open>schedule/mod.rs\<close>, \<^verbatim>\<open>schedule/message_secrets.rs\<close>): the secrets that
  link the epochs, the state machine that derives the secrets of an epoch, and what is derived
  from each of them.  The newtypes around \<^verbatim>\<open>Secret\<close> are type synonyms.  The feature
  \<^verbatim>\<open>extensions-draft\<close> is the flag \<open>ext\<close>; the HPKE operations and the hash of the backend are the
  fields of the record \<open>OpenMlsHpke\<close>.
\<close>

section \<open>Secrets that link the epochs\<close>

type_synonym HpkeConfig = "HpkeKemType \<times> HpkeKdfType \<times> HpkeAeadType"

record HpkeKeyPair =
  hpke_private :: bytes
  hpke_public :: bytes

record OpenMlsHpke =
  crypto_hash :: "HashType \<Rightarrow> bytes \<Rightarrow> CryptoError + bytes"
  crypto_derive_hpke_keypair :: "HpkeConfig \<Rightarrow> bytes \<Rightarrow> CryptoError + HpkeKeyPair"
  hpke_setup_sender_and_export :: "HpkeConfig \<Rightarrow> bytes \<Rightarrow> bytes \<Rightarrow> bytes \<Rightarrow> nat \<Rightarrow> CryptoError + bytes \<times> bytes"
  hpke_setup_receiver_and_export :: "HpkeConfig \<Rightarrow> bytes \<Rightarrow> bytes \<Rightarrow> bytes \<Rightarrow> bytes \<Rightarrow> nat \<Rightarrow> CryptoError + bytes"

text \<open>
  Documented behaviour: the receiver's export with the private key of a derived key pair gives what
  the sender exported with the public key, for the same info, context and length.
\<close>

definition hpke_export_agrees :: "OpenMlsHpke \<Rightarrow> bool" where
  "hpke_export_agrees hpke \<longleftrightarrow>
     (\<forall>config ikm kp info context len kem s.
        crypto_derive_hpke_keypair hpke config ikm = Inr kp \<longrightarrow>
        hpke_setup_sender_and_export hpke config (hpke_public kp) info context len = Inr (kem, s) \<longrightarrow>
        hpke_setup_receiver_and_export hpke config kem (hpke_private kp) info context len = Inr s)"

type_synonym CommitSecret = Secret
type_synonym InitSecret = Secret
type_synonym JoinerSecret = Secret
type_synonym IntermediateSecret = Secret
type_synonym WelcomeSecret = Secret
type_synonym EpochSecret = Secret
type_synonym EncryptionSecret = Secret
type_synonym ExporterSecret = Secret
type_synonym ApplicationExportSecret = Secret
type_synonym ExternalSecret = Secret
type_synonym ConfirmationKey = Secret
type_synonym MembershipKey = Secret
type_synonym SenderDataSecret = Secret
type_synonym ResumptionPskSecret = Secret
type_synonym EpochAuthenticator = Secret

datatype ErrorState = ErrorInit | ErrorContext

datatype KeyScheduleError =
    KsLibraryError LibraryError
  | InvalidState ErrorState
  | KsCryptoError CryptoError

definition commit_secret_zero :: "Ciphersuite \<Rightarrow> CommitSecret" where
  "commit_secret_zero cs = secret_zero cs"

definition hpke_info_from_version :: "ProtocolVersion \<Rightarrow> string" where
  "hpke_info_from_version version =
     (case version of
        Mls10 \<Rightarrow> ''MLS 1.0 external init secret''
      | _ \<Rightarrow> ''<OpenMLS reserved; Don't use this.>'')"

definition init_secret_new :: "OpenMlsCrypto \<Rightarrow> Ciphersuite \<Rightarrow> EpochSecret \<Rightarrow> (InitSecret, CryptoError) outcome" where
  "init_secret_new crypto cs epoch_secret = derive_secret crypto cs epoch_secret ''init''"

text \<open>Of the group context, the ciphersuite and the protocol version are used.\<close>

definition init_secret_from_group_context ::
  "OpenMlsHpke \<Rightarrow> Ciphersuite \<Rightarrow> ProtocolVersion \<Rightarrow> bytes \<Rightarrow> (InitSecret \<times> bytes, KeyScheduleError) outcome" where
  "init_secret_from_group_context hpke cs version external_pub =
     and_then (map_err KsCryptoError (backend (hpke_setup_sender_and_export hpke (hpke_config cs) external_pub []
         (str_bytes (hpke_info_from_version version)) (hash_length cs))))
       (\<lambda>(kem_output, raw_init_secret). Inr (Secret raw_init_secret, kem_output))"

definition init_secret_from_kem_output ::
  "OpenMlsHpke \<Rightarrow> Ciphersuite \<Rightarrow> ProtocolVersion \<Rightarrow> bytes \<Rightarrow> bytes \<Rightarrow> (InitSecret, LibraryError) outcome" where
  "init_secret_from_kem_output hpke cs version external_priv kem_output =
     and_then (map_err LibCryptoError (backend (hpke_setup_receiver_and_export hpke (hpke_config cs) kem_output
         external_priv [] (str_bytes (hpke_info_from_version version)) (hash_length cs))))
       (\<lambda>raw_init_secret. Inr (Secret raw_init_secret))"

definition joiner_secret_new ::
  "OpenMlsCrypto \<Rightarrow> Ciphersuite \<Rightarrow> CommitSecret option \<Rightarrow> InitSecret \<Rightarrow> bytes \<Rightarrow> (JoinerSecret, CryptoError) outcome" where
  "joiner_secret_new crypto cs commit_secret_option init_secret serialized_group_context =
     and_then (hkdf_extract crypto cs init_secret commit_secret_option) (\<lambda>intermediate_secret.
       kdf_expand_label crypto cs intermediate_secret ''joiner'' serialized_group_context (hash_length cs))"

definition intermediate_secret_new ::
  "OpenMlsCrypto \<Rightarrow> Ciphersuite \<Rightarrow> JoinerSecret \<Rightarrow> PskSecret \<Rightarrow> (IntermediateSecret, CryptoError) outcome" where
  "intermediate_secret_new crypto cs joiner_secret ps =
     hkdf_extract crypto cs joiner_secret (Some (psk_secret_value ps))"

section \<open>The secrets of an epoch\<close>

definition welcome_secret_new ::
  "OpenMlsCrypto \<Rightarrow> Ciphersuite \<Rightarrow> IntermediateSecret \<Rightarrow> (WelcomeSecret, CryptoError) outcome" where
  "welcome_secret_new crypto cs intermediate_secret = derive_secret crypto cs intermediate_secret ''welcome''"

definition welcome_derive_aead_key ::
  "OpenMlsCrypto \<Rightarrow> Ciphersuite \<Rightarrow> WelcomeSecret \<Rightarrow> (AeadKey, CryptoError) outcome" where
  "welcome_derive_aead_key crypto cs self =
     and_then (kdf_expand_label crypto cs self ''key'' [] (aead_key_length cs))
       (\<lambda>aead_secret. Inr (aead_key_from_secret aead_secret cs))"

definition welcome_derive_aead_nonce ::
  "OpenMlsCrypto \<Rightarrow> Ciphersuite \<Rightarrow> WelcomeSecret \<Rightarrow> (AeadNonce, CryptoError) outcome" where
  "welcome_derive_aead_nonce crypto cs self =
     and_then (kdf_expand_label crypto cs self ''nonce'' [] (aead_nonce_length cs)) aead_nonce_from_secret"

definition derive_welcome_key_nonce ::
  "OpenMlsCrypto \<Rightarrow> Ciphersuite \<Rightarrow> WelcomeSecret \<Rightarrow> (AeadKey \<times> AeadNonce, CryptoError) outcome" where
  "derive_welcome_key_nonce crypto cs self =
     and_then (welcome_derive_aead_nonce crypto cs self) (\<lambda>welcome_nonce.
     and_then (welcome_derive_aead_key crypto cs self) (\<lambda>welcome_key.
       Inr (welcome_key, welcome_nonce)))"

definition epoch_secret_new ::
  "Ciphersuite \<Rightarrow> OpenMlsCrypto \<Rightarrow> IntermediateSecret \<Rightarrow> bytes \<Rightarrow> (EpochSecret, CryptoError) outcome" where
  "epoch_secret_new cs crypto intermediate_secret serialized_group_context =
     kdf_expand_label crypto cs intermediate_secret ''epoch'' serialized_group_context (hash_length cs)"

definition encryption_secret_new ::
  "OpenMlsCrypto \<Rightarrow> Ciphersuite \<Rightarrow> EpochSecret \<Rightarrow> (EncryptionSecret, CryptoError) outcome" where
  "encryption_secret_new crypto cs epoch_secret = derive_secret crypto cs epoch_secret ''encryption''"

definition create_secret_tree :: "EncryptionSecret \<Rightarrow> TreeSize \<Rightarrow> LeafNodeIndex \<Rightarrow> SecretTree" where
  "create_secret_tree self treesize own = secret_tree_new self treesize own"

definition exporter_secret_new ::
  "OpenMlsCrypto \<Rightarrow> Ciphersuite \<Rightarrow> EpochSecret \<Rightarrow> (ExporterSecret, CryptoError) outcome" where
  "exporter_secret_new crypto cs epoch_secret = derive_secret crypto cs epoch_secret ''exporter''"

definition derive_exported_secret ::
  "OpenMlsHpke \<Rightarrow> OpenMlsCrypto \<Rightarrow> Ciphersuite \<Rightarrow> ExporterSecret \<Rightarrow> string \<Rightarrow> bytes \<Rightarrow> nat \<Rightarrow> (Secret, CryptoError) outcome" where
  "derive_exported_secret hpke crypto cs self label context key_length =
     and_then (backend (crypto_hash hpke (hash_algorithm cs) context)) (\<lambda>context_hash.
     and_then (derive_secret crypto cs self label) (\<lambda>s.
       kdf_expand_label crypto cs s ''exported'' context_hash key_length))"

definition application_export_secret_new ::
  "OpenMlsCrypto \<Rightarrow> Ciphersuite \<Rightarrow> EpochSecret \<Rightarrow> (ApplicationExportSecret, CryptoError) outcome" where
  "application_export_secret_new crypto cs epoch_secret = derive_secret crypto cs epoch_secret ''application_export''"

definition external_secret_new ::
  "OpenMlsCrypto \<Rightarrow> Ciphersuite \<Rightarrow> EpochSecret \<Rightarrow> (ExternalSecret, CryptoError) outcome" where
  "external_secret_new crypto cs epoch_secret = derive_secret crypto cs epoch_secret ''external''"

definition derive_external_keypair ::
  "OpenMlsHpke \<Rightarrow> Ciphersuite \<Rightarrow> ExternalSecret \<Rightarrow> (HpkeKeyPair, CryptoError) outcome" where
  "derive_external_keypair hpke cs self = backend (crypto_derive_hpke_keypair hpke (hpke_config cs) (secret_value self))"

definition confirmation_key_new ::
  "OpenMlsCrypto \<Rightarrow> Ciphersuite \<Rightarrow> EpochSecret \<Rightarrow> (ConfirmationKey, CryptoError) outcome" where
  "confirmation_key_new crypto cs epoch_secret = derive_secret crypto cs epoch_secret ''confirm''"

definition confirmation_tag ::
  "OpenMlsCrypto \<Rightarrow> Ciphersuite \<Rightarrow> ConfirmationKey \<Rightarrow> bytes \<Rightarrow> (Mac, CryptoError) outcome" where
  "confirmation_tag crypto cs self confirmed_transcript_hash = mac_new crypto cs self confirmed_transcript_hash"

definition membership_key_new ::
  "OpenMlsCrypto \<Rightarrow> Ciphersuite \<Rightarrow> EpochSecret \<Rightarrow> (MembershipKey, CryptoError) outcome" where
  "membership_key_new crypto cs epoch_secret = derive_secret crypto cs epoch_secret ''membership''"

text \<open>\<open>tbm_payload\<close> is the derived TLS encoding of the content to be tagged.\<close>

definition tag_message ::
  "OpenMlsCrypto \<Rightarrow> Ciphersuite \<Rightarrow> MembershipKey \<Rightarrow> bytes option \<Rightarrow> (Mac, LibraryError) outcome" where
  "tag_message crypto cs self tbm_payload =
     and_then (ok_or tbm_payload LibMissingBoundsCheck) (\<lambda>payload.
       map_err LibCryptoError (mac_new crypto cs self payload))"

definition ciphertext_sample :: "Ciphersuite \<Rightarrow> bytes \<Rightarrow> bytes" where
  "ciphertext_sample cs ciphertext =
     (let sample_length = hash_length cs in
      if length ciphertext \<le> sample_length then ciphertext else take sample_length ciphertext)"

definition sender_data_secret_new ::
  "OpenMlsCrypto \<Rightarrow> Ciphersuite \<Rightarrow> EpochSecret \<Rightarrow> (SenderDataSecret, CryptoError) outcome" where
  "sender_data_secret_new crypto cs epoch_secret = derive_secret crypto cs epoch_secret ''sender data''"

definition sender_data_aead_key ::
  "OpenMlsCrypto \<Rightarrow> Ciphersuite \<Rightarrow> SenderDataSecret \<Rightarrow> bytes \<Rightarrow> (AeadKey, CryptoError) outcome" where
  "sender_data_aead_key crypto cs self ciphertext =
     and_then (kdf_expand_label crypto cs self ''key'' (ciphertext_sample cs ciphertext) (aead_key_length cs))
       (\<lambda>s. Inr (aead_key_from_secret s cs))"

definition sender_data_aead_nonce ::
  "OpenMlsCrypto \<Rightarrow> Ciphersuite \<Rightarrow> SenderDataSecret \<Rightarrow> bytes \<Rightarrow> (AeadNonce, CryptoError) outcome" where
  "sender_data_aead_nonce crypto cs self ciphertext =
     and_then (kdf_expand_label crypto cs self ''nonce'' (ciphertext_sample cs ciphertext) (aead_nonce_length cs))
       aead_nonce_from_secret"

definition resumption_psk_secret_new ::
  "OpenMlsCrypto \<Rightarrow> Ciphersuite \<Rightarrow> EpochSecret \<Rightarrow> (ResumptionPskSecret, CryptoError) outcome" where
  "resumption_psk_secret_new crypto cs epoch_secret = derive_secret crypto cs epoch_secret ''resumption''"

definition epoch_authenticator_new ::
  "OpenMlsCrypto \<Rightarrow> Ciphersuite \<Rightarrow> EpochSecret \<Rightarrow> (EpochAuthenticator, CryptoError) outcome" where
  "epoch_authenticator_new crypto cs epoch_secret = derive_secret crypto cs epoch_secret ''authentication''"

record EpochSecrets =
  es_init_secret :: InitSecret
  es_sender_data_secret :: SenderDataSecret
  es_encryption_secret :: EncryptionSecret
  es_exporter_secret :: ExporterSecret
  es_epoch_authenticator :: EpochAuthenticator
  es_external_secret :: ExternalSecret
  es_confirmation_key :: ConfirmationKey
  es_membership_key :: MembershipKey
  es_resumption_psk :: ResumptionPskSecret

definition epoch_secrets_new ::
  "OpenMlsCrypto \<Rightarrow> Ciphersuite \<Rightarrow> EpochSecret \<Rightarrow> (EpochSecrets, CryptoError) outcome" where
  "epoch_secrets_new crypto cs epoch_secret =
     and_then (sender_data_secret_new crypto cs epoch_secret) (\<lambda>sender_data_secret.
     and_then (encryption_secret_new crypto cs epoch_secret) (\<lambda>encryption_secret.
     and_then (exporter_secret_new crypto cs epoch_secret) (\<lambda>exporter_secret.
     and_then (epoch_authenticator_new crypto cs epoch_secret) (\<lambda>epoch_authenticator.
     and_then (external_secret_new crypto cs epoch_secret) (\<lambda>external_secret.
     and_then (confirmation_key_new crypto cs epoch_secret) (\<lambda>confirmation_key.
     and_then (membership_key_new crypto cs epoch_secret) (\<lambda>membership_key.
     and_then (resumption_psk_secret_new crypto cs epoch_secret) (\<lambda>resumption.
     and_then (init_secret_new crypto cs epoch_secret) (\<lambda>init_secret.
       Inr \<lparr>es_init_secret = init_secret, es_sender_data_secret = sender_data_secret,
         es_encryption_secret = encryption_secret, es_exporter_secret = exporter_secret,
         es_epoch_authenticator = epoch_authenticator, es_external_secret = external_secret,
         es_confirmation_key = confirmation_key, es_membership_key = membership_key,
         es_resumption_psk = resumption\<rparr>)))))))))"

definition epoch_secrets_with_init_secret ::
  "OpenMlsCrypto \<Rightarrow> Ciphersuite \<Rightarrow> InitSecret \<Rightarrow> (EpochSecrets, CryptoError) outcome" where
  "epoch_secrets_with_init_secret crypto cs init_secret =
     and_then (epoch_secrets_new crypto cs (secret_zero cs)) (\<lambda>epoch_secrets.
       Inr (epoch_secrets\<lparr>es_init_secret := init_secret\<rparr>))"

definition epoch_secrets_from_epoch_secret ::
  "OpenMlsCrypto \<Rightarrow> Ciphersuite \<Rightarrow> Secret \<Rightarrow> (EpochSecrets, CryptoError) outcome" where
  "epoch_secrets_from_epoch_secret crypto cs epoch_secret = epoch_secrets_new crypto cs epoch_secret"

record GroupEpochSecrets =
  ges_init_secret :: InitSecret
  ges_exporter_secret :: ExporterSecret
  ges_epoch_authenticator :: EpochAuthenticator
  ges_external_secret :: ExternalSecret
  ges_resumption_psk :: ResumptionPskSecret

record MessageSecrets =
  ms_sender_data_secret :: SenderDataSecret
  ms_membership_key :: MembershipKey
  ms_confirmation_key :: ConfirmationKey
  ms_serialized_context :: bytes
  ms_secret_tree :: SecretTree
  ms_added_at :: "int option"

definition message_secrets_new ::
  "SenderDataSecret \<Rightarrow> MembershipKey \<Rightarrow> ConfirmationKey \<Rightarrow> bytes \<Rightarrow> SecretTree \<Rightarrow> MessageSecrets" where
  "message_secrets_new sender_data_secret membership_key confirmation_key serialized_context secret_tree =
     \<lparr>ms_sender_data_secret = sender_data_secret, ms_membership_key = membership_key,
      ms_confirmation_key = confirmation_key, ms_serialized_context = serialized_context,
      ms_secret_tree = secret_tree, ms_added_at = None\<rparr>"

definition with_timestamp :: "int option \<Rightarrow> MessageSecrets \<Rightarrow> MessageSecrets" where
  "with_timestamp timestamp self = self\<lparr>ms_added_at := timestamp\<rparr>"

definition message_secrets_own_index :: "MessageSecrets \<Rightarrow> LeafNodeIndex" where
  "message_secrets_own_index self = own_index (ms_secret_tree self)"

definition split_secrets ::
  "EpochSecrets \<Rightarrow> bytes \<Rightarrow> TreeSize \<Rightarrow> LeafNodeIndex \<Rightarrow> GroupEpochSecrets \<times> MessageSecrets" where
  "split_secrets self serialized_context treesize own =
     (let secret_tree = create_secret_tree (es_encryption_secret self) treesize own in
      (\<lparr>ges_init_secret = es_init_secret self, ges_exporter_secret = es_exporter_secret self,
        ges_epoch_authenticator = es_epoch_authenticator self, ges_external_secret = es_external_secret self,
        ges_resumption_psk = es_resumption_psk self\<rparr>,
       message_secrets_new (es_sender_data_secret self) (es_membership_key self) (es_confirmation_key self)
         serialized_context secret_tree))"

section \<open>The state machine\<close>

datatype KsState = StateInitial | StateContext | StateDone

record KeySchedule =
  ks_ciphersuite :: Ciphersuite
  ks_intermediate_secret :: "IntermediateSecret option"
  ks_epoch_secret :: "EpochSecret option"
  ks_state :: KsState

record EpochSecretsResult =
  res_epoch_secrets :: EpochSecrets
  res_application_exporter :: "ApplicationExportSecret option"

definition key_schedule_init ::
  "Ciphersuite \<Rightarrow> OpenMlsCrypto \<Rightarrow> JoinerSecret \<Rightarrow> PskSecret \<Rightarrow> (KeySchedule, LibraryError) outcome" where
  "key_schedule_init cs crypto joiner_secret ps =
     and_then (map_err LibCryptoError (intermediate_secret_new crypto cs joiner_secret ps))
       (\<lambda>intermediate_secret. Inr \<lparr>ks_ciphersuite = cs, ks_intermediate_secret = Some intermediate_secret,
          ks_epoch_secret = None, ks_state = StateInitial\<rparr>)"

definition key_schedule_welcome ::
  "OpenMlsCrypto \<Rightarrow> Ciphersuite \<Rightarrow> KeySchedule \<Rightarrow> (WelcomeSecret, KeyScheduleError) outcome" where
  "key_schedule_welcome crypto cs self =
     (if ks_state self \<noteq> StateInitial \<or> ks_intermediate_secret self = None then throw (InvalidState ErrorInit)
      else
        and_then (ok_or (ks_intermediate_secret self) (KsLibraryError (library_custom ''state machine error'')))
          (\<lambda>intermediate_secret. map_err KsCryptoError (welcome_secret_new crypto cs intermediate_secret)))"

text \<open>The receiver keeps what was assigned before an error.\<close>

definition key_schedule_add_context ::
  "OpenMlsCrypto \<Rightarrow> bytes \<Rightarrow> (KeySchedule, unit, KeyScheduleError) mutator" where
  "key_schedule_add_context crypto serialized_group_context self =
     (if ks_state self \<noteq> StateInitial \<or> ks_intermediate_secret self = None
      then (throw (InvalidState ErrorInit), self)
      else
        let self1 = self\<lparr>ks_state := StateContext\<rparr>; self2 = self1\<lparr>ks_intermediate_secret := None\<rparr> in
        case ks_intermediate_secret self1 of
          None \<Rightarrow> (throw (KsLibraryError (library_custom ''state machine error'')), self2)
        | Some intermediate_secret \<Rightarrow>
            (case epoch_secret_new (ks_ciphersuite self2) crypto intermediate_secret serialized_group_context of
               Inl f \<Rightarrow> (Inl (map_fault KsCryptoError f), self2)
             | Inr epoch_secret \<Rightarrow> (Inr (), self2\<lparr>ks_epoch_secret := Some epoch_secret\<rparr>)))"

definition key_schedule_epoch_secrets ::
  "bool \<Rightarrow> OpenMlsCrypto \<Rightarrow> Ciphersuite \<Rightarrow> (KeySchedule, EpochSecretsResult, KeyScheduleError) mutator" where
  "key_schedule_epoch_secrets ext crypto cs self =
     (if ks_state self \<noteq> StateContext \<or> ks_epoch_secret self = None
      then (throw (InvalidState ErrorContext), self)
      else
        let self1 = self\<lparr>ks_state := StateDone\<rparr>; self2 = self1\<lparr>ks_epoch_secret := None\<rparr> in
        case ks_epoch_secret self1 of
          None \<Rightarrow> (throw (KsLibraryError (library_custom ''state machine error'')), self2)
        | Some epoch_secret \<Rightarrow>
            (map_err KsCryptoError
               (and_then (if ext then and_then (application_export_secret_new crypto cs epoch_secret) (\<lambda>s. Inr (Some s))
                          else Inr None) (\<lambda>application_exporter.
                and_then (epoch_secrets_new crypto cs epoch_secret) (\<lambda>epoch_secrets.
                  Inr \<lparr>res_epoch_secrets = epoch_secrets, res_application_exporter = application_exporter\<rparr>))),
             self2))"

section \<open>Every order of calls\<close>

datatype KsOp = KsWelcome Ciphersuite | KsAddContext bytes | KsEpochSecrets Ciphersuite

datatype KsResult = KsWelcomed WelcomeSecret | KsContextAdded | KsDerived EpochSecretsResult

definition o_fmap :: "('a \<Rightarrow> 'b) \<Rightarrow> ('a, 'e) outcome \<Rightarrow> ('b, 'e) outcome" where
  "o_fmap f r = and_then r (\<lambda>x. Inr (f x))"

fun ks_step :: "bool \<Rightarrow> OpenMlsCrypto \<Rightarrow> KsOp \<Rightarrow> KeySchedule \<Rightarrow> (KsResult, KeyScheduleError) outcome \<times> KeySchedule" where
  "ks_step ext crypto (KsWelcome cs) self = (o_fmap KsWelcomed (key_schedule_welcome crypto cs self), self)"
| "ks_step ext crypto (KsAddContext ctx) self =
     (let (r, self') = key_schedule_add_context crypto ctx self in (o_fmap (\<lambda>_. KsContextAdded) r, self'))"
| "ks_step ext crypto (KsEpochSecrets cs) self =
     (let (r, self') = key_schedule_epoch_secrets ext crypto cs self in (o_fmap KsDerived r, self'))"

text \<open>
  What a call is answered as a function of the calls before it: the first context that was added
  with the calls after it, and the answer itself.
\<close>

fun first_context :: "KsOp list \<Rightarrow> (bytes \<times> KsOp list) option" where
  "first_context [] = None"
| "first_context (KsAddContext ctx # ops) = Some (ctx, ops)"
| "first_context (_ # ops) = first_context ops"

fun is_epoch_secrets :: "KsOp \<Rightarrow> bool" where
  "is_epoch_secrets (KsEpochSecrets _) = True"
| "is_epoch_secrets _ = False"

definition epoch_result ::
  "bool \<Rightarrow> OpenMlsCrypto \<Rightarrow> Ciphersuite \<Rightarrow> EpochSecret \<Rightarrow> (EpochSecretsResult, CryptoError) outcome" where
  "epoch_result ext crypto cs e =
     and_then (if ext then o_fmap Some (derive_secret crypto cs e ''application_export'') else Inr None)
       (\<lambda>x. o_fmap (\<lambda>s. \<lparr>res_epoch_secrets = s, res_application_exporter = x\<rparr>) (epoch_secrets_new crypto cs e))"

fun ks_answer ::
  "bool \<Rightarrow> OpenMlsCrypto \<Rightarrow> Ciphersuite \<Rightarrow> Secret \<Rightarrow> KsOp list \<Rightarrow> KsOp \<Rightarrow> (KsResult, KeyScheduleError) outcome" where
  "ks_answer ext crypto cs im history (KsWelcome c) =
     (case first_context history of
        None \<Rightarrow> map_err KsCryptoError (o_fmap KsWelcomed (derive_secret crypto c im ''welcome''))
      | Some _ \<Rightarrow> throw (InvalidState ErrorInit))"
| "ks_answer ext crypto cs im history (KsAddContext ctx) =
     (case first_context history of
        None \<Rightarrow> map_err KsCryptoError (o_fmap (\<lambda>_. KsContextAdded) (kdf_expand_label crypto cs im ''epoch'' ctx (hash_length cs)))
      | Some _ \<Rightarrow> throw (InvalidState ErrorInit))"
| "ks_answer ext crypto cs im history (KsEpochSecrets c) =
     (case first_context history of
        None \<Rightarrow> throw (InvalidState ErrorContext)
      | Some (ctx, later) \<Rightarrow>
          (case kdf_expand_label crypto cs im ''epoch'' ctx (hash_length cs) of
             Inl _ \<Rightarrow> throw (InvalidState ErrorContext)
           | Inr e \<Rightarrow>
               if list_ex is_epoch_secrets later then throw (InvalidState ErrorContext)
               else map_err KsCryptoError (o_fmap KsDerived (epoch_result ext crypto c e))))"

definition ks_after :: "OpenMlsCrypto \<Rightarrow> Ciphersuite \<Rightarrow> Secret \<Rightarrow> KsOp list \<Rightarrow> KeySchedule" where
  "ks_after crypto cs im history =
     (case first_context history of
        None \<Rightarrow> \<lparr>ks_ciphersuite = cs, ks_intermediate_secret = Some im, ks_epoch_secret = None, ks_state = StateInitial\<rparr>
      | Some (ctx, later) \<Rightarrow>
          (case kdf_expand_label crypto cs im ''epoch'' ctx (hash_length cs) of
             Inl _ \<Rightarrow> \<lparr>ks_ciphersuite = cs, ks_intermediate_secret = None, ks_epoch_secret = None, ks_state = StateContext\<rparr>
           | Inr e \<Rightarrow>
               if list_ex is_epoch_secrets later
               then \<lparr>ks_ciphersuite = cs, ks_intermediate_secret = None, ks_epoch_secret = None, ks_state = StateDone\<rparr>
               else \<lparr>ks_ciphersuite = cs, ks_intermediate_secret = None, ks_epoch_secret = Some e, ks_state = StateContext\<rparr>))"

lemma first_context_append:
  "first_context (ops @ [op]) =
     (case first_context ops of
        Some (ctx, later) \<Rightarrow> Some (ctx, later @ [op])
      | None \<Rightarrow> (case op of KsAddContext ctx \<Rightarrow> Some (ctx, []) | _ \<Rightarrow> None))"
  by (induction ops rule: first_context.induct) (auto split: KsOp.splits)

lemma o_fmap_simps [simp]: "o_fmap f (Inl e) = Inl e" "o_fmap f (Inr x) = Inr (f x)"
  by (simp_all add: o_fmap_def)

lemma o_fmap_map_err: "o_fmap f (map_err h r) = map_err h (o_fmap f r)"
  by (cases r) simp_all

lemma epoch_result_code:
  "and_then (if ext then and_then (application_export_secret_new crypto cs e) (\<lambda>s. Inr (Some s)) else Inr None)
     (\<lambda>x. and_then (epoch_secrets_new crypto cs e) (\<lambda>s. Inr \<lparr>res_epoch_secrets = s, res_application_exporter = x\<rparr>)) =
   epoch_result ext crypto cs e"
  by (simp add: epoch_result_def application_export_secret_new_def o_fmap_def)

lemma ks_step_after:
  "ks_step ext crypto op (ks_after crypto cs im history) =
     (ks_answer ext crypto cs im history op, ks_after crypto cs im (history @ [op]))"
proof (cases op)
  case (KsWelcome c)
  then show ?thesis
    by (auto simp: ks_after_def key_schedule_welcome_def welcome_secret_new_def first_context_append o_fmap_map_err
        split: option.splits sum.splits)
next
  case (KsAddContext ctx)
  then show ?thesis
    by (auto simp: ks_after_def key_schedule_add_context_def epoch_secret_new_def first_context_append Let_def
        split: option.splits sum.splits)
next
  case (KsEpochSecrets c)
  then show ?thesis
    by (auto simp: ks_after_def key_schedule_epoch_secrets_def epoch_result_code first_context_append Let_def
        o_fmap_map_err split: option.splits sum.splits)
qed

lemma ks_run_after:
  "i < length ops \<Longrightarrow>
     fst (run_ops (ks_step ext crypto) ops (ks_after crypto cs im history)) ! i =
       ks_answer ext crypto cs im (history @ take i ops) (ops ! i)"
proof (induction ops arbitrary: history i)
  case (Cons op ops)
  then show ?case by (cases i) (simp_all add: ks_step_after)
qed simp

text \<open>
  C33: The key schedule in every order of calls.  Whatever sequence of calls is made on a key
  schedule that was started from a joiner secret and a PSK secret, each is answered as the calls
  before it say: the welcome secret and the group context are accepted only until the first context
  was added; the epoch secrets are derived from that first context, exactly once, and only when it was
  added with success; every other call gets the error for its state.  In particular no call
  ends with the internal error of the state machine.
\<close>

theorem key_schedule_any_order:
  assumes "intermediate_secret_new crypto cs joiner ps = Inr im"
  shows "\<exists>ks. key_schedule_init cs crypto joiner ps = Inr ks \<and>
           (\<forall>ops. \<forall>i < length ops. fst (run_ops (ks_step ext crypto) ops ks) ! i =
              ks_answer ext crypto cs im (take i ops) (ops ! i))"
proof (intro exI conjI allI impI)
  show "key_schedule_init cs crypto joiner ps = Inr (ks_after crypto cs im [])"
    using assms by (simp add: key_schedule_init_def ks_after_def)
  show "fst (run_ops (ks_step ext crypto) ops (ks_after crypto cs im [])) ! i =
      ks_answer ext crypto cs im (take i ops) (ops ! i)" if "i < length ops" for ops i
    using ks_run_after [OF that, of ext crypto cs im "[]"] by simp
qed

section \<open>The schedule always gets through\<close>

text \<open>Documented behaviour: HKDF-Extract only fails on an unsupported hash.\<close>

definition extract_total :: "OpenMlsCrypto \<Rightarrow> bool" where
  "extract_total crypto \<longleftrightarrow> (\<forall>h salt ikm. \<exists>prk. crypto_hkdf_extract crypto h salt ikm = Inr prk)"

lemma hkdf_extract_succeeds:
  assumes "extract_total crypto" obtains s where "hkdf_extract crypto cs salt ikm = Inr s"
  using assms unfolding extract_total_def hkdf_extract_def Let_def
  by (metis and_then.simps(2) backend.simps(2))

lemma expand_label_succeeds:
  assumes "hkdf_lengths crypto" "hkdf_total crypto" and "0 < len" "len \<le> 64"
    and "length label < 1000" "length context < 2 ^ 30"
  shows "\<exists>t. kdf_expand_label crypto cs s label context len = Inr t \<and> length (secret_value t) = len"
proof -
  have "len \<le> 255 * hash_length cs" using assms(4) ciphersuite_lengths(1) [of cs] by linarith
  then obtain t where "kdf_expand_label crypto cs s label context len = Inr t" "length (secret_value t) = len"
    using assms kdf_expand_label_succeeds [OF assms(1,2,3), of cs label "context" s] by auto
  then show ?thesis by blast
qed

lemma derive_secret_succeeds:
  assumes "hkdf_lengths crypto" "hkdf_total crypto" and "length label < 1000"
  shows "\<exists>t. derive_secret crypto cs s label = Inr t \<and> length (secret_value t) = hash_length cs"
  unfolding derive_secret_def
  by (rule expand_label_succeeds [OF assms(1,2)]) (use assms(3) ciphersuite_lengths [of cs] in auto)

definition full_secrets :: "Ciphersuite \<Rightarrow> EpochSecrets \<Rightarrow> bool" where
  "full_secrets cs es \<longleftrightarrow>
     (\<forall>s \<in> {es_init_secret es, es_sender_data_secret es, es_encryption_secret es, es_exporter_secret es,
        es_epoch_authenticator es, es_external_secret es, es_confirmation_key es, es_membership_key es,
        es_resumption_psk es}. length (secret_value s) = hash_length cs)"

lemmas epoch_label_defs = sender_data_secret_new_def encryption_secret_new_def exporter_secret_new_def
  epoch_authenticator_new_def external_secret_new_def confirmation_key_new_def membership_key_new_def
  resumption_psk_secret_new_def init_secret_new_def

lemma epoch_secrets_succeeds:
  assumes "hkdf_lengths crypto" "hkdf_total crypto"
  shows "\<exists>es. epoch_secrets_new crypto cs e = Inr es \<and> full_secrets cs es"
proof -
  note der = derive_secret_succeeds [OF assms, of _ cs e]
  obtain a b c d f g h i j where
    "derive_secret crypto cs e ''sender data'' = Inr a" "length (secret_value a) = hash_length cs"
    "derive_secret crypto cs e ''encryption'' = Inr b" "length (secret_value b) = hash_length cs"
    "derive_secret crypto cs e ''exporter'' = Inr c" "length (secret_value c) = hash_length cs"
    "derive_secret crypto cs e ''authentication'' = Inr d" "length (secret_value d) = hash_length cs"
    "derive_secret crypto cs e ''external'' = Inr f" "length (secret_value f) = hash_length cs"
    "derive_secret crypto cs e ''confirm'' = Inr g" "length (secret_value g) = hash_length cs"
    "derive_secret crypto cs e ''membership'' = Inr h" "length (secret_value h) = hash_length cs"
    "derive_secret crypto cs e ''resumption'' = Inr i" "length (secret_value i) = hash_length cs"
    "derive_secret crypto cs e ''init'' = Inr j" "length (secret_value j) = hash_length cs"
    using der [of "''sender data''"] der [of "''encryption''"] der [of "''exporter''"] der [of "''authentication''"]
      der [of "''external''"] der [of "''confirm''"] der [of "''membership''"] der [of "''resumption''"]
      der [of "''init''"]
    by auto
  then show ?thesis by (simp add: epoch_secrets_new_def epoch_label_defs full_secrets_def)
qed

lemma epoch_result_succeeds:
  assumes "hkdf_lengths crypto" "hkdf_total crypto"
  shows "\<exists>r. epoch_result ext crypto cs e = Inr r \<and> full_secrets cs (res_epoch_secrets r)"
proof -
  obtain x where "derive_secret crypto cs e ''application_export'' = Inr x"
    using derive_secret_succeeds [OF assms, of "''application_export''" cs e] by auto
  moreover obtain es where "epoch_secrets_new crypto cs e = Inr es" "full_secrets cs es"
    using epoch_secrets_succeeds [OF assms] by blast
  ultimately show ?thesis by (simp add: epoch_result_def)
qed

lemma aead_material_succeeds:
  assumes "hkdf_lengths crypto" "hkdf_total crypto" and "length context < 2 ^ 30"
  shows "\<exists>k. and_then (kdf_expand_label crypto cs s ''key'' context (aead_key_length cs))
             (\<lambda>t. Inr (aead_key_from_secret t cs)) = Inr k \<and> length (aead_value k) = aead_key_length cs"
    and "\<exists>n. and_then (kdf_expand_label crypto cs s ''nonce'' context (aead_nonce_length cs)) aead_nonce_from_secret =
             (Inr n :: (AeadNonce, CryptoError) outcome) \<and> length (nonce_bytes n) = NONCE_BYTES"
proof -
  obtain t where "kdf_expand_label crypto cs s ''key'' context (aead_key_length cs) = Inr t"
    "length (secret_value t) = aead_key_length cs"
    using expand_label_succeeds [OF assms(1,2), of "aead_key_length cs" "''key''" "context" cs s] assms(3)
      ciphersuite_lengths [of cs] by auto
  then show "\<exists>k. and_then (kdf_expand_label crypto cs s ''key'' context (aead_key_length cs))
             (\<lambda>t. Inr (aead_key_from_secret t cs)) = Inr k \<and> length (aead_value k) = aead_key_length cs"
    by (simp add: aead_key_from_secret_def)
  obtain t where "kdf_expand_label crypto cs s ''nonce'' context (aead_nonce_length cs) = Inr t"
    "length (secret_value t) = aead_nonce_length cs"
    using expand_label_succeeds [OF assms(1,2), of "aead_nonce_length cs" "''nonce''" "context" cs s] assms(3)
      aead_nonce_length_12 [of cs] by auto
  then show "\<exists>n. and_then (kdf_expand_label crypto cs s ''nonce'' context (aead_nonce_length cs)) aead_nonce_from_secret =
             (Inr n :: (AeadNonce, CryptoError) outcome) \<and> length (nonce_bytes n) = NONCE_BYTES"
    by (simp add: aead_nonce_from_secret_def aead_nonce_length_12 NONCE_BYTES_def)
qed

lemma length_ciphertext_sample: "length (ciphertext_sample cs ct) < 2 ^ 30"
  using ciphersuite_lengths [of cs] by (simp add: ciphertext_sample_def Let_def)

text \<open>
  C34: The key schedule always gets through.  With a backend that derives what it is asked for and a
  group context that can be encoded, the calls in their order succeed from every joiner secret and
  PSK secret: the welcome secret with a key and a nonce of the lengths of the ciphersuite, and all
  nine secrets of the epoch, each as long as the hash; and for every ciphertext the sender data key
  and nonce can be derived without a panic.
\<close>

theorem key_schedule_gets_through:
  assumes "hkdf_lengths crypto" "hkdf_total crypto" "extract_total crypto" and "length ctx < 2 ^ 30"
  shows "\<exists>ks w k n r. key_schedule_init cs crypto joiner ps = Inr ks \<and>
     key_schedule_welcome crypto cs ks = Inr w \<and> derive_welcome_key_nonce crypto cs w = Inr (k, n) \<and>
     length (aead_value k) = aead_key_length cs \<and> length (nonce_bytes n) = NONCE_BYTES \<and>
     fst (key_schedule_add_context crypto ctx ks) = Inr () \<and>
     fst (key_schedule_epoch_secrets ext crypto cs (snd (key_schedule_add_context crypto ctx ks))) = Inr r \<and>
     full_secrets cs (res_epoch_secrets r) \<and>
     (\<forall>ct. (\<exists>k. sender_data_aead_key crypto cs (es_sender_data_secret (res_epoch_secrets r)) ct = Inr k \<and>
              length (aead_value k) = aead_key_length cs) \<and>
           (\<exists>n. sender_data_aead_nonce crypto cs (es_sender_data_secret (res_epoch_secrets r)) ct = Inr n \<and>
              length (nonce_bytes n) = NONCE_BYTES))"
proof -
  obtain im where im: "hkdf_extract crypto cs joiner (Some (psk_secret_value ps)) = Inr im"
    by (rule hkdf_extract_succeeds [OF assms(3)])
  let ?ks = "ks_after crypto cs im []"
  have init: "key_schedule_init cs crypto joiner ps = Inr ?ks"
    using im by (simp add: key_schedule_init_def intermediate_secret_new_def ks_after_def)
  obtain w where w: "key_schedule_welcome crypto cs ?ks = Inr w"
    using derive_secret_succeeds [OF assms(1,2), of "''welcome''" cs im]
    by (auto simp: key_schedule_welcome_def ks_after_def welcome_secret_new_def)
  obtain k n where kn: "derive_welcome_key_nonce crypto cs w = Inr (k, n)"
    "length (aead_value k) = aead_key_length cs" "length (nonce_bytes n) = NONCE_BYTES"
    using aead_material_succeeds [OF assms(1,2), of "[]" cs w]
    by (auto simp: derive_welcome_key_nonce_def welcome_derive_aead_key_def welcome_derive_aead_nonce_def)
  obtain e where e: "kdf_expand_label crypto cs im ''epoch'' ctx (hash_length cs) = Inr e"
    using expand_label_succeeds [OF assms(1,2), of "hash_length cs" "''epoch''" ctx cs im] assms(4)
      ciphersuite_lengths [of cs] by auto
  obtain r where r: "epoch_result ext crypto cs e = Inr r" "full_secrets cs (res_epoch_secrets r)"
    using epoch_result_succeeds [OF assms(1,2)] by blast
  have "fst (key_schedule_add_context crypto ctx ?ks) = Inr ()"
    "fst (key_schedule_epoch_secrets ext crypto cs (snd (key_schedule_add_context crypto ctx ?ks))) = Inr r"
    using e r(1) by (simp_all add: key_schedule_add_context_def key_schedule_epoch_secrets_def ks_after_def
        epoch_secret_new_def epoch_result_code Let_def)
  then show ?thesis
    using init w kn r(2) aead_material_succeeds [OF assms(1,2) length_ciphertext_sample]
    unfolding sender_data_aead_key_def sender_data_aead_nonce_def by blast
qed

section \<open>Members of one epoch\<close>

text \<open>
  The secrets of the epoch that a commit starts, as every party derives them from its own init
  secret: the joiner secret, the key schedule with the group context, the epoch secrets.
\<close>

definition commit_epoch ::
  "bool \<Rightarrow> OpenMlsCrypto \<Rightarrow> Ciphersuite \<Rightarrow> CommitSecret option \<Rightarrow> InitSecret \<Rightarrow> PskSecret \<Rightarrow> bytes \<Rightarrow>
   (EpochSecretsResult, KeyScheduleError) outcome" where
  "commit_epoch ext crypto cs commit_secret init_secret ps ctx =
     and_then (map_err KsCryptoError (joiner_secret_new crypto cs commit_secret init_secret ctx)) (\<lambda>joiner.
     and_then (map_err KsLibraryError (key_schedule_init cs crypto joiner ps)) (\<lambda>ks.
     (case key_schedule_add_context crypto ctx ks of
        (Inl f, _) \<Rightarrow> Inl f
      | (Inr _, ks') \<Rightarrow> fst (key_schedule_epoch_secrets ext crypto cs ks'))))"

lemma external_init_agrees:
  assumes "hpke_export_agrees hpke" and "derive_external_keypair hpke cs external_secret = Inr kp"
    and "init_secret_from_group_context hpke cs version (hpke_public kp) = Inr (init, kem)"
  shows "init_secret_from_kem_output hpke cs version (hpke_private kp) kem = Inr init"
proof -
  have backend: "backend r = Inr x \<longleftrightarrow> r = Inr x" for r :: "CryptoError + 'b" and x by (cases r) auto
  obtain raw where "init = Secret raw"
    "hpke_setup_sender_and_export hpke (hpke_config cs) (hpke_public kp) []
       (str_bytes (hpke_info_from_version version)) (hash_length cs) = Inr (kem, raw)"
    using assms(3) by (auto simp: init_secret_from_group_context_def outcome_simps backend split: prod.splits)
  then show ?thesis
    using assms(1,2)
    unfolding hpke_export_agrees_def derive_external_keypair_def init_secret_from_kem_output_def backend
    by (metis and_then.simps(2) backend.simps(2) map_err.simps(2))
qed

text \<open>
  C35: An external joiner and the members read each other's messages.  The joiner encapsulates a new
  init secret to the external key of the epoch before, a member recovers it from the output of the
  encapsulation with the private key it derives from the external secret.  Both then hold the same
  secrets of the new epoch, and whatever either has sent and opened before, the key with which
  one sends generation \<open>g\<close> of a ratchet is the key the other obtains for opening it.
\<close>

theorem external_joiner_agrees:
  assumes "hpke_export_agrees hpke" and "derive_external_keypair hpke cs external_secret = Inr kp"
    and "init_secret_from_group_context hpke cs version (hpke_public kp) = Inr (init_a, kem)"
    and "init_secret_from_kem_output hpke cs version (hpke_private kp) kem = Inr init_b"
    and "commit_epoch ext crypto cs commit_secret init_a ps ctx = Inr res_a"
    and "commit_epoch ext crypto cs commit_secret init_b ps ctx = Inr res_b"
    and "ms_secret_tree (snd (split_secrets (res_epoch_secrets res_a) ctx (full_size d) a)) = tree_a"
    and "ms_secret_tree (snd (split_secrets (res_epoch_secrets res_b) ctx (full_size d) b)) = tree_b"
    and "d \<le> 29"
  shows "res_b = res_a \<and>
    (\<forall>ops_a i ops_b j sender ty g cfg km km'.
       i < length ops_a \<longrightarrow> ops_a ! i = TreeEncrypt sender ty \<longrightarrow>
       fst (run_ops (tree_step vc crypto cs) ops_a tree_a) ! i = Inr (TreeSent g km) \<longrightarrow>
       j < length ops_b \<longrightarrow> ops_b ! j = TreeDecrypt sender ty g cfg \<longrightarrow>
       fst (run_ops (tree_step vc crypto cs) ops_b tree_b) ! j = Inr (TreeOpened (AvailableSecret km')) \<longrightarrow>
       km' = km)"
proof -
  have "init_b = init_a" using external_init_agrees [OF assms(1-3)] assms(4) by simp
  then have same: "res_b = res_a" using assms(5,6) by simp
  let ?enc = "es_encryption_secret (res_epoch_secrets res_a)"
  have trees: "tree_a = secret_tree_new ?enc (full_size d) a" "tree_b = secret_tree_new ?enc (full_size d) b"
    using assms(7,8) same
    by (simp_all add: split_secrets_def message_secrets_new_def create_secret_tree_def Let_def flip: assms(7,8))
  have "km' = km"
    if "i < length ops_a" "ops_a ! i = TreeEncrypt sender ty"
      "fst (run_ops (tree_step vc crypto cs) ops_a tree_a) ! i = Inr (TreeSent g km)"
      "j < length ops_b" "ops_b ! j = TreeDecrypt sender ty g cfg"
      "fst (run_ops (tree_step vc crypto cs) ops_b tree_b) ! j = Inr (TreeOpened (AvailableSecret km'))"
    for ops_a i ops_b j sender ty g cfg km km'
  proof -
    have "message_key crypto cs ?enc d (sender, ty, g) = Inr km"
      using tree_result_key [OF assms(9) that(1) refl, of vc crypto cs ?enc a] that(2,3) trees by (cases km) auto
    moreover have "message_key crypto cs ?enc d (sender, ty, g) = Inr km'"
      using tree_result_key [OF assms(9) that(4) refl, of vc crypto cs ?enc b] that(5,6) trees by (cases km') auto
    ultimately show ?thesis by simp
  qed
  then show ?thesis using same by blast
qed

section \<open>Witnesses\<close>

lemma toy_extract_total: "extract_total toy_crypto"
  by (simp add: extract_total_def toy_crypto_def)

theorem key_schedule_any_order_witness:
  "\<exists>ks. key_schedule_init suite1 toy_crypto (Secret [1]) (PskSecret (Secret [2])) = Inr ks \<and>
     fst (run_ops (ks_step True toy_crypto) [KsEpochSecrets suite1, KsAddContext [3], KsWelcome suite1] ks) ! 0 =
       throw (InvalidState ErrorContext) \<and>
     fst (run_ops (ks_step True toy_crypto) [KsEpochSecrets suite1, KsAddContext [3], KsWelcome suite1] ks) ! 2 =
       throw (InvalidState ErrorInit)"
proof -
  let ?ops = "[KsEpochSecrets suite1, KsAddContext [3], KsWelcome suite1]"
  obtain im where "intermediate_secret_new toy_crypto suite1 (Secret [1]) (PskSecret (Secret [2])) = Inr im"
    unfolding intermediate_secret_new_def by (rule hkdf_extract_succeeds [OF toy_extract_total])
  from key_schedule_any_order [OF this, of True] obtain ks where
    ks: "key_schedule_init suite1 toy_crypto (Secret [1]) (PskSecret (Secret [2])) = Inr ks"
    and run: "\<And>ops i. i < length ops \<Longrightarrow> fst (run_ops (ks_step True toy_crypto) ops ks) ! i =
      ks_answer True toy_crypto suite1 im (take i ops) (ops ! i)" by blast
  show ?thesis
    using ks run [of 0 ?ops] run [of 2 ?ops] by (auto simp del: run_ops_Cons)
qed

theorem key_schedule_gets_through_witness:
  "\<exists>ks r. key_schedule_init suite1 toy_crypto (Secret [1]) (PskSecret (Secret [2])) = Inr ks \<and>
     fst (key_schedule_epoch_secrets True toy_crypto suite1 (snd (key_schedule_add_context toy_crypto [3] ks))) = Inr r \<and>
     full_secrets suite1 (res_epoch_secrets r)"
  using key_schedule_gets_through [OF toy_crypto_ok(1,2) toy_extract_total, of "[3]" suite1 "Secret [1]"
      "PskSecret (Secret [2])" True]
  by auto

definition toy_hpke :: OpenMlsHpke where
  "toy_hpke = \<lparr>
     crypto_hash = (\<lambda>h bs. Inr (replicate (hash_size h) 0)),
     crypto_derive_hpke_keypair = (\<lambda>config ikm. Inr \<lparr>hpke_private = ikm, hpke_public = 0 # ikm\<rparr>),
     hpke_setup_sender_and_export = (\<lambda>config pk info context len. Inr ([5], take len pk)),
     hpke_setup_receiver_and_export = (\<lambda>config kem sk info context len. Inr (take len (0 # sk)))\<rparr>"

lemma toy_hpke_agrees: "hpke_export_agrees toy_hpke"
  by (auto simp: hpke_export_agrees_def toy_hpke_def)

lemma commit_epoch_succeeds:
  assumes "hkdf_lengths crypto" "hkdf_total crypto" "extract_total crypto" and "length ctx < 2 ^ 30"
  obtains r where "commit_epoch ext crypto cs commit_secret init ps ctx = Inr r"
proof -
  obtain x where "hkdf_extract crypto cs init commit_secret = Inr x" by (rule hkdf_extract_succeeds [OF assms(3)])
  moreover obtain joiner where "kdf_expand_label crypto cs x ''joiner'' ctx (hash_length cs) = Inr joiner"
    using expand_label_succeeds [OF assms(1,2), of "hash_length cs" "''joiner''" ctx cs x] assms(4)
      ciphersuite_lengths [of cs] by auto
  moreover obtain im where "hkdf_extract crypto cs joiner (Some (psk_secret_value ps)) = Inr im"
    by (rule hkdf_extract_succeeds [OF assms(3)])
  moreover obtain e where "kdf_expand_label crypto cs im ''epoch'' ctx (hash_length cs) = Inr e"
    using expand_label_succeeds [OF assms(1,2), of "hash_length cs" "''epoch''" ctx cs im] assms(4)
      ciphersuite_lengths [of cs] by auto
  moreover obtain r where "epoch_result ext crypto cs e = Inr r"
    using epoch_result_succeeds [OF assms(1,2)] by blast
  ultimately have "commit_epoch ext crypto cs commit_secret init ps ctx = Inr r"
    by (simp add: commit_epoch_def joiner_secret_new_def key_schedule_init_def intermediate_secret_new_def
        key_schedule_add_context_def key_schedule_epoch_secrets_def epoch_secret_new_def epoch_result_code Let_def)
  then show ?thesis by (rule that)
qed

theorem external_joiner_agrees_witness:
  "\<exists>(kp :: HpkeKeyPair) init_a kem init_b res_a res_b km.
     init_secret_from_group_context toy_hpke suite1 Mls10 (hpke_public kp) = Inr (init_a, kem) \<and>
     init_secret_from_kem_output toy_hpke suite1 Mls10 (hpke_private kp) kem = Inr init_b \<and>
     commit_epoch True toy_crypto suite1 None init_a (PskSecret (Secret [2])) [3] = Inr res_a \<and>
     commit_epoch True toy_crypto suite1 None init_b (PskSecret (Secret [2])) [3] = Inr res_b \<and>
     fst (run_ops (tree_step False toy_crypto suite1) [TreeEncrypt (lnode 0) ApplicationSecret]
       (ms_secret_tree (snd (split_secrets (res_epoch_secrets res_a) [3] (full_size 1) (lnode 0))))) ! 0 = Inr (TreeSent 0 km) \<and>
     fst (run_ops (tree_step False toy_crypto suite1) [TreeDecrypt (lnode 0) ApplicationSecret 0 default_configuration]
       (ms_secret_tree (snd (split_secrets (res_epoch_secrets res_b) [3] (full_size 1) (lnode 1))))) ! 0 =
         Inr (TreeOpened (AvailableSecret km))"
proof -
  let ?a = "[TreeEncrypt (lnode 0) ApplicationSecret]"
    and ?b = "[TreeDecrypt (lnode 0) ApplicationSecret 0 default_configuration]"
  let ?kp = "\<lparr>hpke_private = [9], hpke_public = [0, 9]\<rparr>" and ?i = "Secret (take (hash_length suite1) [0, 9])"
  let ?tree = "\<lambda>r own. ms_secret_tree (snd (split_secrets (res_epoch_secrets r) [3] (full_size 1) own))"
  have kp: "derive_external_keypair toy_hpke suite1 (Secret [9]) = Inr ?kp"
    "init_secret_from_group_context toy_hpke suite1 Mls10 (hpke_public ?kp) = Inr (?i, [5])"
    "init_secret_from_kem_output toy_hpke suite1 Mls10 (hpke_private ?kp) [5] = Inr ?i"
    by (simp_all add: derive_external_keypair_def toy_hpke_def init_secret_from_group_context_def
        init_secret_from_kem_output_def)
  obtain r where r: "commit_epoch True toy_crypto suite1 None ?i (PskSecret (Secret [2])) [3] = Inr r"
    by (rule commit_epoch_succeeds [OF toy_crypto_ok(1,2) toy_extract_total, of "[3]"]) auto
  have tree: "?tree r own = secret_tree_new (es_encryption_secret (res_epoch_secrets r)) (full_size 1) own" for own
    by (simp add: split_secrets_def message_secrets_new_def create_secret_tree_def Let_def)
  obtain km where a: "fst (run_ops (tree_step False toy_crypto suite1) ?a (?tree r (lnode 0))) ! 0 = Inr (TreeSent 0 km)"
    unfolding tree
    using first_send [OF toy_crypto_ok(1,2), of 1 "lnode 0" False suite1 ApplicationSecret "es_encryption_secret (res_epoch_secrets r)"] by (auto simp: sample_leaves)
  obtain km' where b: "fst (run_ops (tree_step False toy_crypto suite1) ?b (?tree r (lnode 1))) ! 0 =
      Inr (TreeOpened (AvailableSecret km'))"
    unfolding tree
    using first_open [OF toy_crypto_ok(1,2), of 1 "lnode 0" "lnode 1" False suite1 ApplicationSecret
      "es_encryption_secret (res_epoch_secrets r)"] by (auto simp: sample_leaves)
  have km: "km' = km"
    using external_joiner_agrees [OF toy_hpke_agrees kp r r refl refl, of 1 False "lnode 0" "lnode 1", THEN conjunct2,
        rule_format, of 0 ?a "lnode 0" ApplicationSecret 0 km 0 ?b default_configuration km'] a b
    by simp
  show ?thesis
    by (rule exI [of _ ?kp], rule exI [of _ ?i], rule exI [of _ "[5]"], rule exI [of _ ?i], rule exI [of _ r],
        rule exI [of _ r], rule exI [of _ km]) (use kp(2,3) r a b km in blast)
qed
end
