(* ===== verification/PastSecrets.thy ===== *)
theory PastSecrets
  imports KeySchedule HashMap "HOL-Library.Sublist"
begin

text \<open>
  The message secrets of past epochs (\<^verbatim>\<open>group/mls_group/past_secrets.rs\<close>) and the policies for
  deleting them (\<^verbatim>\<open>group/mls_group/config.rs\<close>).  A point in time is the number of nanoseconds since the
  Unix epoch, a duration a number of nanoseconds; \<open>clock n\<close> is the \<open>n\<close>-th reading of the system clock
  in a call.  A \<^verbatim>\<open>usize\<close> has 64 bits.
\<close>

section \<open>Policies\<close>

datatype PastEpochDeletionPolicy = MaxEpochs nat | KeepAll

definition policy_default :: PastEpochDeletionPolicy where
  "policy_default = MaxEpochs 0"

definition policy_max_epochs :: "PastEpochDeletionPolicy \<Rightarrow> nat option" where
  "policy_max_epochs policy = (case policy of MaxEpochs epochs \<Rightarrow> Some epochs | KeepAll \<Rightarrow> None)"

text \<open>
  The stored form: a plain integer, or the tagged form of older versions.
\<close>

datatype PolicyFormat = PolicyInt u64 | PolicyTagged PastEpochDeletionPolicy

definition policy_serialize :: "PastEpochDeletionPolicy \<Rightarrow> PolicyFormat" where
  "policy_serialize policy =
     PolicyInt (case policy of MaxEpochs epochs \<Rightarrow> of_nat epochs | KeepAll \<Rightarrow> of_nat (2 ^ 64 - 1))"

definition policy_deserialize :: "PolicyFormat \<Rightarrow> PastEpochDeletionPolicy" where
  "policy_deserialize f =
     (case f of
        PolicyInt n \<Rightarrow> if n = - 1 then KeepAll else MaxEpochs (unat n)
      | PolicyTagged p \<Rightarrow> p)"

datatype PastEpochDeletionTimeConfig =
    OlderThanDuration nat
  | BeforeTimestamp int
  | DeleteAllWithoutTimestamp

record PastEpochDeletion =
  deletion_config :: "PastEpochDeletionTimeConfig option"
  deletion_max_past_epochs :: "nat option"

definition older_than_duration :: "nat \<Rightarrow> PastEpochDeletion" where
  "older_than_duration duration =
     \<lparr>deletion_config = Some (OlderThanDuration duration), deletion_max_past_epochs = None\<rparr>"

definition before_timestamp :: "int \<Rightarrow> PastEpochDeletion" where
  "before_timestamp timestamp =
     \<lparr>deletion_config = Some (BeforeTimestamp timestamp), deletion_max_past_epochs = None\<rparr>"

definition delete_all_without_timestamps :: PastEpochDeletion where
  "delete_all_without_timestamps =
     \<lparr>deletion_config = Some DeleteAllWithoutTimestamp, deletion_max_past_epochs = None\<rparr>"

definition delete_all :: PastEpochDeletion where
  "delete_all = \<lparr>deletion_config = None, deletion_max_past_epochs = None\<rparr>"

definition with_max_past_epochs :: "nat \<Rightarrow> PastEpochDeletion \<Rightarrow> PastEpochDeletion" where
  "with_max_past_epochs n self = self\<lparr>deletion_max_past_epochs := Some n\<rparr>"

section \<open>The store\<close>

datatype CredentialType = Basic | X509 | GreaseCredential u16 | OtherCredential u16

record Credential =
  credential_type :: CredentialType
  serialized_credential_content :: bytes

record Member =
  member_index :: LeafNodeIndex
  member_credential :: Credential
  member_encryption_key :: bytes
  member_signature_key :: bytes

record EpochTree =
  tree_epoch :: u64
  tree_message_secrets :: MessageSecrets
  tree_leaves :: "Member list"

record MessageSecretsStore =
  store_max_epochs :: nat
  past_epoch_trees :: "EpochTree list"
  current_message_secrets :: MessageSecrets

text \<open>The order that is restored when a store is read back.\<close>

definition epoch_trees_oldest_first :: "EpochTree list \<Rightarrow> EpochTree list" where
  "epoch_trees_oldest_first trees = sort_key tree_epoch trees"

definition VECDEQUE_MAX_CAPACITY :: nat where
  "VECDEQUE_MAX_CAPACITY = 2 ^ 63 - 1"

definition max_epochs :: "PastEpochDeletionPolicy \<Rightarrow> nat" where
  "max_epochs policy =
     (let n = (case policy_max_epochs policy of None \<Rightarrow> VECDEQUE_MAX_CAPACITY | Some n \<Rightarrow> n)
      in min n VECDEQUE_MAX_CAPACITY)"

definition new_with_secret :: "int \<Rightarrow> PastEpochDeletionPolicy \<Rightarrow> MessageSecrets \<Rightarrow> MessageSecretsStore" where
  "new_with_secret now policy ms =
     \<lparr>store_max_epochs = max_epochs policy, past_epoch_trees = [],
      current_message_secrets = with_timestamp (Some now) ms\<rparr>"

definition store_resize :: "PastEpochDeletionPolicy \<Rightarrow> MessageSecretsStore \<Rightarrow> MessageSecretsStore" where
  "store_resize policy self =
     (let max_past_epochs = max_epochs policy;
          self1 = self\<lparr>store_max_epochs := max_past_epochs\<rparr>;
          excess = length (past_epoch_trees self1) - max_past_epochs
      in self1\<lparr>past_epoch_trees := drop excess (past_epoch_trees self1)\<rparr>)"

definition replace_current_message_secrets ::
  "int \<Rightarrow> MessageSecrets \<Rightarrow> MessageSecretsStore \<Rightarrow> MessageSecrets \<times> MessageSecretsStore" where
  "replace_current_message_secrets now ms self =
     (current_message_secrets self, self\<lparr>current_message_secrets := with_timestamp (Some now) ms\<rparr>)"

definition add_past_epoch_tree :: "u64 \<Rightarrow> MessageSecrets \<Rightarrow> Member list \<Rightarrow> MessageSecretsStore \<Rightarrow> MessageSecretsStore" where
  "add_past_epoch_tree group_epoch ms leaves self =
     (if store_max_epochs self = 0 then self
      else
        let trees = past_epoch_trees self;
            trees = (if length trees \<ge> store_max_epochs self
                     then take (store_max_epochs self - 1) (rotate1 trees) else trees)
        in self\<lparr>past_epoch_trees :=
             trees @ [\<lparr>tree_epoch = group_epoch, tree_message_secrets = ms, tree_leaves = leaves\<rparr>]\<rparr>)"

text \<open>A mutable reference to the secrets of an epoch and its use by \<open>op\<close>.\<close>

fun update_epoch ::
  "u64 \<Rightarrow> (MessageSecrets \<Rightarrow> 'r \<times> MessageSecrets) \<Rightarrow> EpochTree list \<Rightarrow> 'r option \<times> EpochTree list" where
  "update_epoch e op [] = (None, [])"
| "update_epoch e op (t # ts) =
     (if tree_epoch t = e
      then (let (r, ms) = op (tree_message_secrets t) in (Some r, t\<lparr>tree_message_secrets := ms\<rparr> # ts))
      else (let (r, ts') = update_epoch e op ts in (r, t # ts')))"

definition secrets_for_epoch_mut ::
  "u64 \<Rightarrow> (MessageSecrets \<Rightarrow> 'r \<times> MessageSecrets) \<Rightarrow> MessageSecretsStore \<Rightarrow> 'r option \<times> MessageSecretsStore" where
  "secrets_for_epoch_mut e op self =
     (let (r, trees) = update_epoch e op (past_epoch_trees self) in (r, self\<lparr>past_epoch_trees := trees\<rparr>))"

definition find_epoch :: "MessageSecretsStore \<Rightarrow> u64 \<Rightarrow> EpochTree option" where
  "find_epoch self e = find (\<lambda>t. tree_epoch t = e) (past_epoch_trees self)"

definition secrets_for_epoch :: "MessageSecretsStore \<Rightarrow> u64 \<Rightarrow> MessageSecrets option" where
  "secrets_for_epoch self e = map_option tree_message_secrets (find_epoch self e)"

definition secrets_and_leaves_for_epoch :: "MessageSecretsStore \<Rightarrow> u64 \<Rightarrow> (MessageSecrets \<times> Member list) option" where
  "secrets_and_leaves_for_epoch self e =
     map_option (\<lambda>t. (tree_message_secrets t, tree_leaves t)) (find_epoch self e)"

definition leaves_for_epoch :: "MessageSecretsStore \<Rightarrow> u64 \<Rightarrow> (LeafNodeIndex, Member) hash_map" where
  "leaves_for_epoch self e =
     (case find_epoch self e of
        Some t \<Rightarrow> fold (\<lambda>m. hm_insert (member_index m) m) (tree_leaves t) hm_new
      | None \<Rightarrow> hm_new)"

definition epoch_has_leaf :: "MessageSecretsStore \<Rightarrow> u64 \<Rightarrow> LeafNodeIndex \<Rightarrow> bool" where
  "epoch_has_leaf self e leaf_index \<longleftrightarrow>
     list_ex (\<lambda>t. tree_epoch t = e \<and> list_ex (\<lambda>m. member_index m = leaf_index) (tree_leaves t)) (past_epoch_trees self)"

section \<open>Deletion\<close>

abbreviation tree_timestamp :: "EpochTree \<Rightarrow> int option" where
  "tree_timestamp t \<equiv> ms_added_at (tree_message_secrets t)"

text \<open>
  \<^verbatim>\<open>now.duration_since(added_at)\<close> is an error when the clock was set back; an age is compared only when
  it exists.
\<close>

definition older_than :: "nat \<Rightarrow> int \<Rightarrow> int \<Rightarrow> bool" where
  "older_than duration now added_at \<longleftrightarrow> added_at \<le> now \<and> now - added_at > int duration"

text \<open>
  The search from the end for the index of the first tree that satisfies the condition; the clock is
  read once for every tree with a timestamp.
\<close>

fun rfind_older :: "nat \<Rightarrow> (nat \<Rightarrow> int) \<Rightarrow> nat \<Rightarrow> EpochTree list \<Rightarrow> nat option" where
  "rfind_older duration clock n [] = None"
| "rfind_older duration clock n (t # before) =
     (case tree_timestamp t of
        None \<Rightarrow> rfind_older duration clock n before
      | Some added_at \<Rightarrow>
          if older_than duration (clock n) added_at then Some (length before)
          else rfind_older duration clock (n + 1) before)"

definition delete_older_than_duration :: "nat \<Rightarrow> (nat \<Rightarrow> int) \<Rightarrow> MessageSecretsStore \<Rightarrow> MessageSecretsStore" where
  "delete_older_than_duration duration clock self =
     (let found = (\<lambda>n. case rfind_older duration clock n (rev (past_epoch_trees self)) of
                     Some found_idx \<Rightarrow> self\<lparr>past_epoch_trees := drop (found_idx + 1) (past_epoch_trees self)\<rparr>
                   | None \<Rightarrow> self)
      in case ms_added_at (current_message_secrets self) of
           Some added_at \<Rightarrow>
             if older_than duration (clock 0) added_at then self\<lparr>past_epoch_trees := []\<rparr> else found 1
         | None \<Rightarrow> found 0)"

fun rfind_before :: "int \<Rightarrow> EpochTree list \<Rightarrow> nat option" where
  "rfind_before cutoff [] = None"
| "rfind_before cutoff (t # before) =
     (case tree_timestamp t of
        None \<Rightarrow> rfind_before cutoff before
      | Some added_at \<Rightarrow> if added_at < cutoff then Some (length before) else rfind_before cutoff before)"

definition delete_before_timestamp :: "int \<Rightarrow> MessageSecretsStore \<Rightarrow> MessageSecretsStore" where
  "delete_before_timestamp cutoff self =
     (if (case ms_added_at (current_message_secrets self) of Some added_at \<Rightarrow> added_at < cutoff | None \<Rightarrow> False)
      then self\<lparr>past_epoch_trees := []\<rparr>
      else (case rfind_before cutoff (rev (past_epoch_trees self)) of
              Some found_idx \<Rightarrow> self\<lparr>past_epoch_trees := drop (found_idx + 1) (past_epoch_trees self)\<rparr>
            | None \<Rightarrow> self))"

definition delete_past_epoch_secrets ::
  "(nat \<Rightarrow> int) \<Rightarrow> PastEpochDeletion \<Rightarrow> MessageSecretsStore \<Rightarrow> MessageSecretsStore" where
  "delete_past_epoch_secrets clock policy self =
     (case deletion_config policy of
        Some config \<Rightarrow>
          (let self1 = (case config of
                  DeleteAllWithoutTimestamp \<Rightarrow>
                    self\<lparr>past_epoch_trees := filter (\<lambda>t. tree_timestamp t \<noteq> None) (past_epoch_trees self)\<rparr>
                | BeforeTimestamp timestamp \<Rightarrow> delete_before_timestamp timestamp self
                | OlderThanDuration duration \<Rightarrow> delete_older_than_duration duration clock self)
           in case deletion_max_past_epochs policy of
                Some m \<Rightarrow>
                  if m \<le> length (past_epoch_trees self1)
                  then self1\<lparr>past_epoch_trees := drop (length (past_epoch_trees self1) - m) (past_epoch_trees self1)\<rparr>
                  else self1
              | None \<Rightarrow> self1)
      | None \<Rightarrow> self\<lparr>past_epoch_trees := []\<rparr>)"

section \<open>Every sequence of operations\<close>

datatype StoreOp =
    StoreAdd u64 MessageSecrets "Member list"
  | StoreReplace int MessageSecrets
  | StoreUse u64 "MessageSecrets \<Rightarrow> MessageSecrets"
  | StoreResize PastEpochDeletionPolicy
  | StoreDelete "nat \<Rightarrow> int" PastEpochDeletion
  | StoreReload

fun store_step :: "StoreOp \<Rightarrow> MessageSecretsStore \<Rightarrow> MessageSecretsStore" where
  "store_step (StoreAdd e ms leaves) s = add_past_epoch_tree e ms leaves s"
| "store_step (StoreReplace now ms) s = snd (replace_current_message_secrets now ms s)"
| "store_step (StoreUse e f) s = snd (secrets_for_epoch_mut e (\<lambda>ms. ((), f ms)) s)"
| "store_step (StoreResize policy) s = store_resize policy s"
| "store_step (StoreDelete clock policy) s = delete_past_epoch_secrets clock policy s"
| "store_step StoreReload s = s\<lparr>past_epoch_trees := epoch_trees_oldest_first (past_epoch_trees s)\<rparr>"

fun added_epochs :: "StoreOp list \<Rightarrow> u64 list" where
  "added_epochs [] = []"
| "added_epochs (StoreAdd e _ _ # ops) = e # added_epochs ops"
| "added_epochs (_ # ops) = added_epochs ops"

abbreviation store_epochs :: "MessageSecretsStore \<Rightarrow> u64 list" where
  "store_epochs s \<equiv> map tree_epoch (past_epoch_trees s)"

lemma mset_rotate: "mset (rotate k xs) = mset xs"
proof (induction k)
  case (Suc k)
  have "mset (rotate1 ys) = mset ys" for ys :: "'a list" by (cases ys) simp_all
  then show ?case using Suc by simp
qed simp

lemma oldest_first_sorted:
  assumes "sorted_wrt (<) (map tree_epoch trees)" and "mset ts = mset trees"
  shows "epoch_trees_oldest_first ts = trees"
proof -
  let ?s = "epoch_trees_oldest_first ts"
  have set: "set ?s = set trees" using mset_eq_setD [OF assms(2)] by (simp add: epoch_trees_oldest_first_def)
  have trees: "sorted (map tree_epoch trees)" "distinct (map tree_epoch trees)"
    using assms(1) strict_sorted_iff by blast+
  have "mset (map tree_epoch trees) = mset (map tree_epoch ?s)"
    using assms(2) by (simp add: epoch_trees_oldest_first_def)
  then have "sort (map tree_epoch ?s) = map tree_epoch trees" using trees(1) by (rule properties_for_sort)
  moreover have "sort (map tree_epoch ?s) = map tree_epoch ?s"
    by (rule sorted_sort_id) (simp add: epoch_trees_oldest_first_def)
  ultimately have keys: "map tree_epoch ?s = map tree_epoch trees" by simp
  have "inj_on tree_epoch (set ?s \<union> set trees)"
    using trees(2) set by (simp add: distinct_map)
  then show ?thesis using keys by (rule map_inj_on [rotated])
qed

lemma add_past_epoch_tree_eq:
  assumes "length (past_epoch_trees s) \<le> store_max_epochs s"
  shows "past_epoch_trees (add_past_epoch_tree e ms leaves s) =
    (if store_max_epochs s = 0 then past_epoch_trees s
     else drop (length (past_epoch_trees s) + 1 - store_max_epochs s) (past_epoch_trees s) @
       [\<lparr>tree_epoch = e, tree_message_secrets = ms, tree_leaves = leaves\<rparr>])"
proof -
  have "take (length xs - 1) (rotate1 xs) = drop 1 xs" for xs :: "EpochTree list"
    by (cases xs) simp_all
  then show ?thesis
    using assms by (auto simp: add_past_epoch_tree_def Let_def antisym)
qed

lemma update_epoch_epochs: "map tree_epoch (snd (update_epoch e op ts)) = map tree_epoch ts"
  by (induction e op ts rule: update_epoch.induct) (auto simp: Let_def split: prod.splits)

lemma subseq_drop_past: "subseq (past_epoch_trees (s\<lparr>past_epoch_trees := drop n (past_epoch_trees s)\<rparr>)) (past_epoch_trees s)"
  by (simp add: suffix_drop suffix_imp_subseq)

lemma delete_past_subseq:
  "subseq (past_epoch_trees (delete_past_epoch_secrets clock policy s)) (past_epoch_trees s)"
proof -
  have older: "subseq (past_epoch_trees (delete_older_than_duration d clock s)) (past_epoch_trees s)" for d
    by (auto simp: delete_older_than_duration_def Let_def suffix_drop suffix_imp_subseq split: option.splits)
  have before: "subseq (past_epoch_trees (delete_before_timestamp c s)) (past_epoch_trees s)" for c
    by (auto simp: delete_before_timestamp_def suffix_drop suffix_imp_subseq split: option.splits)
  have cap: "subseq (drop n ts) us" if "subseq ts us" for n and ts us :: "EpochTree list"
    using that suffix_drop [of n ts] by (metis subseq_order.order_trans suffix_imp_subseq)
  show ?thesis
    using older before cap subseq_filter_left [of _ "past_epoch_trees s"]
    by (auto simp: delete_past_epoch_secrets_def Let_def
        split: option.splits PastEpochDeletionTimeConfig.splits)
qed

lemma delete_past_fields:
  "store_max_epochs (delete_past_epoch_secrets clock policy s) = store_max_epochs s"
  "current_message_secrets (delete_past_epoch_secrets clock policy s) = current_message_secrets s"
  by (auto simp: delete_past_epoch_secrets_def delete_older_than_duration_def delete_before_timestamp_def Let_def
      split: option.splits PastEpochDeletionTimeConfig.splits)

lemma added_epochs_append: "added_epochs (ops @ ops') = added_epochs ops @ added_epochs ops'"
  by (induction ops rule: added_epochs.induct) simp_all

definition store_ok :: "u64 list \<Rightarrow> MessageSecretsStore \<Rightarrow> bool" where
  "store_ok epochs s \<longleftrightarrow> length (past_epoch_trees s) \<le> store_max_epochs s \<and> subseq (store_epochs s) epochs"

lemma sorted_subseq: "subseq xs ys \<Longrightarrow> sorted_wrt (<) ys \<Longrightarrow> sorted_wrt (<) (xs :: u64 list)"
  by (induction rule: list_emb.induct) (auto dest: list_emb_set)

lemma store_ok_step:
  assumes "store_ok epochs s" and "sorted_wrt (<) (epochs @ added_epochs [op])"
  shows "store_ok (epochs @ added_epochs [op]) (store_step op s)"
proof (cases op)
  case (StoreAdd e ms leaves)
  have "subseq (drop n (store_epochs s) @ [e]) (epochs @ [e])" for n
    using assms(1) unfolding store_ok_def
    by (metis list_emb_append_mono subseq_order.order_refl subseq_order.order_trans suffix_drop suffix_imp_subseq)
  moreover have "subseq (store_epochs s) (epochs @ [e])"
    using assms(1) unfolding store_ok_def by (metis append_Nil2 list_emb_append_mono subseq_order.order_refl list_emb_Nil)
  moreover have "store_max_epochs (store_step op s) = store_max_epochs s"
    by (simp add: StoreAdd add_past_epoch_tree_def Let_def)
  ultimately show ?thesis
    using assms(1) StoreAdd by (auto simp: store_ok_def add_past_epoch_tree_eq drop_map)
next
  case (StoreUse e f)
  obtain r ts where u: "update_epoch e (\<lambda>ms. ((), f ms)) (past_epoch_trees s) = (r, ts)" by (rule prod.exhaust)
  then have "map tree_epoch ts = store_epochs s"
    using update_epoch_epochs [of e "\<lambda>ms. ((), f ms)" "past_epoch_trees s"] by simp
  moreover from this have "length ts = length (past_epoch_trees s)" by (metis length_map)
  ultimately show ?thesis
    using assms(1) u by (simp add: StoreUse store_ok_def secrets_for_epoch_mut_def)
next
  case (StoreResize policy)
  have "subseq (drop n (store_epochs s)) epochs" for n
    using assms(1) unfolding store_ok_def
    by (metis subseq_order.order_trans suffix_drop suffix_imp_subseq)
  then show ?thesis by (simp add: StoreResize store_ok_def store_resize_def Let_def drop_map)
next
  case (StoreDelete clock policy)
  have "subseq (store_epochs (store_step op s)) (store_epochs s)"
    unfolding StoreDelete using delete_past_subseq [of clock policy s] by (simp add: subseq_map)
  moreover have "length (past_epoch_trees (store_step op s)) \<le> length (past_epoch_trees s)"
    unfolding StoreDelete using delete_past_subseq [of clock policy s] by (simp add: list_emb_length)
  ultimately show ?thesis
    using assms(1) StoreDelete
    by (auto simp: store_ok_def delete_past_fields intro: subseq_order.order_trans)
next
  case StoreReload
  have "sorted_wrt (<) (store_epochs s)"
    using assms sorted_subseq by (auto simp: store_ok_def StoreReload)
  then have "epoch_trees_oldest_first (past_epoch_trees s) = past_epoch_trees s"
    by (rule oldest_first_sorted) simp
  then show ?thesis using assms(1) StoreReload by (simp add: store_ok_def)
qed (use assms in \<open>simp_all add: store_ok_def replace_current_message_secrets_def\<close>)

lemma store_ok_run:
  assumes "sorted_wrt (<) (added_epochs ops)"
  shows "store_ok (added_epochs ops) (fold store_step ops (new_with_secret now policy ms))"
  using assms
proof (induction ops rule: rev_induct)
  case Nil
  then show ?case by (simp add: store_ok_def new_with_secret_def)
next
  case (snoc op ops)
  then show ?case
    using store_ok_step [of "added_epochs ops" _ op] by (simp add: added_epochs_append sorted_wrt_append)
qed

text \<open>
  C36: The secrets of past epochs.  Start with a new store and add epochs in increasing order,
  mixed in any way with replacing the current secrets, using the secrets of a past epoch,
  changing the policy, deleting by any rule and reading the store back.  Never more epochs are
  kept than the policy allows; those kept are among the added ones, in their order; reading back
  a store that was written in any rotation restores exactly that order; and adding one more epoch
  drops only the oldest one of a full store, and its secrets are found afterwards, unless the
  policy keeps none.
\<close>

theorem past_epochs_kept:
  assumes "sorted_wrt (<) (added_epochs ops)" and "fold store_step ops (new_with_secret now policy ms) = s"
  shows "length (past_epoch_trees s) \<le> store_max_epochs s \<and> subseq (store_epochs s) (added_epochs ops) \<and>
     (\<forall>k. epoch_trees_oldest_first (rotate k (past_epoch_trees s)) = past_epoch_trees s) \<and>
     (\<forall>e ms' leaves. (\<forall>x \<in> set (added_epochs ops). x < e) \<longrightarrow>
        past_epoch_trees (add_past_epoch_tree e ms' leaves s) =
          (if store_max_epochs s = 0 then []
           else drop (length (past_epoch_trees s) + 1 - store_max_epochs s) (past_epoch_trees s) @
             [\<lparr>tree_epoch = e, tree_message_secrets = ms', tree_leaves = leaves\<rparr>]) \<and>
        secrets_for_epoch (add_past_epoch_tree e ms' leaves s) e = (if store_max_epochs s = 0 then None else Some ms'))"
proof -
  have ok: "length (past_epoch_trees s) \<le> store_max_epochs s" "subseq (store_epochs s) (added_epochs ops)"
    using store_ok_run [OF assms(1), of now policy ms] assms(2) by (simp_all add: store_ok_def)
  have "epoch_trees_oldest_first (rotate k (past_epoch_trees s)) = past_epoch_trees s" for k
    by (rule oldest_first_sorted) (use sorted_subseq [OF ok(2) assms(1)] mset_rotate in simp_all)
  moreover have "past_epoch_trees (add_past_epoch_tree e ms' leaves s) =
      (if store_max_epochs s = 0 then []
       else drop (length (past_epoch_trees s) + 1 - store_max_epochs s) (past_epoch_trees s) @
         [\<lparr>tree_epoch = e, tree_message_secrets = ms', tree_leaves = leaves\<rparr>])" for e ms' leaves
    using add_past_epoch_tree_eq [OF ok(1), of e ms' leaves] ok(1) by auto
  moreover have "find (\<lambda>t. tree_epoch t = e) (drop n (past_epoch_trees s)) = None"
    if "\<forall>x \<in> set (added_epochs ops). x < e" for e n
  proof -
    have "tree_epoch t < e" if "t \<in> set (past_epoch_trees s)" for t
      using \<open>\<forall>x \<in> _. x < e\<close> that list_emb_set [OF ok(2), of "tree_epoch t"] by auto
    then show ?thesis by (auto simp: find_None_iff dest!: in_set_dropD)
  qed
  moreover have "find P (xs @ [x]) = Some x" if "find P xs = None" "P x" for P and xs :: "EpochTree list" and x
    using that by (induction xs) auto
  ultimately show ?thesis using ok by (auto simp: secrets_for_epoch_def find_epoch_def)
qed

section \<open>Deletion by age\<close>

text \<open>Whether a rule deletes secrets with a given timestamp at a given time.\<close>

fun expired :: "PastEpochDeletionTimeConfig \<Rightarrow> int \<Rightarrow> int option \<Rightarrow> bool" where
  "expired (OlderThanDuration duration) now (Some added_at) \<longleftrightarrow> int duration < now - added_at"
| "expired (BeforeTimestamp cutoff) now (Some added_at) \<longleftrightarrow> added_at < cutoff"
| "expired _ now _ \<longleftrightarrow> False"

text \<open>The newest epochs up to the first expired one, and at most \<open>m\<close> of them.\<close>

definition unexpired_suffix :: "(EpochTree \<Rightarrow> bool) \<Rightarrow> EpochTree list \<Rightarrow> EpochTree list" where
  "unexpired_suffix P trees = rev (takeWhile (\<lambda>t. \<not> P t) (rev trees))"

fun newest :: "nat option \<Rightarrow> EpochTree list \<Rightarrow> EpochTree list" where
  "newest None trees = trees"
| "newest (Some m) trees = drop (length trees - m) trees"

lemma older_than_iff: "older_than d now a \<longleftrightarrow> int d < now - a"
  by (auto simp: older_than_def)

lemma rfind_older_takeWhile:
  "(case rfind_older d (\<lambda>_. now) n ts of
      None \<Rightarrow> takeWhile (\<lambda>t. \<not> expired (OlderThanDuration d) now (tree_timestamp t)) ts = ts
    | Some i \<Rightarrow> i < length ts \<and>
        takeWhile (\<lambda>t. \<not> expired (OlderThanDuration d) now (tree_timestamp t)) ts = take (length ts - (i + 1)) ts)"
  by (induction d "\<lambda>_ :: nat. now" n ts rule: rfind_older.induct)
    (auto simp: older_than_iff Suc_diff_Suc take_Cons' split: option.splits)

lemma rfind_before_takeWhile:
  "(case rfind_before c ts of
      None \<Rightarrow> takeWhile (\<lambda>t. \<not> expired (BeforeTimestamp c) now (tree_timestamp t)) ts = ts
    | Some i \<Rightarrow> i < length ts \<and>
        takeWhile (\<lambda>t. \<not> expired (BeforeTimestamp c) now (tree_timestamp t)) ts = take (length ts - (i + 1)) ts)"
  by (induction c ts rule: rfind_before.induct) (auto simp: Suc_diff_Suc take_Cons' split: option.splits)

lemma suffix_of_search:
  assumes "case r of None \<Rightarrow> takeWhile (\<lambda>t. \<not> P t) (rev ts) = rev ts
    | Some i \<Rightarrow> i < length (rev ts) \<and> takeWhile (\<lambda>t. \<not> P t) (rev ts) = take (length (rev ts) - (i + 1)) (rev ts)"
  shows "unexpired_suffix P ts = (case r of Some i \<Rightarrow> drop (i + 1) ts | None \<Rightarrow> ts)"
proof (cases r)
  case (Some i)
  then have "rev (take (length ts - (i + 1)) (rev ts)) = drop (i + 1) ts"
    using assms by (simp add: rev_take)
  then show ?thesis using assms Some by (simp add: unexpired_suffix_def)
qed (use assms in \<open>simp add: unexpired_suffix_def del: takeWhile_eq_all_conv\<close>)

lemma delete_by_rule:
  assumes "config \<noteq> DeleteAllWithoutTimestamp"
  shows "past_epoch_trees (delete_past_epoch_secrets (\<lambda>_. now) \<lparr>deletion_config = Some config, deletion_max_past_epochs = m\<rparr> s) =
    newest m (if expired config now (ms_added_at (current_message_secrets s)) then []
              else unexpired_suffix (\<lambda>t. expired config now (tree_timestamp t)) (past_epoch_trees s))"
proof -
  have cap: "past_epoch_trees (delete_past_epoch_secrets (\<lambda>_. now) \<lparr>deletion_config = Some config, deletion_max_past_epochs = m\<rparr> s) =
      newest m (past_epoch_trees (case config of
          DeleteAllWithoutTimestamp \<Rightarrow> s
        | BeforeTimestamp timestamp \<Rightarrow> delete_before_timestamp timestamp s
        | OlderThanDuration duration \<Rightarrow> delete_older_than_duration duration (\<lambda>_. now) s))"
    using assms
    by (cases m) (auto simp: delete_past_epoch_secrets_def Let_def split: PastEpochDeletionTimeConfig.splits)
  show ?thesis
  proof (cases config)
    case (OlderThanDuration d)
    have found: "unexpired_suffix (\<lambda>t. expired config now (tree_timestamp t)) (past_epoch_trees s) =
        (case rfind_older d (\<lambda>_. now) n (rev (past_epoch_trees s)) of
           Some i \<Rightarrow> drop (i + 1) (past_epoch_trees s) | None \<Rightarrow> past_epoch_trees s)" for n
      unfolding OlderThanDuration by (rule suffix_of_search) (rule rfind_older_takeWhile)
    show ?thesis
      unfolding cap using found [of 0] found [of 1]
      by (auto simp: OlderThanDuration delete_older_than_duration_def older_than_iff Let_def split: option.splits)
  next
    case (BeforeTimestamp c)
    have "unexpired_suffix (\<lambda>t. expired config now (tree_timestamp t)) (past_epoch_trees s) =
        (case rfind_before c (rev (past_epoch_trees s)) of
           Some i \<Rightarrow> drop (i + 1) (past_epoch_trees s) | None \<Rightarrow> past_epoch_trees s)"
      unfolding BeforeTimestamp by (rule suffix_of_search) (rule rfind_before_takeWhile)
    then show ?thesis
      unfolding cap
      by (auto simp: BeforeTimestamp delete_before_timestamp_def split: option.splits)
  qed (use assms in simp)
qed

lemma delete_untimestamped:
  "past_epoch_trees (delete_past_epoch_secrets (\<lambda>_. now)
      \<lparr>deletion_config = Some DeleteAllWithoutTimestamp, deletion_max_past_epochs = m\<rparr> s) =
    newest m (filter (\<lambda>t. tree_timestamp t \<noteq> None) (past_epoch_trees s))"
  by (cases m) (simp_all add: delete_past_epoch_secrets_def Let_def)

text \<open>
  C37: Deleting past secrets by age.  With a clock that stands still during the call, a rule by
  duration or by timestamp leaves exactly the newest epochs up to the first one it hits, nothing
  when it hits the current epoch, and of those at most the given number; so no secret it hits
  survives.  The rule for missing timestamps removes those epochs only, deleting everything leaves
  nothing, and the secrets of the current epoch and the policy stay as they are.
\<close>

theorem deletion_leaves_unexpired:
  assumes "s' = delete_past_epoch_secrets (\<lambda>_. now) \<lparr>deletion_config = rule, deletion_max_past_epochs = m\<rparr> s"
  shows "past_epoch_trees s' =
      (case rule of
         None \<Rightarrow> []
       | Some DeleteAllWithoutTimestamp \<Rightarrow> newest m (filter (\<lambda>t. tree_timestamp t \<noteq> None) (past_epoch_trees s))
       | Some config \<Rightarrow>
           newest m (if expired config now (ms_added_at (current_message_secrets s)) then []
                     else unexpired_suffix (\<lambda>t. expired config now (tree_timestamp t)) (past_epoch_trees s))) \<and>
     (\<forall>config t. rule = Some config \<longrightarrow> t \<in> set (past_epoch_trees s') \<longrightarrow> \<not> expired config now (tree_timestamp t)) \<and>
     current_message_secrets s' = current_message_secrets s \<and> store_max_epochs s' = store_max_epochs s"
proof -
  have trees: "past_epoch_trees s' =
      (case rule of
         None \<Rightarrow> []
       | Some DeleteAllWithoutTimestamp \<Rightarrow> newest m (filter (\<lambda>t. tree_timestamp t \<noteq> None) (past_epoch_trees s))
       | Some config \<Rightarrow>
           newest m (if expired config now (ms_added_at (current_message_secrets s)) then []
                     else unexpired_suffix (\<lambda>t. expired config now (tree_timestamp t)) (past_epoch_trees s)))"
  proof (cases rule)
    case (Some config)
    then show ?thesis
      using delete_by_rule [of config now m s] delete_untimestamped [of now m s] by (cases config) (simp_all add: assms)
  qed (simp add: assms delete_past_epoch_secrets_def)
  have new: "set (newest m ts) \<subseteq> set ts" for ts by (cases m) (auto dest: in_set_dropD)
  have "\<not> P t" if "t \<in> set (unexpired_suffix P ts)" for P t ts
    using that by (auto simp: unexpired_suffix_def dest: set_takeWhileD)
  then have "\<not> expired config now (tree_timestamp t)"
    if "rule = Some config" "t \<in> set (past_epoch_trees s')" for config t
    using that trees new by (cases config) (fastforce split: if_splits)+
  then show ?thesis using trees assms delete_past_fields by blast
qed

section \<open>Stored policies and members\<close>

text \<open>
  A policy survives being stored, except that the largest number of epochs is read back as
  \<open>KeepAll\<close>, which the documentation of the type announces.
\<close>

lemma policy_roundtrip:
  assumes "case p of MaxEpochs n \<Rightarrow> n < 2 ^ 64 - 1 | KeepAll \<Rightarrow> True"
  shows "policy_deserialize (policy_serialize p) = p"
proof (cases p)
  case (MaxEpochs n)
  then have num: "unat (of_nat n :: u64) = n" using assms by (simp add: unat_of_nat)
  have "(of_nat n :: u64) \<noteq> - 1"
  proof
    assume "(of_nat n :: u64) = - 1"
    moreover have "unat (- 1 :: u64) = 2 ^ 64 - 1" by (simp add: unsigned_minus_1_eq_mask mask_eq_exp_minus_1)
    ultimately have "unat (of_nat n :: u64) = 2 ^ 64 - 1" by simp
    then show False using num assms MaxEpochs by simp
  qed
  then show ?thesis using num by (simp add: policy_serialize_def policy_deserialize_def MaxEpochs)
qed (simp add: policy_serialize_def policy_deserialize_def)

lemma largest_policy_keeps_all: "policy_deserialize (policy_serialize (MaxEpochs (2 ^ 64 - 1))) = KeepAll"
  by (simp add: policy_serialize_def policy_deserialize_def)

section \<open>Witnesses\<close>

definition sample_secrets :: MessageSecrets where
  "sample_secrets = message_secrets_new (Secret [1]) (Secret [2]) (Secret [3]) [4] (sample_member 0)"

theorem past_epochs_kept_witness:
  "length (past_epoch_trees (fold store_step [StoreAdd 3 sample_secrets [], StoreAdd 5 sample_secrets [], StoreReload]
      (new_with_secret 7 (MaxEpochs 1) sample_secrets))) \<le> 1"
proof -
  let ?ops = "[StoreAdd 3 sample_secrets [], StoreAdd 5 sample_secrets [], StoreReload]"
  have "sorted_wrt (<) (added_epochs ?ops)" by simp
  from past_epochs_kept [OF this refl, of 7 "MaxEpochs 1" sample_secrets, THEN conjunct1]
  show ?thesis
    by (simp add: add_past_epoch_tree_def new_with_secret_def max_epochs_def policy_max_epochs_def
        VECDEQUE_MAX_CAPACITY_def Let_def)
qed

theorem deletion_leaves_unexpired_witness:
  "past_epoch_trees (delete_past_epoch_secrets (\<lambda>_. 100) (older_than_duration 10)
     \<lparr>store_max_epochs = 5,
      past_epoch_trees = [\<lparr>tree_epoch = 1, tree_message_secrets = with_timestamp (Some 80) sample_secrets, tree_leaves = []\<rparr>,
        \<lparr>tree_epoch = 2, tree_message_secrets = with_timestamp (Some 95) sample_secrets, tree_leaves = []\<rparr>],
      current_message_secrets = with_timestamp (Some 99) sample_secrets\<rparr>) =
   [\<lparr>tree_epoch = 2, tree_message_secrets = with_timestamp (Some 95) sample_secrets, tree_leaves = []\<rparr>]"
  unfolding older_than_duration_def
  by (subst deletion_leaves_unexpired [OF refl, THEN conjunct1]) (simp add: unexpired_suffix_def with_timestamp_def)
end
