(* ===== verification/Lifetime.thy ===== *)
theory Lifetime
  imports Prelude
begin

text \<open>
  The lifetime of key packages and leaf nodes (\<^verbatim>\<open>key_packages/lifetime.rs\<close>).  A system time is the
  number of nanoseconds since the Unix epoch.  The flag \<open>checks\<close> tells whether the crate is built with
  overflow checks: an overflow then panics, and wraps around otherwise.
\<close>

section \<open>Model\<close>

definition DEFAULT_KEY_PACKAGE_LIFETIME_SECONDS :: u64 where
  "DEFAULT_KEY_PACKAGE_LIFETIME_SECONDS = 60 * 60 * 24 * 28 * 3"

definition DEFAULT_KEY_PACKAGE_LIFETIME_MARGIN_SECONDS :: u64 where
  "DEFAULT_KEY_PACKAGE_LIFETIME_MARGIN_SECONDS = 60 * 60"

definition MAX_LEAF_NODE_LIFETIME_RANGE_SECONDS :: u64 where
  "MAX_LEAF_NODE_LIFETIME_RANGE_SECONDS =
     DEFAULT_KEY_PACKAGE_LIFETIME_MARGIN_SECONDS + DEFAULT_KEY_PACKAGE_LIFETIME_SECONDS"

record Lifetime =
  not_before :: u64
  not_after :: u64

datatype LifetimeError =
    Expired u64 u64
  | NotValidYet u64 u64
  | SystemTimeBeforeUnixEpoch

datatype LeafNodeLifetimePolicy = VerifyLifetime | SkipLifetime | VerifyLifetimeAt u64

text \<open>Arithmetic on \<^verbatim>\<open>u64\<close>, and the seconds of a \<^verbatim>\<open>duration_since(UNIX_EPOCH)\<close>.\<close>

definition u64_sub :: "bool \<Rightarrow> u64 \<Rightarrow> u64 \<Rightarrow> (u64, 'e) outcome" where
  "u64_sub checks a b = (if checks \<and> a < b then Inl Panics else Inr (a - b))"

definition u64_add :: "bool \<Rightarrow> u64 \<Rightarrow> u64 \<Rightarrow> (u64, 'e) outcome" where
  "u64_add checks a b = (if checks \<and> unat a + unat b \<ge> 2 ^ 64 then Inl Panics else Inr (a + b))"

definition u64_saturating_sub :: "u64 \<Rightarrow> u64 \<Rightarrow> u64" where
  "u64_saturating_sub a b = (if a < b then 0 else a - b)"

definition unix_seconds :: "int \<Rightarrow> u64 option" where
  "unix_seconds now = (if now < 0 then None else Some (of_int (now div 10 ^ 9)))"

definition lifetime_new :: "bool \<Rightarrow> int \<Rightarrow> u64 \<Rightarrow> (Lifetime, LifetimeError) outcome" where
  "lifetime_new checks system_now t =
     (let lifetime_margin = DEFAULT_KEY_PACKAGE_LIFETIME_MARGIN_SECONDS in
      and_then (unwrap (unix_seconds system_now)) (\<lambda>now.
      and_then (u64_sub checks now lifetime_margin) (\<lambda>before.
      and_then (u64_add checks now t) (\<lambda>after.
        Inr \<lparr>not_before = before, not_after = after\<rparr>))))"

definition lifetime_init :: "u64 \<Rightarrow> u64 \<Rightarrow> Lifetime" where
  "lifetime_init before after = \<lparr>not_before = before, not_after = after\<rparr>"

definition validate_at :: "Lifetime \<Rightarrow> u64 \<Rightarrow> (unit, LifetimeError) outcome" where
  "validate_at self now =
     (if not_after self \<le> now then throw (Expired (not_after self) now)
      else if not_before self > now then throw (NotValidYet (not_before self) now)
      else Inr ())"

definition validate_with_time :: "Lifetime \<Rightarrow> int \<Rightarrow> (unit, LifetimeError) outcome" where
  "validate_with_time self now =
     and_then (ok_or (unix_seconds now) SystemTimeBeforeUnixEpoch) (validate_at self)"

definition lifetime_validate :: "int \<Rightarrow> Lifetime \<Rightarrow> (unit, LifetimeError) outcome" where
  "lifetime_validate system_now self = validate_with_time self system_now"

definition validate_with_policy :: "int \<Rightarrow> Lifetime \<Rightarrow> LeafNodeLifetimePolicy \<Rightarrow> (unit, LifetimeError) outcome" where
  "validate_with_policy system_now self policy =
     (case policy of
        VerifyLifetime \<Rightarrow> lifetime_validate system_now self
      | SkipLifetime \<Rightarrow> Inr ()
      | VerifyLifetimeAt unix_secs \<Rightarrow> validate_at self unix_secs)"

definition has_acceptable_range :: "Lifetime \<Rightarrow> bool" where
  "has_acceptable_range self \<longleftrightarrow>
     u64_saturating_sub (not_after self) (not_before self) \<le> MAX_LEAF_NODE_LIFETIME_RANGE_SECONDS"

definition lifetime_default :: "bool \<Rightarrow> int \<Rightarrow> (Lifetime, LifetimeError) outcome" where
  "lifetime_default checks system_now = lifetime_new checks system_now DEFAULT_KEY_PACKAGE_LIFETIME_SECONDS"

section \<open>The window of a new lifetime\<close>

lemma unix_seconds_Some:
  assumes "0 \<le> now" "now div 10 ^ 9 < 2 ^ 64"
  obtains s where "unix_seconds now = Some s" "int (unat s) = now div 10 ^ 9"
proof -
  have "int (unat (of_int (now div 10 ^ 9) :: u64)) = now div 10 ^ 9"
    using assms by (simp add: unsigned_of_int take_bit_int_eq_self pos_imp_zdiv_nonneg_iff)
  then show ?thesis using assms(1) that by (simp add: unix_seconds_def)
qed

lemma lifetime_new_window:
  assumes "unix_seconds now = Some s" and "3600 \<le> unat s" and "unat s + unat t < 2 ^ 64"
  shows "\<exists>lt. lifetime_new checks now t = Inr lt \<and> unat (not_before lt) + 3600 = unat s \<and> unat (not_after lt) = unat s + unat t"
proof -
  have "unat (3600 :: u64) = 3600" by simp
  then have le: "(3600 :: u64) \<le> s" using assms(2) by (simp add: word_le_nat_alt)
  then have "unat (s - 3600) + 3600 = unat s" using assms(2) by (simp add: unat_sub)
  moreover have "unat (s + t) = unat s + unat t" using assms(3) unat_add_lem [of s t] by simp
  ultimately show ?thesis
    using assms le
    by (auto simp: lifetime_new_def u64_sub_def u64_add_def DEFAULT_KEY_PACKAGE_LIFETIME_MARGIN_SECONDS_def Let_def)
qed

text \<open>
  C38: The window of a lifetime.  When the clock is at least an hour past the Unix epoch and the
  requested number of seconds does not overflow, a new lifetime is made without a panic, with or
  without overflow checks, and is accepted at exactly the times from one hour before its creation
  until just before the requested number of seconds is over: earlier it is not valid yet, later it
  is expired.  Its range is acceptable exactly when the request is at most the default.
\<close>

theorem lifetime_window:
  assumes "0 \<le> now" and "3600 \<le> now div 10 ^ 9" and "now div 10 ^ 9 + int (unat t) < 2 ^ 64"
  shows "\<exists>lt. lifetime_new checks now t = Inr lt \<and>
    (\<forall>at. 0 \<le> at \<longrightarrow> at div 10 ^ 9 < 2 ^ 64 \<longrightarrow>
       (validate_with_time lt at = Inr () \<longleftrightarrow>
          now div 10 ^ 9 - 3600 \<le> at div 10 ^ 9 \<and> at div 10 ^ 9 < now div 10 ^ 9 + int (unat t)) \<and>
       ((\<exists>a b. validate_with_time lt at = throw (Expired a b)) \<longleftrightarrow> now div 10 ^ 9 + int (unat t) \<le> at div 10 ^ 9)) \<and>
    (\<forall>at < 0. validate_with_time lt at = throw SystemTimeBeforeUnixEpoch) \<and>
    (has_acceptable_range lt \<longleftrightarrow> t \<le> DEFAULT_KEY_PACKAGE_LIFETIME_SECONDS)"
proof -
  obtain s where s: "unix_seconds now = Some s" "int (unat s) = now div 10 ^ 9"
    by (rule unix_seconds_Some [of now]) (use assms of_nat_0_le_iff [of "unat t", where ?'a = int] in linarith)+
  have "int (unat s + unat t) < int (2 ^ 64)" unfolding of_nat_add using assms(3) s(2) by simp
  then have "unat s + unat t < 2 ^ 64" by (rule of_nat_less_imp_less)
  moreover have "3600 \<le> unat s" using assms(2) s(2) by linarith
  ultimately obtain lt where lt: "lifetime_new checks now t = Inr lt" "unat (not_before lt) + 3600 = unat s"
    "unat (not_after lt) = unat s + unat t"
    using lifetime_new_window [OF s(1), of t checks] by blast
  have valid: "(validate_with_time lt at = Inr () \<longleftrightarrow>
        now div 10 ^ 9 - 3600 \<le> at div 10 ^ 9 \<and> at div 10 ^ 9 < now div 10 ^ 9 + int (unat t)) \<and>
      ((\<exists>a b. validate_with_time lt at = throw (Expired a b)) \<longleftrightarrow> now div 10 ^ 9 + int (unat t) \<le> at div 10 ^ 9)"
    if at: "0 \<le> at" "at div 10 ^ 9 < 2 ^ 64" for at
  proof -
    obtain a where a: "unix_seconds at = Some a" "int (unat a) = at div 10 ^ 9"
      by (rule unix_seconds_Some [OF at])
    have window: "int (unat s) - 3600 \<le> int (unat a) \<longleftrightarrow> not_before lt \<le> a"
      "int (unat a) < int (unat s) + int (unat t) \<longleftrightarrow> a < not_after lt"
      "int (unat s) + int (unat t) \<le> int (unat a) \<longleftrightarrow> not_after lt \<le> a"
      unfolding word_le_nat_alt word_less_nat_alt using lt(2,3) by linarith+
    show ?thesis
      unfolding s(2) [symmetric] a(2) [symmetric] window
      by (auto simp: validate_with_time_def a(1) validate_at_def)
  qed
  have "not_before lt \<le> not_after lt" using lt(2,3) by (simp add: word_le_nat_alt)
  then have "unat (u64_saturating_sub (not_after lt) (not_before lt)) = unat t + 3600"
    using lt(2,3) by (simp add: u64_saturating_sub_def not_less unat_sub)
  then have "has_acceptable_range lt \<longleftrightarrow> t \<le> DEFAULT_KEY_PACKAGE_LIFETIME_SECONDS"
    by (simp add: has_acceptable_range_def word_le_nat_alt MAX_LEAF_NODE_LIFETIME_RANGE_SECONDS_def
        DEFAULT_KEY_PACKAGE_LIFETIME_MARGIN_SECONDS_def DEFAULT_KEY_PACKAGE_LIFETIME_SECONDS_def)
  moreover have "validate_with_time lt at = throw SystemTimeBeforeUnixEpoch" if "at < 0" for at
    using that by (simp add: validate_with_time_def unix_seconds_def)
  ultimately show ?thesis using lt(1) valid by blast
qed

theorem lifetime_window_witness:
  "\<exists>lt. lifetime_new True (5000 * 10 ^ 9) 100 = Inr lt \<and> validate_with_time lt (5099 * 10 ^ 9) = Inr () \<and> has_acceptable_range lt"
  using lifetime_window [of "5000 * 10 ^ 9" 100 True] by (auto simp: DEFAULT_KEY_PACKAGE_LIFETIME_SECONDS_def)

text \<open>
  Without overflow checks the largest request wraps around and makes a lifetime that has expired when
  it is created; and a range that ends before it begins counts as acceptable.
\<close>

theorem largest_lifetime_is_expired:
  assumes "unix_seconds now = Some s" and "0 < s"
  shows "\<exists>lt. lifetime_new False now (- 1) = Inr lt \<and> validate_with_time lt now = throw (Expired (s - 1) s)"
proof -
  have "s - 1 \<le> s" using assms(2) by (simp add: word_le_nat_alt unat_minus_one word_gt_0)
  then show ?thesis
    using assms by (simp add: lifetime_new_def u64_sub_def u64_add_def validate_with_time_def validate_at_def)
qed

theorem reversed_range_is_acceptable: "has_acceptable_range (lifetime_init 5 4)"
  by (simp add: has_acceptable_range_def lifetime_init_def u64_saturating_sub_def)

end
