(* ===== verification/Spec2Isabelle.thy ===== *)
theory Spec2Isabelle
  imports TreeMath BinaryTree CryptoTypes Secrets SenderRatchet DualUseRatchet SecretTree Pprf StorageRefinement
    StorageDump PreSharedKeys KeySchedule PastSecrets Lifetime
begin

text \<open>
  A verification development of OpenMLS, an implementation of the Messaging Layer Security protocol
  in Rust.  All paths below are relative to \<^verbatim>\<open>src/\<close>; the main crate is \<^verbatim>\<open>openmls/src\<close>.

  \<^bold>\<open>The program.\<close>  A group moves from epoch to epoch.  Its members sit at the leaves of a binary
  tree in array representation (\<^verbatim>\<open>binary_tree/\<close>).  A commit yields a commit secret, from which the key
  schedule (\<^verbatim>\<open>schedule/\<close>), together with the init secret of the epoch before and pre-shared keys,
  derives the secrets of the new epoch.  The encryption secret of an epoch is the root of the secret
  tree (\<^verbatim>\<open>tree/\<close>), which gives every leaf two ratchets of message keys; the application export secret is
  the root of a puncturable tree of exported secrets (\<^verbatim>\<open>schedule/pprf\<close>).  The message secrets of past epochs
  are kept for late messages (\<^verbatim>\<open>group/mls_group/past_secrets.rs\<close>), and everything is persisted through a
  storage provider, here the one in memory (\<^verbatim>\<open>memory_storage/\<close>).

  \<^bold>\<open>How code is modelled.\<close>  Structs are records, enums are datatypes, machine integers are words of
  their width, \<^verbatim>\<open>usize\<close> is a natural number.  A function that can fail returns an \<open>outcome\<close>: \<open>Inr\<close> of the
  result, or \<open>Inl\<close> of an error, a panic or divergence.  A function on \<^verbatim>\<open>&mut self\<close> is a \<open>mutator\<close>, which
  returns the receiver also when it fails.  Cargo features are boolean arguments.  The cryptographic
  backend, serde and the derived TLS encodings are not part of the sources: they are parameters (the
  records \<open>OpenMlsCrypto\<close>, \<open>OpenMlsHpke\<close> and \<open>Serde\<close>, and functions), and what is relied on is named
  (\<open>hkdf_lengths\<close>, \<open>hkdf_total\<close>, \<open>extract_total\<close>, \<open>aead_inverse\<close>, \<open>ff1_injective\<close>, \<open>hpke_export_agrees\<close>,
  \<open>serde_ok\<close>).  Every hypothesis of this kind is shown to be satisfiable by an instance (\<open>toy_crypto\<close>,
  \<open>toy_hpke\<close>, \<open>toy_serde\<close>) in the witnesses.

  \<^bold>\<open>Foundations.\<close>
  \<^item> \<^verbatim>\<open>Prelude\<close>: words, outcomes, mutators, vectors.
  \<^item> \<^verbatim>\<open>StepSystem\<close>: runs of operations; the interfaces \<open>invariant_steps\<close>, \<open>one_time\<close> (tokens handed out at most
    once) and \<open>simulation\<close>, interpreted by the ratchets, the secret tree, the export tree and the store.
  \<^item> \<^verbatim>\<open>MapStore\<close>, \<^verbatim>\<open>OrderedMap\<close>, \<^verbatim>\<open>HashMap\<close>: the interface of a finite map and the two maps of the standard
    library; the iteration order of a \<^verbatim>\<open>HashMap\<close> is an arbitrary permutation.

  \<^bold>\<open>The binary tree\<close> (\<^verbatim>\<open>binary_tree/array_representation/\<close>).
  \<^item> \<^verbatim>\<open>TreeMath\<close> models \<^verbatim>\<open>treemath.rs\<close> with its bit arithmetic on 32-bit indices.  Nodes are related to
    pairs of a level and a position; direct path, copath, common ancestors and sizes are correct.
  \<^item> \<^verbatim>\<open>SortedIter\<close> models \<^verbatim>\<open>sorted_iter.rs\<close>: the iterator is a merge that prefers the diff.
  \<^item> \<^verbatim>\<open>BinaryTree\<close> models \<^verbatim>\<open>tree.rs\<close> and \<^verbatim>\<open>diff.rs\<close>.  Every sequence of operations on a diff followed by a merge
    refines the same operations on a plain full tree.

  \<^bold>\<open>Keys\<close> (\<^verbatim>\<open>ciphersuite/\<close>, \<^verbatim>\<open>traits/src/types.rs\<close>).
  \<^item> \<^verbatim>\<open>CryptoTypes\<close>: ciphersuites, their algorithms and code points, versions, GREASE values.
  \<^item> \<^verbatim>\<open>Secrets\<close>: key derivation, MACs, AEAD and reuse guards.  The sampling loop may in principle run
    forever and is a partial function; that it returns is proved from the values the random source delivers.

  \<^bold>\<open>Message keys\<close> (\<^verbatim>\<open>tree/\<close>).
  \<^item> \<^verbatim>\<open>SenderRatchet\<close> models \<^verbatim>\<open>sender_ratchet.rs\<close>: the decryption ratchet refines an abstract sliding window of
    generations, and each key is handed out at most once.
  \<^item> \<^verbatim>\<open>DualUseRatchet\<close> models \<^verbatim>\<open>dual_use_ratchet.rs\<close>, the ratchet that the emulators of a virtual client share.
  \<^item> \<^verbatim>\<open>SecretTree\<close> models \<^verbatim>\<open>secret_tree.rs\<close>: members agree on all keys, keys are used once, nodes whose secrets
    were used are blank, and each error has its cause.  Trees have depth at most 29, which is the
    largest the binary tree accepts.

  \<^bold>\<open>The key schedule\<close> (\<^verbatim>\<open>schedule/\<close>).
  \<^item> \<^verbatim>\<open>PreSharedKeys\<close> models \<^verbatim>\<open>psk.rs\<close>: validation in a Welcome, loading, the PSK secret as the chain of the standard,
    and the exact contents of the rollover list of resumption keys.
  \<^item> \<^verbatim>\<open>KeySchedule\<close> models \<^verbatim>\<open>mod.rs\<close> and \<^verbatim>\<open>message_secrets.rs\<close>: every order of calls on the state machine, that the schedule gets
    through, and that an external joiner and the members end up with the same secrets and message keys.
  \<^item> \<^verbatim>\<open>Pprf\<close> models \<^verbatim>\<open>pprf/\<close> and \<^verbatim>\<open>application_export_tree.rs\<close>: the export tree is a function of which each value is
    given out once.  The loop over the 16 bits of an input is structural recursion on the list of bits.

  \<^bold>\<open>Group state.\<close>
  \<^item> \<^verbatim>\<open>PastSecrets\<close> models \<^verbatim>\<open>group/mls_group/past_secrets.rs\<close> and the deletion policies of \<^verbatim>\<open>config.rs\<close>: what every sequence
    of operations keeps, and what deletion by age leaves.
  \<^item> \<^verbatim>\<open>Lifetime\<close> models \<^verbatim>\<open>key_packages/lifetime.rs\<close>: the window in which a lifetime is accepted.
  \<^item> \<^verbatim>\<open>MemoryStorage\<close> models \<^verbatim>\<open>memory_storage/src/lib.rs\<close>, \<^verbatim>\<open>StorageSpec\<close> is the abstract contract of a storage provider,
    \<^verbatim>\<open>StorageRefinement\<close> the proof that the model implements it, \<^verbatim>\<open>StorageDump\<close> the binary dump of a store and its round trip.

  \<^bold>\<open>Not modelled.\<close>  TreeSync and TreeKEM on top of the binary tree, framing, proposals and the group that
  composes them: their data are signed or encrypted structures with derived encodings, so what remains
  beside the components above is validation rules over those structures.  Signatures, HPKE and AEAD themselves,
  the SQL providers, the JSON file of the memory store, networking, the command line, bindings to other
  languages, procedural macros and tests: they are calls of other libraries, input and output, or generated
  code.  Zeroization of memory and logging have no counterpart in the model.
\<close>

end
